(* ===== verification/Prelude.thy ===== *)
theory Prelude
  imports "HOL-Library.Word" "HOL-Library.Monad_Syntax"
begin

unbundle bit_operations_syntax

text \<open>
  Vocabulary shared by every component: the machine types of the C sources, bounded access
  to C arrays and buffers, little-endian encoding of 32-bit words, and the generic list and
  word lemmas the component proofs use.

  Convention: a result of type \<open>'a option\<close> stands for a C computation that may go wrong.
  \<open>None\<close> is undefined behaviour (an access outside an object) or a loop that does not end;
  the error returns of the C functions are ordinary values under \<open>Some\<close>.
\<close>

section \<open>Machine types\<close>

type_synonym byte = "8 word"
type_synonym u32 = "32 word"
type_synonym u64 = "64 word"

text \<open>A C string without its terminating NUL.\<close>
type_synonym cstring = "byte list"

lemma unat_inject [simp]: "unat a = unat b \<longleftrightarrow> a = b"
  by (simp add: word_unat_eq_iff)

lemma unat_image_iff [simp]: "unat a \<in> unat ` S \<longleftrightarrow> a \<in> S"
  by auto

lemma distinct_map_unat [simp]: "distinct (map unat ws) \<longleftrightarrow> distinct ws"
  by (auto simp: distinct_map inj_on_def)

text \<open>32-bit arithmetic that does not wrap, read as natural numbers.\<close>

named_theorems unat_rules \<open>rules that move 32-bit arithmetic to natural numbers\<close>

lemma unat_add_u32 [unat_rules]:
  "unat a + unat b < 2 ^ 32 \<Longrightarrow> unat (a + b) = unat a + unat (b :: u32)"
  by (simp add: unat_word_ariths)

lemma unat_sub_u32 [unat_rules]:
  "unat b \<le> unat a \<Longrightarrow> unat (a - b) = unat a - unat (b :: u32)"
  by (simp add: unat_sub word_le_nat_alt)

lemma unat_min_u32 [unat_rules]:
  "unat (if b < a then b else a) = min (unat a) (unat (b :: u32))"
  by (simp add: word_less_nat_alt)

lemma unat_Suc_u32: "i < n \<Longrightarrow> unat (i + 1) = Suc (unat (i :: u32))"
proof -
  assume "i < n"
  moreover have "unat n < 2 ^ 32" using unsigned_less[of n] by simp
  ultimately show ?thesis by (simp add: unat_rules word_less_nat_alt)
qed

section \<open>Bounded access to arrays\<close>

definition arr_get :: "'a list \<Rightarrow> nat \<Rightarrow> 'a option" where
  "arr_get xs i = (if i < length xs then Some (xs ! i) else None)"

definition arr_set :: "'a list \<Rightarrow> nat \<Rightarrow> 'a \<Rightarrow> 'a list option" where
  "arr_set xs i x = (if i < length xs then Some (xs[i := x]) else None)"

lemma arr_get_in [simp]: "i < length xs \<Longrightarrow> arr_get xs i = Some (xs ! i)"
  by (simp add: arr_get_def)

lemma arr_set_in [simp]: "i < length xs \<Longrightarrow> arr_set xs i x = Some (xs[i := x])"
  by (simp add: arr_set_def)

lemma arr_get_Some_iff: "arr_get xs i = Some x \<longleftrightarrow> i < length xs \<and> x = xs ! i"
  by (auto simp: arr_get_def)

lemma arr_set_Some_iff: "arr_set xs i x = Some ys \<longleftrightarrow> i < length xs \<and> ys = xs[i := x]"
  by (auto simp: arr_set_def)

lemma bex_take_nth:
  "n \<le> length xs \<Longrightarrow> (\<exists>x \<in> set (take n xs). P x) \<longleftrightarrow> (\<exists>i < n. P (xs ! i))"
  by (auto simp flip: nth_image)

section \<open>Overwriting part of a buffer\<close>

text \<open>\<open>patch xs p ys\<close> is \<open>xs\<close> with the bytes from position \<open>p\<close> replaced by \<open>ys\<close>.\<close>

definition patch :: "'a list \<Rightarrow> nat \<Rightarrow> 'a list \<Rightarrow> 'a list" where
  "patch xs p ys = take p xs @ ys @ drop (p + length ys) xs"

text \<open>\<open>memcpy (dst + p) (src + q) n\<close>; leaving either object is undefined.\<close>

definition memcpy :: "'a list \<Rightarrow> nat \<Rightarrow> 'a list \<Rightarrow> nat \<Rightarrow> nat \<Rightarrow> 'a list option" where
  "memcpy dst p src q n =
     (if p + n \<le> length dst \<and> q + n \<le> length src
      then Some (patch dst p (take n (drop q src))) else None)"

definition memset :: "'a list \<Rightarrow> nat \<Rightarrow> 'a \<Rightarrow> nat \<Rightarrow> 'a list option" where
  "memset dst p c n =
     (if p + n \<le> length dst then Some (patch dst p (replicate n c)) else None)"

lemma length_patch [simp]: "p + length ys \<le> length xs \<Longrightarrow> length (patch xs p ys) = length xs"
  by (simp add: patch_def)

lemma patch_Nil [simp]: "patch xs p [] = xs"
  by (simp add: patch_def)

lemma nth_patch:
  assumes "p + length ys \<le> length xs" "i < length xs"
  shows "patch xs p ys ! i = (if p \<le> i \<and> i < p + length ys then ys ! (i - p) else xs ! i)"
  using assms by (auto simp: patch_def nth_append)

lemma patch_patch_adjacent:
  assumes "p + length ys + length zs \<le> length xs"
  shows "patch (patch xs p ys) (p + length ys) zs = patch xs p (ys @ zs)"
  using assms by (simp add: patch_def ac_simps)

lemma patch_append_left:
  "p + length ys \<le> length xs \<Longrightarrow> patch (xs @ zs) p ys = patch xs p ys @ zs"
  by (simp add: patch_def)

lemma patch_append_right:
  "length xs \<le> p \<Longrightarrow> patch (xs @ zs) p ys = xs @ patch zs (p - length xs) ys"
  by (simp add: patch_def)

lemma take_patch_before: "n \<le> p \<Longrightarrow> p \<le> length xs \<Longrightarrow> take n (patch xs p ys) = take n xs"
  by (simp add: patch_def)

lemma take_patch_end:
  "p + length ys \<le> length xs \<Longrightarrow> take (p + length ys) (patch xs p ys) = take p xs @ ys"
  by (simp add: patch_def)

lemma memcpy_Some [simp]:
  "p + n \<le> length dst \<Longrightarrow> q + n \<le> length src \<Longrightarrow>
   memcpy dst p src q n = Some (patch dst p (take n (drop q src)))"
  by (simp add: memcpy_def)

lemma memset_Some [simp]:
  "p + n \<le> length dst \<Longrightarrow> memset dst p c n = Some (patch dst p (replicate n c))"
  by (simp add: memset_def)

text \<open>Clearing a range is copying from a buffer of zeros.\<close>

lemma memset_eq_memcpy:
  "q + n \<le> m \<Longrightarrow> memset dst p c n = memcpy dst p (replicate m c) q n"
  by (simp add: memset_def memcpy_def min_absorb1)

section \<open>Arrays of fixed-size pieces\<close>

text \<open>
  A byte sequence made of pieces of one size \<open>k\<close>: the directory, the file allocation table,
  the blocks of a file and the pages of a thread's storage are read this way.
\<close>

lemma length_concat_const:
  "(\<And>x. x \<in> set xs \<Longrightarrow> length x = k) \<Longrightarrow> length (concat xs) = k * length xs"
  by (induction xs) auto

lemma drop_concat_const:
  "(\<And>x. x \<in> set xs \<Longrightarrow> length x = k) \<Longrightarrow> drop (k * i) (concat xs) = concat (drop i xs)"
proof (induction xs arbitrary: i)
  case (Cons x xs)
  then show ?case by (cases i) auto
qed simp

lemma take_concat_const:
  "(\<And>x. x \<in> set xs \<Longrightarrow> length x = k) \<Longrightarrow> take (k * i) (concat xs) = concat (take i xs)"
proof (induction xs arbitrary: i)
  case (Cons x xs)
  then show ?case by (cases i) auto
qed simp

lemma concat_piece:
  assumes "\<And>x. x \<in> set xs \<Longrightarrow> length x = k" "i < length xs"
  shows "drop (k * i) (concat xs) = xs ! i @ concat (drop (Suc i) xs)"
  using assms by (simp add: drop_concat_const flip: Cons_nth_drop_Suc)

lemma nth_concat_const:
  assumes len: "\<And>x. x \<in> set xs \<Longrightarrow> length x = k" and p: "p < k * length xs"
  shows "concat xs ! p = xs ! (p div k) ! (p mod k)"
proof -
  from p have k: "0 < k" by (cases k) auto
  have i: "p div k < length xs" using p k by (simp add: less_mult_imp_div_less mult.commute)
  have "concat xs ! p = drop (k * (p div k)) (concat xs) ! (p mod k)"
    using p i by (subst nth_drop) (auto simp: length_concat_const[OF len])
  also have "\<dots> = (xs ! (p div k) @ concat (drop (Suc (p div k)) xs)) ! (p mod k)"
    using concat_piece[of xs k "p div k"] len i by simp
  also have "\<dots> = xs ! (p div k) ! (p mod k)"
    using len[of "xs ! (p div k)"] i k by (simp add: nth_append)
  finally show ?thesis .
qed

lemma concat_update_piece:
  assumes "\<And>x. x \<in> set xs \<Longrightarrow> length x = k" "i < length xs" "length y = k"
  shows "concat (xs[i := y]) = patch (concat xs) (k * i) y"
proof -
  have "concat (xs[i := y]) = concat (take i xs) @ y @ concat (drop (Suc i) xs)"
    using assms(2) by (simp add: upd_conv_take_nth_drop)
  moreover have "take (k * i) (concat xs) = concat (take i xs)"
    by (rule take_concat_const) (rule assms(1))
  moreover have "drop (k * Suc i) (concat xs) = concat (drop (Suc i) xs)"
    by (rule drop_concat_const) (rule assms(1))
  ultimately show ?thesis using assms(3) by (simp add: patch_def add.commute)
qed

text \<open>Overwriting inside one piece is overwriting inside the whole.\<close>

lemma patch_concat_piece:
  assumes len: "\<And>x. x \<in> set xs \<Longrightarrow> length x = k" and i: "i < length xs"
    and fit: "o' + length ys \<le> k"
  shows "concat (xs[i := patch (xs ! i) o' ys]) = patch (concat xs) (k * i + o') ys"
proof -
  have xi: "length (xs ! i) = k" using len i by simp
  have split: "concat xs = concat (take i xs) @ xs ! i @ concat (drop (Suc i) xs)"
    using i by (metis concat.simps(2) concat_append id_take_nth_drop)
  have pre: "length (concat (take i xs)) = k * i"
    using i by (subst length_concat_const[where k = k]) (auto dest: in_set_takeD len)
  have "concat (xs[i := patch (xs ! i) o' ys])
      = concat (take i xs) @ patch (xs ! i) o' ys @ concat (drop (Suc i) xs)"
    using i by (simp add: upd_conv_take_nth_drop)
  also have "\<dots> = patch (concat xs) (k * i + o') ys"
    unfolding split using pre xi fit by (simp add: patch_append_right patch_append_left)
  finally show ?thesis .
qed

section \<open>Little-endian words\<close>

definition enc32 :: "u32 \<Rightarrow> byte list" where
  "enc32 w = [ucast w, ucast (drop_bit 8 w), ucast (drop_bit 16 w), ucast (drop_bit 24 w)]"

definition dec32 :: "byte list \<Rightarrow> u32" where
  "dec32 bs = ucast (bs ! 0) OR push_bit 8 (ucast (bs ! 1)) OR push_bit 16 (ucast (bs ! 2))
     OR push_bit 24 (ucast (bs ! 3))"

lemma length_enc32 [simp]: "length (enc32 w) = 4"
  by (simp add: enc32_def)

lemma dec32_enc32_append [simp]: "dec32 (enc32 w @ bs) = w"
  apply (rule bit_eqI)
  apply (auto simp: dec32_def enc32_def bit_simps)
  subgoal for n by (cases "24 \<le> n") auto
  done

text \<open>An array of 32-bit words.\<close>

definition enc_words :: "u32 list \<Rightarrow> byte list" where
  "enc_words ws = concat (map enc32 ws)"

definition dec_words :: "nat \<Rightarrow> byte list \<Rightarrow> u32 list" where
  "dec_words n bs = map (\<lambda>i. dec32 (drop (4 * i) bs)) [0..<n]"

lemma length_enc_words [simp]: "length (enc_words ws) = 4 * length ws"
  unfolding enc_words_def by (subst length_concat_const[where k = 4]) auto

lemma length_dec_words [simp]: "length (dec_words n bs) = n"
  by (simp add: dec_words_def)

lemma dec_words_enc_words: "dec_words (length ws) (enc_words ws @ bs) = ws"
proof (rule nth_equalityI)
  fix i assume "i < length (dec_words (length ws) (enc_words ws @ bs))"
  then have i: "i < length ws" by simp
  have "drop (4 * i) (concat (map enc32 ws)) = map enc32 ws ! i @ concat (drop (Suc i) (map enc32 ws))"
    by (rule concat_piece) (use i in auto)
  then have "drop (4 * i) (enc_words ws @ bs) = enc32 (ws ! i) @ concat (drop (Suc i) (map enc32 ws)) @ bs"
    using i length_enc_words[of ws] by (simp add: enc_words_def)
  then show "dec_words (length ws) (enc_words ws @ bs) ! i = ws ! i"
    using i by (simp add: dec_words_def)
qed simp

section \<open>Linear search\<close>

text \<open>
  The index of the first element that satisfies a test, counted from \<open>k\<close>, or \<open>-1\<close>: the
  shape of the search loops of the C code, which are proved equal to it.
\<close>

fun first_index :: "nat \<Rightarrow> ('a \<Rightarrow> bool) \<Rightarrow> 'a list \<Rightarrow> int" where
  "first_index k P [] = -1"
| "first_index k P (x # xs) = (if P x then int k else first_index (Suc k) P xs)"

lemma first_index_cases:
  obtains (none) "first_index k P xs = -1" "\<And>i. i < length xs \<Longrightarrow> \<not> P (xs ! i)"
  | (some) i where "first_index k P xs = int (k + i)" "i < length xs" "P (xs ! i)"
      "\<And>j. j < i \<Longrightarrow> \<not> P (xs ! j)"
proof (induction xs arbitrary: k thesis)
  case Nil
  then show ?case by simp
next
  case (Cons x xs)
  show ?case
  proof (cases "P x")
    case True
    then show ?thesis using Cons.prems(2)[of 0] by simp
  next
    case False
    show ?thesis
    proof (rule Cons.IH[of "Suc k"])
      assume a: "first_index (Suc k) P xs = -1" "\<And>i. i < length xs \<Longrightarrow> \<not> P (xs ! i)"
      have "\<not> P ((x # xs) ! i)" if "i < length (x # xs)" for i
        using that a(2) False by (cases i) auto
      with a(1) False show ?thesis using Cons.prems(1) by simp
    next
      fix i assume a: "first_index (Suc k) P xs = int (Suc k + i)" "i < length xs" "P (xs ! i)"
        "\<And>j. j < i \<Longrightarrow> \<not> P (xs ! j)"
      have "\<not> P ((x # xs) ! j)" if "j < Suc i" for j
        using that a(4) False by (cases j) auto
      with a(1-3) False show ?thesis using Cons.prems(2)[of "Suc i"] by simp
    qed
  qed
qed

lemma first_index_none: "first_index 0 P xs < 0 \<longleftrightarrow> (\<forall>i < length xs. \<not> P (xs ! i))"
  by (rule first_index_cases[of 0 P xs]) auto

lemma first_index_some: "0 \<le> first_index 0 P xs \<longleftrightarrow> (\<exists>i < length xs. P (xs ! i))"
  by (rule first_index_cases[of 0 P xs]) auto

lemma first_index_unique:
  assumes "i < length xs" "P (xs ! i)" "\<And>j. j < length xs \<Longrightarrow> P (xs ! j) \<Longrightarrow> j = i"
  shows "first_index 0 P xs = int i"
proof (rule first_index_cases[of 0 P xs])
  fix k assume "first_index 0 P xs = int (0 + k)" "k < length xs" "P (xs ! k)"
  with assms(3)[of k] show ?thesis by simp
next
  assume "\<And>j. j < length xs \<Longrightarrow> \<not> P (xs ! j)"
  with assms(1,2) show ?thesis by blast
qed

lemma first_index_find:
  "first_index 0 P xs = (case find (\<lambda>i. P (xs ! i)) [0..<length xs] of None \<Rightarrow> -1 | Some k \<Rightarrow> int k)"
proof (rule first_index_cases[of 0 P xs])
  assume a: "first_index 0 P xs = -1" "\<And>i. i < length xs \<Longrightarrow> \<not> P (xs ! i)"
  then have "find (\<lambda>i. P (xs ! i)) [0..<length xs] = None" by (auto simp: find_None_iff)
  with a(1) show ?thesis by simp
next
  fix i assume a: "first_index 0 P xs = int (0 + i)" "i < length xs" "P (xs ! i)"
    "\<And>j. j < i \<Longrightarrow> \<not> P (xs ! j)"
  then have "find (\<lambda>i. P (xs ! i)) [0..<length xs] = Some i"
    by (auto simp: find_Some_iff intro!: exI[of _ i])
  with a(1) show ?thesis by simp
qed

lemma unat_of_nat_u32 [simp]: "n < 2 ^ 32 \<Longrightarrow> unat (of_nat n :: u32) = n"
  by (simp add: unat_of_nat take_bit_nat_eq_self)

lemma sint_small: "unat w < 2 ^ 31 \<Longrightarrow> sint (w :: u32) = int (unat w)"
proof -
  assume "unat w < 2 ^ 31"
  then have "int (unat w) < 2 ^ 31" by (metis of_nat_less_iff of_nat_numeral of_nat_power)
  then have "signed_take_bit 31 (int (unat w)) = int (unat w)"
    by (intro signed_take_bit_int_eq_self) (auto intro: order_trans[OF _ uint_ge_0])
  then show ?thesis by (simp add: sint_uint)
qed

section \<open>Simulation\<close>

text \<open>
  The contract between a component and its specification.  \<open>exec c s\<close> is the call \<open>c\<close> of the
  code in state \<open>s\<close> (\<open>None\<close>: undefined behaviour); \<open>spec c a r a'\<close> says that the specification
  allows the response \<open>r\<close> and the step from \<open>a\<close> to \<open>a'\<close>.
\<close>

primrec run :: "('c \<Rightarrow> 's \<Rightarrow> ('r \<times> 's) option) \<Rightarrow> 'c list \<Rightarrow> 's \<Rightarrow> ('r list \<times> 's) option" where
  "run exec [] s = Some ([], s)"
| "run exec (c # cs) s =
     (case exec c s of None \<Rightarrow> None
      | Some (r, s') \<Rightarrow> map_option (\<lambda>(rs, t). (r # rs, t)) (run exec cs s'))"

inductive allows :: "('c \<Rightarrow> 'a \<Rightarrow> 'r \<Rightarrow> 'a \<Rightarrow> bool) \<Rightarrow> 'c list \<Rightarrow> 'a \<Rightarrow> 'r list \<Rightarrow> 'a \<Rightarrow> bool"
  for spec where
  allows_Nil: "allows spec [] a [] a"
| allows_Cons: "spec c a r b \<Longrightarrow> allows spec cs b rs d \<Longrightarrow> allows spec (c # cs) a (r # rs) d"

inductive_simps allows_simps: "allows spec [] a rs d" "allows spec (c # cs) a rs d"

text \<open>Every call of a sequence is allowed in the state in which it is made.\<close>

primrec may_run :: "('c \<Rightarrow> 's \<Rightarrow> bool) \<Rightarrow> ('c \<Rightarrow> 's \<Rightarrow> ('r \<times> 's) option) \<Rightarrow> 'c list \<Rightarrow> 's \<Rightarrow> bool" where
  "may_run allowed exec [] s = True"
| "may_run allowed exec (c # cs) s =
     (allowed c s \<and> (case exec c s of None \<Rightarrow> True | Some (r, s') \<Rightarrow> may_run allowed exec cs s'))"

lemma may_run_const: "\<forall>c \<in> set cs. allowed c \<Longrightarrow> may_run (\<lambda>c s. allowed c) exec cs s"
  by (induction cs arbitrary: s) (auto split: option.splits)

locale guarded_simulation =
  fixes inv :: "'s \<Rightarrow> bool"
    and abs_of :: "'s \<Rightarrow> 'a"
    and allowed :: "'c \<Rightarrow> 's \<Rightarrow> bool"
    and exec :: "'c \<Rightarrow> 's \<Rightarrow> ('r \<times> 's) option"
    and spec :: "'c \<Rightarrow> 'a \<Rightarrow> 'r \<Rightarrow> 'a \<Rightarrow> bool"
  assumes guarded_step: "inv s \<Longrightarrow> allowed c s \<Longrightarrow>
    \<exists>r s'. exec c s = Some (r, s') \<and> inv s' \<and> spec c (abs_of s) r (abs_of s')"
begin

text \<open>Every sequence of allowed calls is defined, keeps the invariant and is one the specification allows.\<close>

lemma guarded_run:
  assumes "inv s" "may_run allowed exec cs s"
  shows "\<exists>rs t. run exec cs s = Some (rs, t) \<and> inv t \<and> allows spec cs (abs_of s) rs (abs_of t)"
  using assms
proof (induction cs arbitrary: s)
  case Nil
  then show ?case by (auto intro: allows_Nil)
next
  case (Cons c cs)
  from guarded_step[of s c] Cons.prems obtain r s' where
    s': "exec c s = Some (r, s')" "inv s'" "spec c (abs_of s) r (abs_of s')" by auto
  from Cons.IH[of s'] s'(1,2) Cons.prems(2) obtain rs t where
    "run exec cs s' = Some (rs, t)" "inv t" "allows spec cs (abs_of s') rs (abs_of t)" by auto
  with s' show ?case by (auto intro: allows_Cons)
qed

end

text \<open>Calls whose precondition does not depend on the state.\<close>

locale simulation =
  fixes inv :: "'s \<Rightarrow> bool"
    and abs_of :: "'s \<Rightarrow> 'a"
    and allowed :: "'c \<Rightarrow> bool"
    and exec :: "'c \<Rightarrow> 's \<Rightarrow> ('r \<times> 's) option"
    and spec :: "'c \<Rightarrow> 'a \<Rightarrow> 'r \<Rightarrow> 'a \<Rightarrow> bool"
  assumes sim_step: "inv s \<Longrightarrow> allowed c \<Longrightarrow>
    \<exists>r s'. exec c s = Some (r, s') \<and> inv s' \<and> spec c (abs_of s) r (abs_of s')"

sublocale simulation \<subseteq> unguarded: guarded_simulation inv abs_of "\<lambda>c s. allowed c" exec spec
  by unfold_locales (rule sim_step)

context simulation
begin

lemma sim_run:
  assumes "inv s" "\<forall>c \<in> set cs. allowed c"
  shows "\<exists>rs t. run exec cs s = Some (rs, t) \<and> inv t \<and> allows spec cs (abs_of s) rs (abs_of t)"
  by (rule unguarded.guarded_run[OF assms(1) may_run_const[OF assms(2)]])

end

end
