(* ===== verification/Disk.thy ===== *)
theory Disk
  imports Prelude
begin

text \<open>
  The virtual disk of \<^verbatim>\<open>EC440_HW5/disk.c\<close>: a file of the host operating system read and
  written in whole blocks.  The host is part of the state: its files as byte arrays, and
  its answers to the calls that may fail (\<open>may_open\<close>, \<open>may_create\<close>, \<open>io_fails\<close>) or move fewer
  bytes than asked for (\<open>moves\<close>), which depend on the call and its offset and stay the same
  during a run.  \<open>blk\<close> is the block
  array the file represents; the locale \<open>block_device\<close> is the interface the file system
  relies on, interpreted on \<open>block_read\<close> and \<open>block_write\<close> at the end.
\<close>

section \<open>The host file behind the disk\<close>

definition BLOCK_SIZE :: nat where "BLOCK_SIZE = 4096"
definition DISK_BLOCKS :: nat where "DISK_BLOCKS = 8192"

lemma BLOCK_SIZE_pos [simp]: "0 < BLOCK_SIZE"
  by (simp add: BLOCK_SIZE_def)

lemma BLOCK_SIZE_nonzero [simp]: "BLOCK_SIZE \<noteq> 0"
  by (simp add: BLOCK_SIZE_def)

text \<open>A host file: its size and its bytes; only offsets below the size count.\<close>

record vfile =
  vsize :: nat
  vdata :: "nat \<Rightarrow> byte"

datatype io_call = Seek | Read | Write

record host =
  files :: "cstring \<rightharpoonup> vfile"
  may_open :: "cstring \<Rightarrow> bool"
  may_create :: "cstring \<Rightarrow> bool"
  io_fails :: "io_call \<Rightarrow> nat \<Rightarrow> bool"
  moves :: "io_call \<Rightarrow> nat \<Rightarrow> nat"

text \<open>
  \<^verbatim>\<open>read\<close> at an offset returns at most the bytes up to the end of the file; \<^verbatim>\<open>write\<close>
  extends the file and fills a gap with zeros.  Both stop after \<open>moves\<close> bytes.  \<open>None\<close> is the
  result \<^verbatim>\<open>-1\<close>; every other result is a success for the callers, a short transfer included.
\<close>

definition host_read :: "host \<Rightarrow> cstring \<Rightarrow> nat \<Rightarrow> nat \<Rightarrow> byte list option" where
  "host_read h n off len =
     (case files h n of None \<Rightarrow> None
      | Some f \<Rightarrow>
          if io_fails h Read off then None
          else Some (map (vdata f) [off ..< min (off + min len (moves h Read off)) (vsize f)]))"

definition host_write :: "host \<Rightarrow> cstring \<Rightarrow> nat \<Rightarrow> byte list \<Rightarrow> host option" where
  "host_write h n off buf =
     (case files h n of None \<Rightarrow> None
      | Some f \<Rightarrow>
          if io_fails h Write off then None
          else let buf = take (moves h Write off) buf in
          if buf = [] then Some h
          else Some (h\<lparr>files := (files h)(n \<mapsto>
            \<lparr>vsize = max (vsize f) (off + length buf),
             vdata = (\<lambda>i. if off \<le> i \<and> i < off + length buf then buf ! (i - off)
                          else if i < vsize f then vdata f i else 0)\<rparr>)\<rparr>))"

section \<open>The module\<close>

text \<open>
  \<open>active\<close> and \<open>handle\<close> are the static variables; the handle is the name of the file the
  descriptor refers to, \<open>None\<close> when it is reset.
\<close>

record disk =
  active :: bool
  handle :: "cstring option"
  host :: host

primrec make_disk_loop :: "nat \<Rightarrow> nat \<Rightarrow> cstring \<Rightarrow> host \<Rightarrow> host" where
  "make_disk_loop 0 pos n h = h"
| "make_disk_loop (Suc cnt) pos n h =
     (case host_write h n pos (replicate BLOCK_SIZE 0) of
        None \<Rightarrow> make_disk_loop cnt pos n h
      | Some h' \<Rightarrow> make_disk_loop cnt (pos + min BLOCK_SIZE (moves h Write pos)) n h')"

definition make_disk :: "cstring option \<Rightarrow> disk \<Rightarrow> int \<times> disk" where
  "make_disk name d =
     (case name of None \<Rightarrow> (-1, d)
      | Some n \<Rightarrow>
          if \<not> may_create (host d) n then (-1, d)
          else
            let h = (host d)\<lparr>files := (files (host d))(n \<mapsto> \<lparr>vsize = 0, vdata = (\<lambda>_. 0)\<rparr>)\<rparr>
            in (0, d\<lparr>host := make_disk_loop DISK_BLOCKS 0 n h\<rparr>))"

definition open_disk :: "cstring option \<Rightarrow> disk \<Rightarrow> int \<times> disk" where
  "open_disk name d =
     (case name of None \<Rightarrow> (-1, d)
      | Some n \<Rightarrow>
          if active d then (-1, d)
          else if files (host d) n = None \<or> \<not> may_open (host d) n then (-1, d)
          else (0, d\<lparr>handle := Some n, active := True\<rparr>))"

definition close_disk :: "disk \<Rightarrow> int \<times> disk" where
  "close_disk d =
     (if \<not> active d then (-1, d) else (0, d\<lparr>active := False, handle := None\<rparr>))"

definition block_write :: "int \<Rightarrow> byte list \<Rightarrow> disk \<Rightarrow> int \<times> disk" where
  "block_write block buf d =
     (if \<not> active d then (-1, d)
      else if block < 0 \<or> int DISK_BLOCKS \<le> block then (-1, d)
      else
        let off = nat block * BLOCK_SIZE in
        if io_fails (host d) Seek off then (-1, d)
        else case handle d of None \<Rightarrow> (-1, d)
          | Some n \<Rightarrow>
              (case host_write (host d) n off (take BLOCK_SIZE buf) of
                 None \<Rightarrow> (-1, d)
               | Some h \<Rightarrow> (0, d\<lparr>host := h\<rparr>)))"

definition block_read :: "int \<Rightarrow> byte list \<Rightarrow> disk \<Rightarrow> int \<times> byte list" where
  "block_read block buf d =
     (if \<not> active d then (-1, buf)
      else if block < 0 \<or> int DISK_BLOCKS \<le> block then (-1, buf)
      else
        let off = nat block * BLOCK_SIZE in
        if io_fails (host d) Seek off then (-1, buf)
        else case handle d of None \<Rightarrow> (-1, buf)
          | Some n \<Rightarrow>
              (case host_read (host d) n off BLOCK_SIZE of
                 None \<Rightarrow> (-1, buf)
               | Some bs \<Rightarrow> (0, patch buf 0 bs)))"

section \<open>The block array\<close>

definition file_blk :: "vfile \<Rightarrow> nat \<Rightarrow> byte list" where
  "file_blk f b = map (vdata f) [b * BLOCK_SIZE ..< b * BLOCK_SIZE + BLOCK_SIZE]"

definition blk :: "disk \<Rightarrow> nat \<Rightarrow> byte list" where
  "blk d b =
     (case Option.bind (handle d) (files (host d)) of
        None \<Rightarrow> replicate BLOCK_SIZE 0 | Some f \<Rightarrow> file_blk f b)"

text \<open>A file that is a whole disk image, and a host on which no call on it fails or stops early.\<close>

definition whole_image :: "vfile \<Rightarrow> bool" where
  "whole_image f \<longleftrightarrow> DISK_BLOCKS * BLOCK_SIZE \<le> vsize f"

definition healthy :: "host \<Rightarrow> bool" where
  "healthy h \<longleftrightarrow> (\<forall>c b. b < DISK_BLOCKS \<longrightarrow>
     \<not> io_fails h c (b * BLOCK_SIZE) \<and> BLOCK_SIZE \<le> moves h c (b * BLOCK_SIZE))"

definition disk_ready :: "disk \<Rightarrow> bool" where
  "disk_ready d \<longleftrightarrow> active d \<and> healthy (host d) \<and>
     (case Option.bind (handle d) (files (host d)) of None \<Rightarrow> False | Some f \<Rightarrow> whole_image f)"

lemma length_file_blk [simp]: "length (file_blk f b) = BLOCK_SIZE"
  by (simp add: file_blk_def)

lemma length_blk [simp]: "length (blk d b) = BLOCK_SIZE"
  by (simp add: blk_def split: option.splits)

lemma block_end: "b < DISK_BLOCKS \<Longrightarrow> b * BLOCK_SIZE + BLOCK_SIZE \<le> DISK_BLOCKS * BLOCK_SIZE"
proof -
  assume "b < DISK_BLOCKS"
  then have "Suc b * BLOCK_SIZE \<le> DISK_BLOCKS * BLOCK_SIZE" by (intro mult_le_mono1) simp
  then show ?thesis by simp
qed

lemma disk_readyE:
  assumes "disk_ready d"
  obtains n f where "active d" "healthy (host d)" "handle d = Some n" "files (host d) n = Some f"
    "whole_image f"
  using assms by (cases "handle d") (auto simp: disk_ready_def split: option.splits)

lemma block_read_ready:
  assumes "disk_ready d" "b < DISK_BLOCKS" "length buf = BLOCK_SIZE"
  shows "block_read (int b) buf d = (0, blk d b)"
proof -
  from assms(1) obtain n f where d: "active d" "healthy (host d)" "handle d = Some n"
    "files (host d) n = Some f" "whole_image f" by (rule disk_readyE)
  have "host_read (host d) n (b * BLOCK_SIZE) BLOCK_SIZE = Some (file_blk f b)"
    using d assms(2) block_end[OF assms(2)]
    by (auto simp: host_read_def healthy_def whole_image_def file_blk_def min_def)
  then show ?thesis
    using d assms by (simp add: block_read_def healthy_def blk_def patch_def)
qed

lemma block_write_ready:
  assumes "disk_ready d" "b < DISK_BLOCKS" "length buf = BLOCK_SIZE"
  shows "fst (block_write (int b) buf d) = 0"
    and "disk_ready (snd (block_write (int b) buf d))"
    and "c < DISK_BLOCKS \<Longrightarrow>
      blk (snd (block_write (int b) buf d)) c = (if c = b then buf else blk d c)"
proof -
  from assms(1) obtain n f where d: "active d" "healthy (host d)" "handle d = Some n"
    "files (host d) n = Some f" "whole_image f" by (rule disk_readyE)
  define f' where "f' = \<lparr>vsize = max (vsize f) (b * BLOCK_SIZE + BLOCK_SIZE),
     vdata = (\<lambda>i. if b * BLOCK_SIZE \<le> i \<and> i < b * BLOCK_SIZE + BLOCK_SIZE
                  then buf ! (i - b * BLOCK_SIZE) else if i < vsize f then vdata f i else 0)\<rparr>"
  have bn: "buf \<noteq> []" using assms(3) by auto
  have w: "block_write (int b) buf d = (0, d\<lparr>host := (host d)\<lparr>files := (files (host d))(n \<mapsto> f')\<rparr>\<rparr>)"
    using d assms(2,3) bn by (simp add: block_write_def healthy_def host_write_def f'_def Let_def)
  then show "fst (block_write (int b) buf d) = 0" by simp
  show "disk_ready (snd (block_write (int b) buf d))"
    using d w by (auto simp: disk_ready_def healthy_def whole_image_def f'_def)
  assume c: "c < DISK_BLOCKS"
  have "file_blk f' c = (if c = b then buf else file_blk f c)"
  proof (cases "c = b")
    case True
    then show ?thesis using assms(3) by (auto simp: file_blk_def f'_def intro!: nth_equalityI)
  next
    case False
    have "\<not> (b * BLOCK_SIZE \<le> x \<and> x < b * BLOCK_SIZE + BLOCK_SIZE)"
      if "c * BLOCK_SIZE \<le> x" "x < c * BLOCK_SIZE + BLOCK_SIZE" for x
    proof
      assume *: "b * BLOCK_SIZE \<le> x \<and> x < b * BLOCK_SIZE + BLOCK_SIZE"
      have "x div BLOCK_SIZE = c" using that by (intro div_nat_eqI) (auto simp: mult.commute)
      moreover have "x div BLOCK_SIZE = b" using * by (intro div_nat_eqI) (auto simp: mult.commute)
      ultimately show False using False by simp
    qed
    moreover have "x < vsize f" if "x < c * BLOCK_SIZE + BLOCK_SIZE" for x
      using that d(5) block_end[OF c] by (simp add: whole_image_def)
    ultimately show ?thesis using False by (auto simp: file_blk_def f'_def intro!: nth_equalityI)
  qed
  then show "blk (snd (block_write (int b) buf d)) c = (if c = b then buf else blk d c)"
    using d w by (simp add: blk_def)
qed

lemma block_read_range:
  "b < 0 \<or> int DISK_BLOCKS \<le> b \<Longrightarrow> block_read b buf d = (-1, buf)"
  by (auto simp: block_read_def)

lemma block_write_range:
  "b < 0 \<or> int DISK_BLOCKS \<le> b \<Longrightarrow> block_write b buf d = (-1, d)"
  by (auto simp: block_write_def)

section \<open>The interface of a block device\<close>

text \<open>
  What a client may rely on while the device is ready: a read returns the block, a write
  replaces one block and nothing else, and a block number outside the device is refused.
\<close>

locale block_device =
  fixes ready :: "'d \<Rightarrow> bool"
    and content :: "'d \<Rightarrow> nat \<Rightarrow> byte list"
    and bread :: "int \<Rightarrow> byte list \<Rightarrow> 'd \<Rightarrow> int \<times> byte list"
    and bwrite :: "int \<Rightarrow> byte list \<Rightarrow> 'd \<Rightarrow> int \<times> 'd"
    and nblocks :: nat
    and bsize :: nat
  assumes content_length: "length (content d b) = bsize"
    and read_law: "ready d \<Longrightarrow> b < nblocks \<Longrightarrow> length buf = bsize \<Longrightarrow>
      bread (int b) buf d = (0, content d b)"
    and write_ret: "ready d \<Longrightarrow> b < nblocks \<Longrightarrow> length buf = bsize \<Longrightarrow>
      fst (bwrite (int b) buf d) = 0"
    and write_ready: "ready d \<Longrightarrow> b < nblocks \<Longrightarrow> length buf = bsize \<Longrightarrow>
      ready (snd (bwrite (int b) buf d))"
    and write_law: "ready d \<Longrightarrow> b < nblocks \<Longrightarrow> length buf = bsize \<Longrightarrow> c < nblocks \<Longrightarrow>
      content (snd (bwrite (int b) buf d)) c = (if c = b then buf else content d c)"
    and read_refused: "i < 0 \<or> int nblocks \<le> i \<Longrightarrow> bread i buf d = (-1, buf)"
    and write_refused: "i < 0 \<or> int nblocks \<le> i \<Longrightarrow> bwrite i buf d = (-1, d)"
begin

lemma read_after_write:
  assumes "ready d" "b < nblocks" "length buf = bsize" "length buf' = bsize" "c < nblocks"
  shows "bread (int c) buf' (snd (bwrite (int b) buf d)) = (0, if c = b then buf else content d c)"
  using assms by (simp add: read_law write_ready write_law)

text \<open>A sequence of writes: the last write to a block wins, the other blocks are kept.\<close>

lemma writes_law:
  assumes "ready d" "\<forall>(b, buf) \<in> set ws. b < nblocks \<and> length buf = bsize"
  shows "ready (fold (\<lambda>(b, buf) d. snd (bwrite (int b) buf d)) ws d) \<and>
    (\<forall>c < nblocks. content (fold (\<lambda>(b, buf) d. snd (bwrite (int b) buf d)) ws d) c =
       (case map_of (rev ws) c of None \<Rightarrow> content d c | Some buf \<Rightarrow> buf))"
  using assms
proof (induction ws arbitrary: d)
  case Nil
  then show ?case by simp
next
  case (Cons w ws)
  obtain b buf where w: "w = (b, buf)" by fastforce
  let ?d = "snd (bwrite (int b) buf d)"
  from Cons.prems w have b: "b < nblocks" "length buf = bsize" by auto
  with Cons.prems(1) have "ready ?d" by (simp add: write_ready)
  with Cons.IH[of ?d] Cons.prems(2) b Cons.prems(1) w show ?case
    by (auto simp: write_law map_add_def split: option.splits)
qed

end

interpretation vdisk: block_device disk_ready blk block_read block_write DISK_BLOCKS BLOCK_SIZE
  by unfold_locales
    (simp_all add: block_read_ready block_write_ready block_read_range block_write_range)

section \<open>Making, opening and closing a disk\<close>

lemma make_disk_loop_healthy:
  assumes "files h n = Some f" "vsize f = pos" "\<And>i. i < pos \<Longrightarrow> vdata f i = 0"
    and "\<And>k. k < cnt \<Longrightarrow> \<not> io_fails h Write (pos + k * BLOCK_SIZE) \<and> BLOCK_SIZE \<le> moves h Write (pos + k * BLOCK_SIZE)"
  shows "\<exists>f'. make_disk_loop cnt pos n h = h\<lparr>files := (files h)(n \<mapsto> f')\<rparr> \<and>
    vsize f' = pos + cnt * BLOCK_SIZE \<and> (\<forall>i < vsize f'. vdata f' i = 0)"
  using assms
proof (induction cnt arbitrary: pos h f)
  case 0
  then show ?case by (intro exI[of _ f]) (simp add: fun_upd_idem)
next
  case (Suc cnt)
  define g where "g = \<lparr>vsize = pos + BLOCK_SIZE, vdata = (\<lambda>i. if pos \<le> i \<and> i < pos + BLOCK_SIZE
      then (0::byte) else if i < pos then vdata f i else 0)\<rparr>"
  have mv: "\<not> io_fails h Write pos" "BLOCK_SIZE \<le> moves h Write pos" using Suc.prems(4)[of 0] by simp_all
  then have w: "host_write h n pos (replicate BLOCK_SIZE 0) = Some (h\<lparr>files := (files h)(n \<mapsto> g)\<rparr>)"
    using Suc.prems(1,2) by (auto simp: host_write_def g_def fun_eq_iff Let_def)
  have "\<not> io_fails h Write (pos + BLOCK_SIZE + k * BLOCK_SIZE) \<and> BLOCK_SIZE \<le> moves h Write (pos + BLOCK_SIZE + k * BLOCK_SIZE)"
    if "k < cnt" for k
    using Suc.prems(4)[of "Suc k"] that by (simp add: add.assoc)
  moreover have "vdata g i = 0" if "i < pos + BLOCK_SIZE" for i
    using that Suc.prems(3) by (simp add: g_def)
  moreover have "vsize g = pos + BLOCK_SIZE" by (simp add: g_def)
  ultimately obtain f' where "make_disk_loop cnt (pos + BLOCK_SIZE) n (h\<lparr>files := (files h)(n \<mapsto> g)\<rparr>)
      = h\<lparr>files := (files h)(n \<mapsto> f')\<rparr>" "vsize f' = pos + BLOCK_SIZE + cnt * BLOCK_SIZE"
      "\<forall>i < vsize f'. vdata f' i = 0"
    using Suc.IH[of "h\<lparr>files := (files h)(n \<mapsto> g)\<rparr>" g "pos + BLOCK_SIZE"] by fastforce
  moreover have "make_disk_loop (Suc cnt) pos n h
      = make_disk_loop cnt (pos + BLOCK_SIZE) n (h\<lparr>files := (files h)(n \<mapsto> g)\<rparr>)"
    using mv(2) by (simp add: w)
  ultimately show ?case by (metis add.assoc mult_Suc)
qed

lemma healthy_files [simp]: "healthy (h\<lparr>files := F\<rparr>) = healthy h"
  by (simp add: healthy_def)

lemma make_disk_ok:
  assumes "may_create (host d) n" "healthy (host d)"
  shows "\<exists>f. make_disk (Some n) d = (0, d\<lparr>host := (host d)\<lparr>files := (files (host d))(n \<mapsto> f)\<rparr>\<rparr>) \<and>
    whole_image f \<and> (\<forall>b < DISK_BLOCKS. file_blk f b = replicate BLOCK_SIZE 0)"
proof -
  let ?h = "(host d)\<lparr>files := (files (host d))(n \<mapsto> \<lparr>vsize = 0, vdata = (\<lambda>_. 0)\<rparr>)\<rparr>"
  have "\<not> io_fails ?h Write (0 + k * BLOCK_SIZE) \<and> BLOCK_SIZE \<le> moves ?h Write (0 + k * BLOCK_SIZE)"
    if "k < DISK_BLOCKS" for k
    using assms(2) that by (simp add: healthy_def)
  with make_disk_loop_healthy[of ?h n "\<lparr>vsize = 0, vdata = (\<lambda>_. 0)\<rparr>" 0 DISK_BLOCKS]
  obtain f where f: "make_disk_loop DISK_BLOCKS 0 n ?h = ?h\<lparr>files := (files ?h)(n \<mapsto> f)\<rparr>"
    "vsize f = DISK_BLOCKS * BLOCK_SIZE" "\<forall>i < vsize f. vdata f i = 0"
    by auto
  have "file_blk f b = replicate BLOCK_SIZE 0" if "b < DISK_BLOCKS" for b
    using f(2,3) block_end[OF that] by (auto simp: file_blk_def intro!: nth_equalityI)
  with f assms(1) show ?thesis by (auto simp: make_disk_def whole_image_def)
qed

section \<open>Properties\<close>

text \<open>C11: on a ready disk a block read back is the block last written there, every other block is
  as it was, and both calls return 0.\<close>

theorem disk_read_after_write:
  assumes "disk_ready d" "b < DISK_BLOCKS" "length buf = BLOCK_SIZE" "length buf' = BLOCK_SIZE" "c < DISK_BLOCKS"
  shows "fst (block_write (int b) buf d) = 0 \<and>
    block_read (int c) buf' (snd (block_write (int b) buf d)) = (0, if c = b then buf else blk d c)"
  using vdisk.read_after_write[OF assms] vdisk.write_ret[OF assms(1-3)] by simp

text \<open>C12: a disk made on a host that refuses nothing opens, is ready, and reads as zeros in all of
  its blocks; opening it a second time is refused.\<close>

theorem made_disk_is_blank:
  assumes "may_create (host d) n" "may_open (host d) n" "healthy (host d)" "\<not> active d"
  shows "\<exists>d1 d2. make_disk (Some n) d = (0, d1) \<and> open_disk (Some n) d1 = (0, d2) \<and> disk_ready d2 \<and>
    (\<forall>b buf. b < DISK_BLOCKS \<and> length buf = BLOCK_SIZE \<longrightarrow>
      block_read (int b) buf d2 = (0, replicate BLOCK_SIZE 0)) \<and>
    open_disk (Some n) d2 = (-1, d2)"
proof -
  obtain f where f: "make_disk (Some n) d = (0, d\<lparr>host := (host d)\<lparr>files := (files (host d))(n \<mapsto> f)\<rparr>\<rparr>)"
    "whole_image f" "\<forall>b < DISK_BLOCKS. file_blk f b = replicate BLOCK_SIZE 0"
    using make_disk_ok[OF assms(1,3)] by blast
  let ?d1 = "d\<lparr>host := (host d)\<lparr>files := (files (host d))(n \<mapsto> f)\<rparr>\<rparr>"
  let ?d2 = "?d1\<lparr>handle := Some n, active := True\<rparr>"
  have o: "open_disk (Some n) ?d1 = (0, ?d2)" using assms by (simp add: open_disk_def)
  have r: "disk_ready ?d2" using assms f(2) by (simp add: disk_ready_def)
  have "block_read (int b) buf ?d2 = (0, replicate BLOCK_SIZE 0)"
    if "b < DISK_BLOCKS" "length buf = BLOCK_SIZE" for b buf
    using vdisk.read_law[OF r that] f(3) that(1) by (simp add: blk_def)
  moreover have "open_disk (Some n) ?d2 = (-1, ?d2)" by (simp add: open_disk_def)
  ultimately show ?thesis using f(1) o r by blast
qed

definition blank_host :: host where
  "blank_host = \<lparr>files = Map.empty, may_open = (\<lambda>_. True), may_create = (\<lambda>_. True), io_fails = (\<lambda>_ _. False),
     moves = (\<lambda>_ _. BLOCK_SIZE)\<rparr>"

lemma made_disk_is_blank_witness:
  "\<exists>d1 d2. make_disk (Some [100]) \<lparr>active = False, handle = None, host = blank_host\<rparr> = (0, d1) \<and>
    open_disk (Some [100]) d1 = (0, d2) \<and> disk_ready d2 \<and>
    (\<forall>b buf. b < DISK_BLOCKS \<and> length buf = BLOCK_SIZE \<longrightarrow>
      block_read (int b) buf d2 = (0, replicate BLOCK_SIZE 0)) \<and>
    open_disk (Some [100]) d2 = (-1, d2)"
  by (rule made_disk_is_blank) (simp_all add: blank_host_def healthy_def)

definition small_disk :: disk where
  "small_disk = \<lparr>active = True, handle = Some [100], host = blank_host\<lparr>files :=
     [[100] \<mapsto> \<lparr>vsize = DISK_BLOCKS * BLOCK_SIZE, vdata = (\<lambda>_. 0)\<rparr>]\<rparr>\<rparr>"

lemma disk_read_after_write_witness:
  "fst (block_write (int 7) (replicate BLOCK_SIZE 1) small_disk) = 0 \<and>
    block_read (int 7) (replicate BLOCK_SIZE 0) (snd (block_write (int 7) (replicate BLOCK_SIZE 1) small_disk)) =
      (0, if (7::nat) = 7 then replicate BLOCK_SIZE 1 else blk small_disk 7)"
  by (rule disk_read_after_write)
    (simp_all add: small_disk_def disk_ready_def blank_host_def healthy_def whole_image_def DISK_BLOCKS_def)

end
