(* ===== verification/FsLayout.thy ===== *)
theory FsLayout
  imports Disk
begin

text \<open>
  The data of \<^verbatim>\<open>EC440_HW5/fs.c\<close> and its layout on the disk: the superblock, a directory entry,
  a file descriptor, and the bytes \<^verbatim>\<open>memcpy\<close> moves between these objects and a block.  The
  byte order is little-endian and a directory entry has 44 bytes (41 of fields, 3 of padding
  that no code reads; it is written here as zeros).
\<close>

section \<open>Constants and structures\<close>

definition FS_MAX_FILENAME_LENGTH :: nat where "FS_MAX_FILENAME_LENGTH = 32"
definition FS_MAX_FILES :: nat where "FS_MAX_FILES = 64"
definition FS_MAX_FILE_DESCRIPTORS :: nat where "FS_MAX_FILE_DESCRIPTORS = 32"
definition FS_MAGIC_NUMBER :: u32 where "FS_MAGIC_NUMBER = 0x12345678"
definition FAT_FREE :: u32 where "FAT_FREE = 0"
definition FAT_EOF :: u32 where "FAT_EOF = 0xFFFFFFFF"

record superblock =
  magic_number :: u32
  block_size :: u32
  total_blocks :: u32
  fat_start_block :: u32
  fat_block_count :: u32
  dir_start_block :: u32
  dir_block_count :: u32
  data_start_block :: u32

record dirent =
  filename :: "byte list"
  filesize :: u32
  first_block_index :: u32
  in_use :: byte

record fdesc =
  fd_in_use :: byte
  dir_entry_index :: u32
  fd_offset :: u32

text \<open>The entries after \<^verbatim>\<open>memset(.., 0, ..)\<close>.\<close>

definition zero_dirent :: dirent where
  "zero_dirent = \<lparr>filename = replicate FS_MAX_FILENAME_LENGTH 0, filesize = 0,
     first_block_index = 0, in_use = 0\<rparr>"

definition zero_fdesc :: fdesc where
  "zero_fdesc = \<lparr>fd_in_use = 0, dir_entry_index = 0, fd_offset = 0\<rparr>"

section \<open>Superblock\<close>

definition enc_superblock :: "superblock \<Rightarrow> byte list" where
  "enc_superblock sb = enc_words [magic_number sb, block_size sb, total_blocks sb,
     fat_start_block sb, fat_block_count sb, dir_start_block sb, dir_block_count sb,
     data_start_block sb]"

definition dec_superblock :: "byte list \<Rightarrow> superblock" where
  "dec_superblock bs = (let w = dec_words 8 bs in
     \<lparr>magic_number = w ! 0, block_size = w ! 1, total_blocks = w ! 2, fat_start_block = w ! 3,
      fat_block_count = w ! 4, dir_start_block = w ! 5, dir_block_count = w ! 6,
      data_start_block = w ! 7\<rparr>)"

lemma length_enc_superblock [simp]: "length (enc_superblock sb) = 32"
  by (simp add: enc_superblock_def)

lemma superblock_roundtrip: "dec_superblock (enc_superblock sb @ bs) = sb"
proof -
  have "dec_words 8 (enc_superblock sb @ bs) = [magic_number sb, block_size sb, total_blocks sb,
     fat_start_block sb, fat_block_count sb, dir_start_block sb, dir_block_count sb,
     data_start_block sb]"
    using dec_words_enc_words[of "[magic_number sb, block_size sb, total_blocks sb,
     fat_start_block sb, fat_block_count sb, dir_start_block sb, dir_block_count sb,
     data_start_block sb]" bs]
    by (simp add: enc_superblock_def eval_nat_numeral)
  then show ?thesis by (simp add: dec_superblock_def)
qed

section \<open>Directory\<close>

definition DIRENT_SIZE :: nat where "DIRENT_SIZE = 44"

definition enc_dirent :: "dirent \<Rightarrow> byte list" where
  "enc_dirent e = filename e @ enc32 (filesize e) @ enc32 (first_block_index e)
     @ [in_use e] @ replicate 3 0"

definition dec_dirent :: "byte list \<Rightarrow> dirent" where
  "dec_dirent bs = \<lparr>filename = take 32 bs, filesize = dec32 (drop 32 bs),
     first_block_index = dec32 (drop 36 bs), in_use = bs ! 40\<rparr>"

definition enc_dir :: "dirent list \<Rightarrow> byte list" where
  "enc_dir es = concat (map enc_dirent es)"

definition dec_dir :: "byte list \<Rightarrow> dirent list" where
  "dec_dir bs = map (\<lambda>i. dec_dirent (drop (DIRENT_SIZE * i) bs)) [0..<FS_MAX_FILES]"

definition dir_shape :: "dirent list \<Rightarrow> bool" where
  "dir_shape es \<longleftrightarrow> length es = FS_MAX_FILES \<and>
     (\<forall>e \<in> set es. length (filename e) = FS_MAX_FILENAME_LENGTH)"

lemma length_enc_dirent:
  "length (filename e) = FS_MAX_FILENAME_LENGTH \<Longrightarrow> length (enc_dirent e) = DIRENT_SIZE"
  by (simp add: enc_dirent_def FS_MAX_FILENAME_LENGTH_def DIRENT_SIZE_def)

lemma dirent_roundtrip:
  assumes "length (filename e) = FS_MAX_FILENAME_LENGTH"
  shows "dec_dirent (enc_dirent e @ bs) = e"
proof -
  have l: "length (filename e) = 32" using assms by (simp add: FS_MAX_FILENAME_LENGTH_def)
  have "drop 36 (enc_dirent e @ bs) = enc32 (first_block_index e) @ [in_use e] @ replicate 3 0 @ bs"
    using l by (simp add: enc_dirent_def)
  moreover have "drop 32 (enc_dirent e @ bs)
      = enc32 (filesize e) @ enc32 (first_block_index e) @ [in_use e] @ replicate 3 0 @ bs"
    using l by (simp add: enc_dirent_def)
  moreover have "take 32 (enc_dirent e @ bs) = filename e" using l by (simp add: enc_dirent_def)
  moreover have "(enc_dirent e @ bs) ! 40 = in_use e"
    using l by (simp add: enc_dirent_def nth_append)
  ultimately show ?thesis by (simp add: dec_dirent_def)
qed

lemma enc_dirent_pieces:
  "dir_shape es \<Longrightarrow> x \<in> set (map enc_dirent es) \<Longrightarrow> length x = DIRENT_SIZE"
  by (auto simp: dir_shape_def length_enc_dirent)

lemma length_enc_dir:
  assumes "dir_shape es" shows "length (enc_dir es) = DIRENT_SIZE * FS_MAX_FILES"
  unfolding enc_dir_def
  using assms length_concat_const[of "map enc_dirent es" DIRENT_SIZE] enc_dirent_pieces[OF assms]
  by (auto simp: dir_shape_def)

lemma enc_dir_fits: "dir_shape es \<Longrightarrow> length (enc_dir es) \<le> BLOCK_SIZE"
  by (simp add: length_enc_dir DIRENT_SIZE_def FS_MAX_FILES_def BLOCK_SIZE_def)

lemma dir_roundtrip:
  assumes "dir_shape es"
  shows "dec_dir (enc_dir es @ bs) = es"
proof (rule nth_equalityI)
  show "length (dec_dir (enc_dir es @ bs)) = length es"
    using assms by (simp add: dec_dir_def dir_shape_def)
next
  fix i assume "i < length (dec_dir (enc_dir es @ bs))"
  then have i: "i < length es" "i < FS_MAX_FILES"
    using assms by (auto simp: dec_dir_def dir_shape_def)
  have "drop (DIRENT_SIZE * i) (enc_dir es)
      = enc_dirent (es ! i) @ concat (drop (Suc i) (map enc_dirent es))"
    using concat_piece[of "map enc_dirent es" DIRENT_SIZE i] enc_dirent_pieces[OF assms] i
    by (simp add: enc_dir_def)
  moreover have "DIRENT_SIZE * i \<le> length (enc_dir es)"
    using i by (simp add: length_enc_dir[OF assms])
  ultimately have "dec_dir (enc_dir es @ bs) ! i
      = dec_dirent (enc_dirent (es ! i) @ concat (drop (Suc i) (map enc_dirent es)) @ bs)"
    using i by (simp add: dec_dir_def)
  then show "dec_dir (enc_dir es @ bs) ! i = es ! i"
    using assms i by (simp add: dir_shape_def dirent_roundtrip)
qed

section \<open>C strings in a name field\<close>

text \<open>\<^verbatim>\<open>strncpy(dst, s, n)\<close>: at most \<open>n\<close> characters, the rest filled with NUL.\<close>

definition strncpy :: "byte list \<Rightarrow> cstring \<Rightarrow> nat \<Rightarrow> byte list" where
  "strncpy dst s n = take n (s @ replicate n 0) @ drop n dst"

text \<open>
  \<^verbatim>\<open>strncmp(a, b, n) == 0\<close> for an array \<open>a\<close> and a string \<open>b\<close>: the two agree on the first
  \<open>n\<close> characters or up to a NUL in both.
\<close>

fun strncmp_eq :: "byte list \<Rightarrow> byte list \<Rightarrow> nat \<Rightarrow> bool" where
  "strncmp_eq a b 0 = True"
| "strncmp_eq [] b (Suc n) = (case b of [] \<Rightarrow> True | y # _ \<Rightarrow> y = 0)"
| "strncmp_eq (x # a) b (Suc n) =
     (case b of [] \<Rightarrow> x = 0
      | y # b' \<Rightarrow> x = y \<and> (x = 0 \<or> strncmp_eq a b' n))"

text \<open>The string an array holds: everything before its first NUL.\<close>

definition cstr :: "byte list \<Rightarrow> cstring" where
  "cstr bs = takeWhile (\<lambda>c. c \<noteq> 0) bs"

definition is_cstr :: "cstring \<Rightarrow> bool" where
  "is_cstr s \<longleftrightarrow> 0 \<notin> set s"

lemma is_cstr_cstr [simp]: "is_cstr (cstr bs)"
  by (auto simp: is_cstr_def cstr_def dest: set_takeWhileD)

text \<open>On a terminated name field, \<^verbatim>\<open>strncmp\<close> decides equality with the stored string.\<close>

lemma strncmp_eq_cstr:
  "length a = n \<Longrightarrow> 0 \<in> set a \<Longrightarrow> is_cstr b \<Longrightarrow> strncmp_eq a b n \<longleftrightarrow> cstr a = b"
proof (induction a b n rule: strncmp_eq.induct)
  case (3 x a b n)
  then show ?case by (cases b) (auto simp: cstr_def is_cstr_def)
qed (auto simp: cstr_def)

definition name_field :: "byte list \<Rightarrow> cstring \<Rightarrow> byte list" where
  "name_field old s =
     (strncpy old s (FS_MAX_FILENAME_LENGTH - 1))[FS_MAX_FILENAME_LENGTH - 1 := 0]"

lemma name_field_shape:
  assumes "length old = FS_MAX_FILENAME_LENGTH"
  shows "length (name_field old s) = FS_MAX_FILENAME_LENGTH" "0 \<in> set (name_field old s)"
proof -
  have l: "length (strncpy old s (FS_MAX_FILENAME_LENGTH - 1)) = FS_MAX_FILENAME_LENGTH"
    using assms by (simp add: strncpy_def FS_MAX_FILENAME_LENGTH_def)
  then show "length (name_field old s) = FS_MAX_FILENAME_LENGTH" by (simp add: name_field_def)
  show "0 \<in> set (name_field old s)"
    unfolding name_field_def
    by (rule set_update_memI) (use l in \<open>simp add: FS_MAX_FILENAME_LENGTH_def\<close>)
qed

lemma takeWhile_append_zero:
  "is_cstr s \<Longrightarrow> takeWhile (\<lambda>c. c \<noteq> 0) (s @ 0 # xs) = s"
  by (induction s) (auto simp: is_cstr_def)

lemma cstr_name_field:
  assumes "length old = FS_MAX_FILENAME_LENGTH" "is_cstr s" "length s < FS_MAX_FILENAME_LENGTH"
  shows "cstr (name_field old s) = s"
proof -
  let ?k = "31 - length s"
  have s: "length s \<le> 31" and o: "length old = 32"
    using assms by (simp_all add: FS_MAX_FILENAME_LENGTH_def)
  have "strncpy old s 31 = s @ replicate ?k 0 @ drop 31 old"
    using s by (simp add: strncpy_def)
  moreover have "drop 31 old = [old ! 31]"
    using o Cons_nth_drop_Suc[of 31 old] by simp
  ultimately have "name_field old s = s @ replicate ?k 0 @ [0]"
    using s by (simp add: name_field_def FS_MAX_FILENAME_LENGTH_def list_update_append)
  then have "name_field old s = s @ 0 # replicate ?k 0"
    by (simp add: replicate_append_same)
  then show ?thesis by (simp add: cstr_def takeWhile_append_zero[OF assms(2)])
qed

end
