(* ===== verification/Fat.thy ===== *)
theory Fat
  imports FsLayout
begin

text \<open>
  The file allocation table of \<^verbatim>\<open>EC440_HW5/fs.c\<close>: the free-block search, the release of a
  chain, and the three loops that walk along a chain.  The table is a list; a null
  \<^verbatim>\<open>fat_table\<close> is the empty list, so every access through it is undefined (\<open>None\<close>).

  \<open>chain fat b bs\<close> says that the blocks \<open>bs\<close>, in this order, are linked from \<open>b\<close> and end in
  \<open>FAT_EOF\<close>.
\<close>

section \<open>The loops over the table\<close>

definition BLOCK32 :: u32 where "BLOCK32 = 4096"

lemma unat_BLOCK32 [simp]: "unat BLOCK32 = BLOCK_SIZE"
  by (simp add: BLOCK32_def BLOCK_SIZE_def)

lemma BLOCK32_pos [simp]: "0 < BLOCK32"
  by (simp add: BLOCK32_def)

function alloc_scan :: "u32 \<Rightarrow> u32 \<Rightarrow> u32 list \<Rightarrow> (u32 \<times> u32 list) option" where
  "alloc_scan i tot fat =
     (if i < tot then
        (case arr_get fat (unat i) of None \<Rightarrow> None
         | Some v \<Rightarrow>
             if v = FAT_FREE then Some (i, fat[unat i := FAT_EOF])
             else alloc_scan (i + 1) tot fat)
      else Some (FAT_FREE, fat))"
  by pat_completeness auto
termination
  by (relation "measure (\<lambda>(i, tot, fat). unat tot - unat i)")
    (auto simp: unat_Suc_u32 word_less_nat_alt)

declare alloc_scan.simps [simp del]

definition allocate_free_block :: "superblock \<Rightarrow> u32 list \<Rightarrow> (u32 \<times> u32 list) option" where
  "allocate_free_block sb fat = alloc_scan (data_start_block sb) (total_blocks sb) fat"

definition used_entries :: "u32 list \<Rightarrow> nat" where
  "used_entries fat = length (filter (\<lambda>v. v \<noteq> FAT_FREE) fat)"

lemma used_entries_free:
  assumes "i < length fat" "fat ! i \<noteq> FAT_FREE"
  shows "used_entries fat = Suc (used_entries (fat[i := FAT_FREE]))"
proof -
  have "used_entries fat = used_entries (take i fat @ fat ! i # drop (Suc i) fat)"
    by (rule arg_cong[OF id_take_nth_drop[OF assms(1)]])
  then show ?thesis using assms by (simp add: used_entries_def upd_conv_take_nth_drop)
qed

text \<open>
  The loop stops on every table, also on a cyclic one: a block it visits becomes free, and a
  visit to a free entry is the last.
\<close>

function free_block_chain :: "u32 \<Rightarrow> u32 list \<Rightarrow> u32 list option" where
  "free_block_chain block fat =
     (if block \<noteq> FAT_EOF \<and> block \<noteq> FAT_FREE then
        (case arr_get fat (unat block) of None \<Rightarrow> None
         | Some next_block \<Rightarrow> free_block_chain next_block (fat[unat block := FAT_FREE]))
      else Some fat)"
  by pat_completeness auto
termination
proof (relation "measure (\<lambda>(b, fat). 2 * used_entries fat + (if b = FAT_FREE then 0 else 1))")
  fix block next_block :: u32 and fat
  assume "block \<noteq> FAT_EOF \<and> block \<noteq> FAT_FREE"
    and "arr_get fat (unat block) = Some next_block"
  then have n: "unat block < length fat" "next_block = fat ! unat block" "block \<noteq> FAT_FREE"
    by (auto simp: arr_get_Some_iff)
  show "((next_block, fat[unat block := FAT_FREE]), block, fat)
      \<in> measure (\<lambda>(b, fat). 2 * used_entries fat + (if b = FAT_FREE then 0 else 1))"
  proof (cases "next_block = FAT_FREE")
    case True
    with n have "fat[unat block := FAT_FREE] = fat" by (metis list_update_id)
    with True n show ?thesis by simp
  next
    case False
    with n show ?thesis using used_entries_free[of "unat block" fat] by simp
  qed
qed simp

declare free_block_chain.simps [simp del]

text \<open>\<^verbatim>\<open>while (off >= BLOCK_SIZE && cur != FAT_EOF)\<close> of \<^verbatim>\<open>fs_write\<close>.\<close>

function skip_blocks :: "u32 list \<Rightarrow> u32 \<Rightarrow> u32 \<Rightarrow> (u32 \<times> u32) option" where
  "skip_blocks fat cur off =
     (if BLOCK32 \<le> off \<and> cur \<noteq> FAT_EOF then
        (case arr_get fat (unat cur) of None \<Rightarrow> None
         | Some nxt \<Rightarrow> skip_blocks fat nxt (off - BLOCK32))
      else Some (cur, off))"
  by pat_completeness auto
termination
  by (relation "measure (\<lambda>(fat, cur, off). unat off)")
    (auto simp: unat_sub_u32 word_le_nat_alt BLOCK_SIZE_def)

declare skip_blocks.simps [simp del]

text \<open>\<^verbatim>\<open>while (fat_table[last_block] != FAT_EOF)\<close>: a cyclic table keeps it running.\<close>

partial_function (option) last_block :: "u32 list \<Rightarrow> u32 \<Rightarrow> u32 option" where
  "last_block fat b =
     Option.bind (arr_get fat (unat b))
       (\<lambda>nxt. if nxt = FAT_EOF then Some b else last_block fat nxt)"

section \<open>Chains\<close>

primrec chain :: "u32 list \<Rightarrow> u32 \<Rightarrow> u32 list \<Rightarrow> bool" where
  "chain fat b [] \<longleftrightarrow> b = FAT_EOF"
| "chain fat b (x # xs) \<longleftrightarrow> b = x \<and> x \<noteq> FAT_EOF \<and> unat x < length fat \<and> chain fat (fat ! unat x) xs"

text \<open>The chain computed from the table, at most \<open>n\<close> blocks long.\<close>

fun fat_walk :: "nat \<Rightarrow> u32 list \<Rightarrow> u32 \<Rightarrow> u32 list" where
  "fat_walk 0 fat b = []"
| "fat_walk (Suc n) fat b =
     (if b = FAT_EOF \<or> length fat \<le> unat b then [] else b # fat_walk n fat (fat ! unat b))"

lemma chain_EOF [simp]: "chain fat FAT_EOF bs \<longleftrightarrow> bs = []"
  by (cases bs) auto

lemma chain_unique: "chain fat b bs \<Longrightarrow> chain fat b cs \<Longrightarrow> bs = cs"
proof (induction bs arbitrary: b cs)
  case (Cons x xs)
  then show ?case by (cases cs) auto
qed auto

lemma chain_append:
  "chain fat b (xs @ y # ys) \<Longrightarrow> chain fat y (y # ys)"
  by (induction xs arbitrary: b) auto

lemma chain_bound: "chain fat b bs \<Longrightarrow> x \<in> set bs \<Longrightarrow> unat x < length fat \<and> x \<noteq> FAT_EOF"
  by (induction bs arbitrary: b) auto

lemma chain_distinct: "chain fat b bs \<Longrightarrow> distinct bs"
proof (induction bs arbitrary: b)
  case (Cons x xs)
  have "x \<notin> set xs"
  proof
    assume "x \<in> set xs"
    then obtain us vs where xs: "xs = us @ x # vs" by (meson split_list)
    with Cons.prems have "chain fat (fat ! unat x) (us @ x # vs)" by simp
    then have "chain fat x (x # vs)" by (rule chain_append)
    moreover have "chain fat x (x # xs)" using Cons.prems by simp
    ultimately have "vs = xs" by (metis chain_unique list.inject)
    with xs show False by simp
  qed
  with Cons show ?case by auto
qed simp

lemma chain_length:
  assumes "chain fat b bs" shows "length bs \<le> length fat"
proof -
  have "distinct (map unat bs)" using chain_distinct[OF assms] by simp
  then have "length bs = card (unat ` set bs)" by (metis distinct_card length_map set_map)
  also have "\<dots> \<le> card {..<length fat}"
    using chain_bound[OF assms] by (intro card_mono) auto
  finally show ?thesis by simp
qed

lemma chain_walk: "chain fat b bs \<Longrightarrow> length bs \<le> n \<Longrightarrow> fat_walk n fat b = bs"
proof (induction bs arbitrary: b n)
  case Nil
  then show ?case by (cases n) auto
next
  case (Cons x xs)
  then show ?case by (cases n) auto
qed

lemma chain_frame: "unat ` set bs \<inter> I = {} \<Longrightarrow> length fat' = length fat \<Longrightarrow>
  (\<And>i. i < length fat \<Longrightarrow> i \<notin> I \<Longrightarrow> fat' ! i = fat ! i) \<Longrightarrow> chain fat b bs \<Longrightarrow> chain fat' b bs"
  by (induction bs arbitrary: b) auto

lemma chain_update [simp]: "i \<notin> unat ` set bs \<Longrightarrow> chain (fat[i := v]) b bs = chain fat b bs"
  by (induction bs arbitrary: b) auto

lemma chain_hd: "chain fat b (x # xs) \<Longrightarrow> b = x"
  by simp

lemma chain_next:
  assumes "chain fat b bs" "k < length bs"
  shows "fat ! unat (bs ! k) = (if Suc k < length bs then bs ! Suc k else FAT_EOF)"
  using assms
proof (induction bs arbitrary: b k)
  case (Cons x xs)
  show ?case
  proof (cases k)
    case 0
    with Cons.prems show ?thesis by (cases xs) auto
  next
    case (Suc j)
    with Cons show ?thesis by auto
  qed
qed simp

lemma chain_extend:
  assumes "chain fat b bs" "bs \<noteq> []" "unat n < length fat" "n \<notin> set bs" "n \<noteq> FAT_EOF"
    "fat ! unat n = FAT_EOF"
  shows "chain (fat[unat (last bs) := n]) b (bs @ [n])"
  using assms
proof (induction bs arbitrary: b)
  case (Cons x xs)
  show ?case
  proof (cases "xs = []")
    case True
    with Cons.prems have "unat n \<noteq> unat x" "fat ! unat n = FAT_EOF" by auto
    then have "fat[unat x := n] ! unat n = FAT_EOF" by (metis nth_list_update_neq)
    with True Cons.prems show ?thesis by auto
  next
    case False
    have d: "x \<notin> set xs" using chain_distinct[OF Cons.prems(1)] by simp
    with False have "unat (last xs) \<noteq> unat x" by (metis last_in_set unat_inject)
    with Cons False show ?thesis by auto
  qed
qed simp

section \<open>What the loops compute\<close>

lemma alloc_scan_spec:
  assumes "unat tot \<le> length fat"
  shows "(\<exists>b. alloc_scan i tot fat = Some (b, fat[unat b := FAT_EOF]) \<and> i \<le> b \<and> b < tot \<and>
       fat ! unat b = FAT_FREE \<and> (\<forall>j. unat i \<le> j \<and> j < unat b \<longrightarrow> fat ! j \<noteq> FAT_FREE)) \<or>
    (alloc_scan i tot fat = Some (FAT_FREE, fat) \<and>
       (\<forall>j. unat i \<le> j \<and> j < unat tot \<longrightarrow> fat ! j \<noteq> FAT_FREE))"
  using assms
proof (induction i tot fat rule: alloc_scan.induct)
  case (1 i tot fat)
  show ?case
  proof (cases "i < tot")
    case False
    then show ?thesis
      by (intro disjI2) (auto simp: alloc_scan.simps[of i tot fat] word_less_nat_alt)
  next
    case True
    with "1.prems" have l: "unat i < length fat" by (simp add: word_less_nat_alt)
    show ?thesis
    proof (cases "fat ! unat i = FAT_FREE")
      case free: True
      then show ?thesis using True l
        by (intro disjI1 exI[of _ i]) (auto simp: alloc_scan.simps[of i tot fat])
    next
      case used: False
      with True l have eq: "alloc_scan i tot fat = alloc_scan (i + 1) tot fat"
        by (simp add: alloc_scan.simps[of i tot fat])
      have le: "(\<forall>j. unat (i + 1) \<le> j \<and> j < m \<longrightarrow> fat ! j \<noteq> FAT_FREE) \<Longrightarrow>
          (\<forall>j. unat i \<le> j \<and> j < m \<longrightarrow> fat ! j \<noteq> FAT_FREE)" for m
        using used True by (metis unat_Suc_u32 le_eq_less_or_eq Suc_leI)
      have "i + 1 \<le> b \<Longrightarrow> i \<le> b" for b
        using unat_Suc_u32[OF True] by (simp add: word_le_nat_alt)
      with "1.IH"[OF True _ used] l "1.prems" le show ?thesis unfolding eq by (metis arr_get_in)
    qed
  qed
qed

text \<open>The geometry \<^verbatim>\<open>make_fs\<close> writes, and a table that has an entry for every block.\<close>

definition std_superblock :: superblock where
  "std_superblock = \<lparr>magic_number = FS_MAGIC_NUMBER, block_size = BLOCK32,
     total_blocks = of_nat DISK_BLOCKS, fat_start_block = 1, fat_block_count = 2,
     dir_start_block = 3, dir_block_count = 1, data_start_block = 4\<rparr>"

definition data_block :: "u32 \<Rightarrow> bool" where
  "data_block b \<longleftrightarrow> 4 \<le> unat b \<and> unat b < DISK_BLOCKS"

definition disk_full :: "u32 list \<Rightarrow> bool" where
  "disk_full fat \<longleftrightarrow> (\<forall>j. 4 \<le> j \<and> j < DISK_BLOCKS \<longrightarrow> fat ! j \<noteq> FAT_FREE)"

lemma data_block_neq [simp]: "data_block b \<Longrightarrow> b \<noteq> FAT_FREE" "data_block b \<Longrightarrow> b \<noteq> FAT_EOF"
  by (auto simp: data_block_def FAT_FREE_def FAT_EOF_def DISK_BLOCKS_def)

lemma FAT_EOF_not_FREE [simp]: "FAT_EOF \<noteq> FAT_FREE" "FAT_FREE \<noteq> FAT_EOF"
  by (simp_all add: FAT_FREE_def FAT_EOF_def)

lemma allocate_free_block_cases:
  assumes "length fat = DISK_BLOCKS"
  obtains (full) "disk_full fat" "allocate_free_block std_superblock fat = Some (FAT_FREE, fat)"
  | (block) b where "data_block b" "fat ! unat b = FAT_FREE"
      "allocate_free_block std_superblock fat = Some (b, fat[unat b := FAT_EOF])"
proof -
  have t: "unat (of_nat DISK_BLOCKS :: u32) = DISK_BLOCKS" by (simp add: DISK_BLOCKS_def)
  then have "unat (of_nat DISK_BLOCKS :: u32) \<le> length fat" using assms by simp
  from alloc_scan_spec[OF this, of 4] show ?thesis
    using full block
    by (auto simp: allocate_free_block_def std_superblock_def disk_full_def data_block_def
        word_le_nat_alt word_less_nat_alt t)
qed

lemma free_block_chain_spec:
  assumes "chain fat b bs" "FAT_FREE \<notin> set bs"
  shows "\<exists>fat'. free_block_chain b fat = Some fat' \<and> length fat' = length fat \<and>
    (\<forall>i < length fat. fat' ! i = (if i \<in> unat ` set bs then FAT_FREE else fat ! i))"
  using assms
proof (induction bs arbitrary: b fat)
  case Nil
  then show ?case by (simp add: free_block_chain.simps)
next
  case (Cons x xs)
  have x: "b = x" "x \<noteq> FAT_EOF" "x \<noteq> FAT_FREE" "unat x < length fat" using Cons.prems by auto
  have "x \<notin> set xs" using chain_distinct[OF Cons.prems(1)] by simp
  then have "unat x \<notin> unat ` set xs" by simp
  with Cons.prems have "chain (fat[unat x := FAT_FREE]) (fat ! unat x) xs" by simp
  from Cons.IH[OF this] Cons.prems(2) obtain fat' where
    "free_block_chain (fat ! unat x) (fat[unat x := FAT_FREE]) = Some fat'" "length fat' = length fat"
    "\<forall>i < length fat. fat' ! i = (if i \<in> unat ` set xs then FAT_FREE else fat[unat x := FAT_FREE] ! i)"
    by auto
  with x show ?case by (auto simp: free_block_chain.simps[of x fat] nth_list_update)
qed

lemma skip_blocks_spec:
  assumes "chain fat b bs" "unat off \<le> length bs * BLOCK_SIZE"
  shows "skip_blocks fat b off =
    Some (if unat off div BLOCK_SIZE < length bs then bs ! (unat off div BLOCK_SIZE) else FAT_EOF,
          of_nat (unat off mod BLOCK_SIZE))"
  using assms
proof (induction bs arbitrary: b off)
  case Nil
  then have "off = 0" by (simp add: unat_eq_zero)
  with Nil show ?case by (simp add: skip_blocks.simps)
next
  case (Cons x xs)
  show ?case
  proof (cases "BLOCK32 \<le> off")
    case False
    then have "unat off < BLOCK_SIZE" by (simp add: word_le_nat_alt)
    with False Cons.prems show ?thesis by (subst skip_blocks.simps) simp
  next
    case True
    then have le: "BLOCK_SIZE \<le> unat off" and u: "unat (off - BLOCK32) = unat off - BLOCK_SIZE"
      by (simp_all add: word_le_nat_alt unat_sub)
    have "unat (off - BLOCK32) \<le> length xs * BLOCK_SIZE" using Cons.prems(2) u by simp
    with Cons.IH[of "fat ! unat x" "off - BLOCK32"] Cons.prems True le u show ?thesis
      by (auto simp: skip_blocks.simps[of fat x off] le_div_geq le_mod_geq)
  qed
qed

lemma last_block_spec:
  "chain fat b bs \<Longrightarrow> bs \<noteq> [] \<Longrightarrow> last_block fat b = Some (last bs)"
proof (induction bs arbitrary: b)
  case (Cons x xs)
  then show ?case by (cases xs) (auto simp: last_block.simps[of fat x])
qed simp

lemma chain_drop:
  "chain fat b bs \<Longrightarrow> k < length bs \<Longrightarrow> chain fat (fat ! unat (bs ! k)) (drop (Suc k) bs)"
proof (induction bs arbitrary: b k)
  case (Cons x xs)
  then show ?case by (cases k) auto
qed simp

text \<open>Cutting a chain after position \<open>k\<close>: mark that block as the last one.\<close>

lemma chain_cut:
  assumes "chain fat b bs" "k < length bs"
  shows "chain (fat[unat (bs ! k) := FAT_EOF]) b (take (Suc k) bs)"
  using assms
proof (induction bs arbitrary: b k)
  case (Cons x xs)
  have d: "x \<notin> set xs" using chain_distinct[OF Cons.prems(1)] by simp
  show ?case
  proof (cases k)
    case 0
    with Cons.prems show ?thesis by auto
  next
    case (Suc j)
    with Cons.prems have "unat (xs ! j) \<noteq> unat x" using d by (metis Suc_less_eq length_Cons nth_mem unat_inject)
    with Suc Cons show ?thesis by auto
  qed
qed simp

section \<open>Properties\<close>

text \<open>C13: freeing a chain ends on every table whose links stay inside it, cyclic tables included; it
  only ever turns entries into free ones, and the block it starts from is free afterwards.\<close>

theorem free_block_chain_total:
  assumes "\<forall>v \<in> set fat. v = FAT_EOF \<or> unat v < length fat" "b = FAT_EOF \<or> unat b < length fat"
  shows "\<exists>fat'. free_block_chain b fat = Some fat' \<and> length fat' = length fat \<and>
    (\<forall>i < length fat. fat' ! i = fat ! i \<or> fat' ! i = FAT_FREE) \<and>
    (b \<noteq> FAT_EOF \<and> b \<noteq> FAT_FREE \<longrightarrow> fat' ! unat b = FAT_FREE)"
  using assms
proof (induction b fat rule: free_block_chain.induct)
  case (1 b fat)
  show ?case
  proof (cases "b \<noteq> FAT_EOF \<and> b \<noteq> FAT_FREE")
    case False
    then show ?thesis by (auto simp: free_block_chain.simps[of b fat])
  next
    case True
    then have l: "unat b < length fat" using "1.prems"(2) by simp
    let ?fat = "fat[unat b := FAT_FREE]"
    have "\<forall>v \<in> set ?fat. v = FAT_EOF \<or> unat v < length ?fat"
      using "1.prems"(1) l set_update_subset_insert[of fat "unat b" FAT_FREE] by (auto simp: FAT_FREE_def)
    moreover have "fat ! unat b = FAT_EOF \<or> unat (fat ! unat b) < length ?fat"
      using "1.prems"(1) l by simp
    ultimately obtain fat' where f: "free_block_chain (fat ! unat b) ?fat = Some fat'" "length fat' = length fat"
      "\<forall>i < length fat. fat' ! i = ?fat ! i \<or> fat' ! i = FAT_FREE"
      using "1.IH"[OF True arr_get_in[OF l]] by auto
    have eq: "free_block_chain b fat = Some fat'"
      using True f(1) l by (simp add: free_block_chain.simps[of b fat])
    have "fat' ! i = fat ! i \<or> fat' ! i = FAT_FREE" if "i < length fat" for i
      using f(3) that l by (cases "i = unat b") auto
    moreover have "fat' ! unat b = FAT_FREE" using f(3) l by (metis nth_list_update_eq)
    ultimately show ?thesis using eq f(2) by blast
  qed
qed

lemma free_block_chain_total_witness:
  "\<exists>fat'. free_block_chain 2 [0, 3, 1, 2] = Some fat' \<and> length fat' = length [0, 3, 1, 2 :: u32] \<and>
    (\<forall>i < length [0, 3, 1, 2 :: u32]. fat' ! i = [0, 3, 1, 2] ! i \<or> fat' ! i = FAT_FREE) \<and>
    ((2::u32) \<noteq> FAT_EOF \<and> (2::u32) \<noteq> FAT_FREE \<longrightarrow> fat' ! unat (2::u32) = FAT_FREE)"
  by (rule free_block_chain_total) simp_all

text \<open>C14: \<open>allocate_free_block\<close> returns the lowest free data block and marks it as a last block, and
  returns \<open>FAT_FREE\<close> with the table unchanged exactly when no data block is free.\<close>

theorem allocate_lowest_free:
  assumes "length fat = DISK_BLOCKS"
  shows "\<exists>b. allocate_free_block std_superblock fat =
      Some (if disk_full fat then (FAT_FREE, fat) else (b, fat[unat b := FAT_EOF])) \<and>
    (\<not> disk_full fat \<longrightarrow> data_block b \<and> fat ! unat b = FAT_FREE \<and>
      (\<forall>j. 4 \<le> j \<and> j < unat b \<longrightarrow> fat ! j \<noteq> FAT_FREE))"
proof -
  have t: "unat (of_nat DISK_BLOCKS :: u32) = DISK_BLOCKS" by (simp add: DISK_BLOCKS_def)
  then have "unat (of_nat DISK_BLOCKS :: u32) \<le> length fat" using assms by simp
  from alloc_scan_spec[OF this, of 4] show ?thesis
    unfolding allocate_free_block_def std_superblock_def disk_full_def data_block_def
    by (auto simp: word_le_nat_alt word_less_nat_alt t)
qed

lemma allocate_lowest_free_witness:
  "\<exists>b. allocate_free_block std_superblock (replicate DISK_BLOCKS FAT_FREE) =
      Some (if disk_full (replicate DISK_BLOCKS FAT_FREE) then (FAT_FREE, replicate DISK_BLOCKS FAT_FREE)
            else (b, (replicate DISK_BLOCKS FAT_FREE)[unat b := FAT_EOF])) \<and>
    (\<not> disk_full (replicate DISK_BLOCKS FAT_FREE) \<longrightarrow> data_block b \<and>
      replicate DISK_BLOCKS FAT_FREE ! unat b = FAT_FREE \<and>
      (\<forall>j. 4 \<le> j \<and> j < unat b \<longrightarrow> replicate DISK_BLOCKS FAT_FREE ! j \<noteq> FAT_FREE))"
  by (rule allocate_lowest_free) simp

end
