(* ===== verification/FsState.thy ===== *)
theory FsState
  imports Fat
begin

text \<open>
  The global state of \<^verbatim>\<open>EC440_HW5/fs.c\<close> and its operations except reading and writing file
  data: the directory search, the metadata transfer, mounting, and the calls on names and
  descriptors.  A null \<^verbatim>\<open>fat_table\<close> is the empty list.  \<open>stack\<close> is what an uninitialised
  block buffer of the C code holds; it matters only where a read leaves part of a buffer
  unwritten.  Outcomes of \<^verbatim>\<open>malloc\<close> and the contents of fresh heap memory are arguments.
\<close>

section \<open>Global state\<close>

record fs =
  superblock :: superblock
  fat_table :: "u32 list"
  root_directory :: "dirent list"
  fd_table :: "fdesc list"
  mounted :: bool
  fs_disk :: disk
  stack :: "byte list"

section \<open>Directory search\<close>

fun free_entry_from :: "nat \<Rightarrow> dirent list \<Rightarrow> int" where
  "free_entry_from i [] = -1"
| "free_entry_from i (e # es) = (if in_use e = 0 then int i else free_entry_from (Suc i) es)"

definition find_free_directory_entry :: "fs \<Rightarrow> int" where
  "find_free_directory_entry s = free_entry_from 0 (root_directory s)"

fun file_entry_from :: "nat \<Rightarrow> dirent list \<Rightarrow> cstring \<Rightarrow> int" where
  "file_entry_from i [] name = -1"
| "file_entry_from i (e # es) name =
     (if in_use e \<noteq> 0 \<and> strncmp_eq (filename e) name FS_MAX_FILENAME_LENGTH then int i
      else file_entry_from (Suc i) es name)"

definition find_file_in_directory :: "cstring \<Rightarrow> fs \<Rightarrow> int" where
  "find_file_in_directory name s = file_entry_from 0 (root_directory s) name"

section \<open>Metadata on the disk\<close>

text \<open>Table entries per block: \<^verbatim>\<open>BLOCK_SIZE / sizeof(uint32_t)\<close>.\<close>

definition ENTRIES :: nat where "ENTRIES = BLOCK_SIZE div 4"

lemma ENTRIES_4 [simp]: "4 * ENTRIES = BLOCK_SIZE" "ENTRIES * 4 = BLOCK_SIZE"
  by (simp_all add: ENTRIES_def BLOCK_SIZE_def)

text \<open>
  The table is copied a block at a time; \<open>fat\<close> is the part of the table from \<^verbatim>\<open>fat_ptr\<close> on.
\<close>

primrec write_fat_blocks :: "nat \<Rightarrow> u32 \<Rightarrow> u32 \<Rightarrow> u32 list \<Rightarrow> disk \<Rightarrow> disk option" where
  "write_fat_blocks 0 i start fat d = Some d"
| "write_fat_blocks (Suc n) i start fat d =
     (if ENTRIES \<le> length fat then
        write_fat_blocks n (i + 1) start (drop ENTRIES fat)
          (snd (block_write (sint (start + i)) (enc_words (take ENTRIES fat)) d))
      else None)"

definition write_metadata_to_disk :: "fs \<Rightarrow> fs option" where
  "write_metadata_to_disk s =
     (let sb = superblock s;
          d0 = snd (block_write 0 (patch (replicate BLOCK_SIZE 0) 0 (enc_superblock sb)) (fs_disk s))
      in case write_fat_blocks (unat (fat_block_count sb)) 0 (fat_start_block sb) (fat_table s) d0 of
           None \<Rightarrow> None
         | Some d1 \<Rightarrow>
             Some (s\<lparr>fs_disk := snd (block_write (sint (dir_start_block sb))
               (patch (replicate BLOCK_SIZE 0) 0 (enc_dir (root_directory s))) d1)\<rparr>))"

section \<open>Making, mounting and unmounting\<close>

definition make_fs :: "bool \<Rightarrow> cstring option \<Rightarrow> fs \<Rightarrow> (int \<times> fs) option" where
  "make_fs calloc_ok disk_name s =
     (let (r, d) = make_disk disk_name (fs_disk s); s = s\<lparr>fs_disk := d\<rparr> in
      if r < 0 then Some (-1, s)
      else let (r, d) = open_disk disk_name (fs_disk s); s = s\<lparr>fs_disk := d\<rparr> in
      if r < 0 then Some (-1, s)
      else let s = s\<lparr>superblock := std_superblock\<rparr> in
      if \<not> calloc_ok then
        Some (-1, s\<lparr>fat_table := [], fs_disk := snd (close_disk (fs_disk s))\<rparr>)
      else let s = s\<lparr>root_directory := replicate FS_MAX_FILES zero_dirent,
                     fat_table := replicate (unat (total_blocks (superblock s))) FAT_FREE\<rparr> in
        case write_metadata_to_disk s of None \<Rightarrow> None
        | Some s \<Rightarrow> Some (0, s\<lparr>fat_table := [], fs_disk := snd (close_disk (fs_disk s))\<rparr>))"

text \<open>
  Reading the table: \<open>Some None\<close> is a failed read.  \<open>fat\<close> is the whole allocation, \<open>pos\<close> the
  index \<^verbatim>\<open>fat_ptr\<close> points to; writing past the allocation is undefined.
\<close>

primrec read_fat_blocks :: "nat \<Rightarrow> u32 \<Rightarrow> u32 \<Rightarrow> nat \<Rightarrow> u32 list \<Rightarrow> byte list \<Rightarrow> disk \<Rightarrow>
    (u32 list \<times> byte list) option option" where
  "read_fat_blocks 0 i start pos fat buf d = Some (Some (fat, buf))"
| "read_fat_blocks (Suc n) i start pos fat buf d =
     (let (r, buf) = block_read (sint (start + i)) buf d in
      if r < 0 then Some None
      else if pos + ENTRIES \<le> length fat then
        read_fat_blocks n (i + 1) start (pos + ENTRIES) (patch fat pos (dec_words ENTRIES buf)) buf d
      else None)"

definition mount_fs :: "bool \<Rightarrow> (nat \<Rightarrow> u32) \<Rightarrow> cstring option \<Rightarrow> fs \<Rightarrow> (int \<times> fs) option" where
  "mount_fs malloc_ok heap disk_name s =
     (if mounted s then Some (-1, s)
      else let (r, d) = open_disk disk_name (fs_disk s); s = s\<lparr>fs_disk := d\<rparr> in
      if r < 0 then Some (-1, s)
      else let (r, buf) = block_read 0 (stack s) (fs_disk s) in
      if r < 0 then Some (-1, s\<lparr>fs_disk := snd (close_disk (fs_disk s))\<rparr>)
      else let s = s\<lparr>superblock := dec_superblock buf\<rparr>; sb = superblock s in
      if magic_number sb \<noteq> FS_MAGIC_NUMBER then
        Some (-1, s\<lparr>fs_disk := snd (close_disk (fs_disk s))\<rparr>)
      else if \<not> malloc_ok then
        Some (-1, s\<lparr>fat_table := [], fs_disk := snd (close_disk (fs_disk s))\<rparr>)
      else case read_fat_blocks (unat (fat_block_count sb)) 0 (fat_start_block sb) 0
             (map heap [0..<unat (total_blocks sb)]) buf (fs_disk s) of
        None \<Rightarrow> None
      | Some None \<Rightarrow> Some (-1, s\<lparr>fat_table := [], fs_disk := snd (close_disk (fs_disk s))\<rparr>)
      | Some (Some (fat, buf)) \<Rightarrow>
          let (r, buf) = block_read (sint (dir_start_block sb)) buf (fs_disk s) in
          if r < 0 then Some (-1, s\<lparr>fat_table := [], fs_disk := snd (close_disk (fs_disk s))\<rparr>)
          else Some (0, s\<lparr>fat_table := fat, root_directory := dec_dir buf, mounted := True,
                 fd_table := replicate FS_MAX_FILE_DESCRIPTORS zero_fdesc\<rparr>))"

definition umount_fs :: "fs \<Rightarrow> (int \<times> fs) option" where
  "umount_fs s =
     (if \<not> mounted s then Some (-1, s)
      else case write_metadata_to_disk s of None \<Rightarrow> None
        | Some s \<Rightarrow> Some (0, s\<lparr>fat_table := [], mounted := False,
            fs_disk := snd (close_disk (fs_disk s))\<rparr>))"

section \<open>Creating, opening, closing and deleting\<close>

definition fs_create :: "cstring \<Rightarrow> fs \<Rightarrow> int \<times> fs" where
  "fs_create name s =
     (if \<not> mounted s \<or> FS_MAX_FILENAME_LENGTH \<le> length name then (-1, s)
      else if 0 \<le> find_file_in_directory name s then (-1, s)
      else let dir_idx = find_free_directory_entry s in
      if dir_idx < 0 then (-1, s)
      else let i = nat dir_idx; e = root_directory s ! i in
        (0, s\<lparr>root_directory := (root_directory s)[i :=
              e\<lparr>filename := name_field (filename e) name, filesize := 0,
                first_block_index := FAT_EOF, in_use := 1\<rparr>]\<rparr>))"

fun free_fd_from :: "nat \<Rightarrow> fdesc list \<Rightarrow> int" where
  "free_fd_from i [] = -1"
| "free_fd_from i (f # fs) = (if fd_in_use f = 0 then int i else free_fd_from (Suc i) fs)"

definition fs_open :: "cstring \<Rightarrow> fs \<Rightarrow> int \<times> fs" where
  "fs_open name s =
     (if \<not> mounted s then (-1, s)
      else let dir_idx = find_file_in_directory name s in
      if dir_idx < 0 then (-1, s)
      else let i = free_fd_from 0 (fd_table s) in
      if i < 0 then (-1, s)
      else (i, s\<lparr>fd_table := (fd_table s)[nat i :=
              \<lparr>fd_in_use = 1, dir_entry_index = word_of_int dir_idx, fd_offset = 0\<rparr>]\<rparr>))"

definition valid_fd :: "int \<Rightarrow> fs \<Rightarrow> bool" where
  "valid_fd fildes s \<longleftrightarrow> \<not> (fildes < 0 \<or> int FS_MAX_FILE_DESCRIPTORS \<le> fildes
     \<or> fd_in_use (fd_table s ! nat fildes) = 0)"

definition fs_close :: "int \<Rightarrow> fs \<Rightarrow> int \<times> fs" where
  "fs_close fildes s =
     (if \<not> valid_fd fildes s then (-1, s)
      else (0, s\<lparr>fd_table := (fd_table s)[nat fildes :=
              (fd_table s ! nat fildes)\<lparr>fd_in_use := 0\<rparr>]\<rparr>))"

definition is_open :: "int \<Rightarrow> fs \<Rightarrow> bool" where
  "is_open dir_idx s \<longleftrightarrow>
     (\<exists>f \<in> set (fd_table s). fd_in_use f \<noteq> 0 \<and> uint (dir_entry_index f) = dir_idx)"

definition fs_delete :: "cstring option \<Rightarrow> fs \<Rightarrow> (int \<times> fs) option" where
  "fs_delete name s =
     (case name of None \<Rightarrow> Some (-1, s)
      | Some nm \<Rightarrow>
          if \<not> mounted s \<or> FS_MAX_FILENAME_LENGTH \<le> length nm then Some (-1, s)
          else let dir_idx = find_file_in_directory nm s in
          if dir_idx < 0 then Some (-1, s)
          else if is_open dir_idx s then Some (-1, s)
          else do {
            fat \<leftarrow> free_block_chain (first_block_index (root_directory s ! nat dir_idx)) (fat_table s);
            s' \<leftarrow> write_metadata_to_disk (s\<lparr>fat_table := fat,
                   root_directory := (root_directory s)[nat dir_idx := zero_dirent]\<rparr>);
            Some (0, s')
          })"

section \<open>Descriptors: size, listing, seek, truncate\<close>

text \<open>The entry a descriptor refers to.\<close>

definition fd_entry :: "int \<Rightarrow> fs \<Rightarrow> dirent option" where
  "fd_entry fildes s = arr_get (root_directory s) (unat (dir_entry_index (fd_table s ! nat fildes)))"

definition set_fd_offset :: "int \<Rightarrow> u32 \<Rightarrow> fs \<Rightarrow> fs" where
  "set_fd_offset fildes off s =
     s\<lparr>fd_table := (fd_table s)[nat fildes := (fd_table s ! nat fildes)\<lparr>fd_offset := off\<rparr>]\<rparr>"

definition set_fd_entry :: "int \<Rightarrow> dirent \<Rightarrow> fs \<Rightarrow> fs" where
  "set_fd_entry fildes e s =
     s\<lparr>root_directory := (root_directory s)[unat (dir_entry_index (fd_table s ! nat fildes)) := e]\<rparr>"

definition fs_get_filesize :: "int \<Rightarrow> fs \<Rightarrow> int option" where
  "fs_get_filesize fildes s =
     (if \<not> mounted s \<or> \<not> valid_fd fildes s then Some (-1)
      else map_option (\<lambda>e. sint (filesize e)) (fd_entry fildes s))"

text \<open>\<open>ok k\<close>: the \<open>k\<close>-th allocation succeeds; \<open>fresh k\<close> is what the new name buffer holds.\<close>

fun list_names :: "(nat \<Rightarrow> bool) \<Rightarrow> (nat \<Rightarrow> byte list) \<Rightarrow> nat \<Rightarrow> dirent list \<Rightarrow> byte list list option" where
  "list_names ok fresh idx [] = Some []"
| "list_names ok fresh idx (e # es) =
     (if in_use e = 0 then list_names ok fresh idx es
      else if \<not> ok (Suc idx) then None
      else map_option (\<lambda>ns. name_field (fresh idx) (cstr (filename e)) # ns)
             (list_names ok fresh (Suc idx) es))"

definition fs_listfiles :: "bool \<Rightarrow> (nat \<Rightarrow> bool) \<Rightarrow> (nat \<Rightarrow> byte list) \<Rightarrow> fs \<Rightarrow>
    int \<times> byte list list option" where
  "fs_listfiles files_given ok fresh s =
     (if \<not> mounted s \<or> \<not> files_given then (-1, None)
      else if \<not> ok 0 then (-1, None)
      else case list_names ok fresh 0 (root_directory s) of
        None \<Rightarrow> (-1, None) | Some ns \<Rightarrow> (0, Some ns))"

definition fs_lseek :: "int \<Rightarrow> int \<Rightarrow> fs \<Rightarrow> (int \<times> fs) option" where
  "fs_lseek fildes offset s =
     (if \<not> mounted s \<or> \<not> valid_fd fildes s \<or> offset < 0 then Some (-1, s)
      else do {
        e \<leftarrow> fd_entry fildes s;
        if uint (filesize e) < offset then Some (-1, s)
        else Some (0, set_fd_offset fildes (word_of_int offset) s)
      })"

partial_function (option) truncate_walk :: "u32 list \<Rightarrow> u32 \<Rightarrow> u32 \<Rightarrow> u32 \<Rightarrow> u32 option" where
  "truncate_walk fat block bytes_processed len =
     (if block \<noteq> FAT_EOF \<and> bytes_processed + BLOCK32 \<le> len then
        Option.bind (arr_get fat (unat block))
          (\<lambda>nxt. truncate_walk fat nxt (bytes_processed + BLOCK32) len)
      else Some block)"

definition truncate_chain :: "u32 list \<Rightarrow> u32 \<Rightarrow> u32 list option" where
  "truncate_chain fat block =
     (if block \<noteq> FAT_EOF then do {
        nxt \<leftarrow> arr_get fat (unat block);
        fat' \<leftarrow> free_block_chain nxt fat;
        arr_set fat' (unat block) FAT_EOF
      } else Some fat)"

definition fs_truncate :: "int \<Rightarrow> int \<Rightarrow> fs \<Rightarrow> (int \<times> fs) option" where
  "fs_truncate fildes len s =
     (if \<not> mounted s \<or> \<not> valid_fd fildes s \<or> len < 0 then Some (-1, s)
      else do {
        e \<leftarrow> fd_entry fildes s;
        let len32 = (word_of_int len :: u32);
        if filesize e < len32 then Some (-1, s)
        else do {
          block \<leftarrow> truncate_walk (fat_table s) (first_block_index e) 0 len32;
          fat \<leftarrow> truncate_chain (fat_table s) block;
          let s1 = set_fd_entry fildes (e\<lparr>filesize := len32\<rparr>) (s\<lparr>fat_table := fat\<rparr>);
          let s2 = (if len32 < fd_offset (fd_table s ! nat fildes)
                    then set_fd_offset fildes len32 s1 else s1);
          s3 \<leftarrow> write_metadata_to_disk s2;
          Some (0, s3)
        }
      })"

end
