(* ===== verification/FsInv.thy ===== *)
theory FsInv
  imports FsState
begin

text \<open>
  The invariant of a mounted file system, the data of a file as a byte sequence, and the
  effect of \<open>write_metadata_to_disk\<close>.
\<close>

section \<open>The invariant\<close>

definition entry_blocks :: "u32 list \<Rightarrow> dirent \<Rightarrow> u32 list" where
  "entry_blocks fat e = fat_walk (length fat) fat (first_block_index e)"

text \<open>
  A directory entry in use: its blocks are data blocks chained to \<open>FAT_EOF\<close>, they cover the
  file size, and the name is terminated.
\<close>

definition entry_ok :: "u32 list \<Rightarrow> dirent \<Rightarrow> bool" where
  "entry_ok fat e \<longleftrightarrow>
     chain fat (first_block_index e) (entry_blocks fat e) \<and>
     (\<forall>b \<in> set (entry_blocks fat e). data_block b) \<and>
     unat (filesize e) \<le> length (entry_blocks fat e) * BLOCK_SIZE \<and>
     0 \<in> set (filename e)"

definition used :: "dirent list \<Rightarrow> nat \<Rightarrow> bool" where
  "used es i \<longleftrightarrow> i < length es \<and> in_use (es ! i) \<noteq> 0"

definition alloc_ok :: "u32 list \<Rightarrow> dirent list \<Rightarrow> bool" where
  "alloc_ok fat es \<longleftrightarrow>
     (\<forall>i < length es. used es i \<longrightarrow> entry_ok fat (es ! i)) \<and>
     (\<forall>i < length es. \<forall>j < length es. used es i \<and> used es j \<and> i \<noteq> j \<longrightarrow>
        set (entry_blocks fat (es ! i)) \<inter> set (entry_blocks fat (es ! j)) = {})"

definition unique_names :: "dirent list \<Rightarrow> bool" where
  "unique_names es \<longleftrightarrow>
     (\<forall>i < length es. \<forall>j < length es. used es i \<and> used es j \<and>
        cstr (filename (es ! i)) = cstr (filename (es ! j)) \<longrightarrow> i = j)"

definition fds_ok :: "fdesc list \<Rightarrow> dirent list \<Rightarrow> bool" where
  "fds_ok fds es \<longleftrightarrow> length fds = FS_MAX_FILE_DESCRIPTORS \<and>
     (\<forall>f \<in> set fds. fd_in_use f \<noteq> 0 \<longrightarrow>
        used es (unat (dir_entry_index f)) \<and> unat (fd_offset f) \<le> DISK_BLOCKS * BLOCK_SIZE)"

definition fs_inv :: "fs \<Rightarrow> bool" where
  "fs_inv s \<longleftrightarrow> mounted s \<and> superblock s = std_superblock \<and>
     length (fat_table s) = DISK_BLOCKS \<and> dir_shape (root_directory s) \<and>
     alloc_ok (fat_table s) (root_directory s) \<and> unique_names (root_directory s) \<and>
     fds_ok (fd_table s) (root_directory s) \<and> disk_ready (fs_disk s) \<and>
     length (stack s) = BLOCK_SIZE"

text \<open>The data of a file: the first \<open>filesize\<close> bytes of its blocks.\<close>

definition block_bytes :: "disk \<Rightarrow> u32 list \<Rightarrow> byte list" where
  "block_bytes d bs = concat (map (\<lambda>b. blk d (unat b)) bs)"

definition file_data :: "fs \<Rightarrow> nat \<Rightarrow> byte list" where
  "file_data s i = (let e = root_directory s ! i in
     take (unat (filesize e)) (block_bytes (fs_disk s) (entry_blocks (fat_table s) e)))"

lemma length_block_bytes [simp]: "length (block_bytes d bs) = length bs * BLOCK_SIZE"
  unfolding block_bytes_def
  by (subst length_concat_const[where k = BLOCK_SIZE]) (auto simp: mult.commute)

lemma block_bytes_cong:
  "(\<And>b. b \<in> set bs \<Longrightarrow> blk d (unat b) = blk d' (unat b)) \<Longrightarrow> block_bytes d bs = block_bytes d' bs"
  unfolding block_bytes_def by (metis map_cong)

lemma block_bytes_append: "block_bytes d (xs @ ys) = block_bytes d xs @ block_bytes d ys"
  by (simp add: block_bytes_def)

lemma entry_blocks_eq:
  "chain fat (first_block_index e) bs \<Longrightarrow> entry_blocks fat e = bs"
  unfolding entry_blocks_def by (rule chain_walk) (auto intro: chain_length)

lemma alloc_okD:
  assumes "alloc_ok fat es" "used es i"
  shows "entry_ok fat (es ! i)"
    and "used es j \<Longrightarrow> i \<noteq> j \<Longrightarrow>
      set (entry_blocks fat (es ! i)) \<inter> set (entry_blocks fat (es ! j)) = {}"
  using assms by (auto simp: alloc_ok_def used_def)

lemma entry_okD:
  assumes "entry_ok fat e"
  shows "chain fat (first_block_index e) (entry_blocks fat e)"
    and "b \<in> set (entry_blocks fat e) \<Longrightarrow> data_block b"
    and "unat (filesize e) \<le> length (entry_blocks fat e) * BLOCK_SIZE"
    and "0 \<in> set (filename e)"
  using assms by (auto simp: entry_ok_def)

lemma entry_blocks_frame:
  assumes "entry_ok fat e" "length fat' = length fat"
    and "\<And>b. b \<in> set (entry_blocks fat e) \<Longrightarrow> fat' ! unat b = fat ! unat b"
  shows "entry_blocks fat' e = entry_blocks fat e"
proof (rule entry_blocks_eq)
  have "chain fat (first_block_index e) (entry_blocks fat e)" using assms(1) by (rule entry_okD)
  then show "chain fat' (first_block_index e) (entry_blocks fat e)"
    by (rule chain_frame[rotated 3, where I = "- unat ` set (entry_blocks fat e)"])
      (use assms in auto)
qed

lemma data_block_count:
  assumes "distinct bs" "\<And>b. b \<in> set bs \<Longrightarrow> data_block b"
  shows "length bs \<le> DISK_BLOCKS - 4"
proof -
  have "length bs = card (unat ` set bs)"
    using assms(1) by (metis distinct_card distinct_map_unat length_map set_map)
  also have "\<dots> \<le> card {4..<DISK_BLOCKS}"
    using assms(2) by (intro card_mono) (auto simp: data_block_def)
  finally show ?thesis by simp
qed

lemma entry_size_bound:
  assumes "entry_ok fat e"
  shows "length (entry_blocks fat e) \<le> DISK_BLOCKS - 4"
    and "unat (filesize e) \<le> (DISK_BLOCKS - 4) * BLOCK_SIZE"
proof -
  show *: "length (entry_blocks fat e) \<le> DISK_BLOCKS - 4"
    by (rule data_block_count) (use entry_okD[OF assms] chain_distinct in auto)
  show "unat (filesize e) \<le> (DISK_BLOCKS - 4) * BLOCK_SIZE"
    using entry_okD(3)[OF assms] mult_le_mono1[OF *, of BLOCK_SIZE] by linarith
qed

lemma DISK_BYTES: "DISK_BLOCKS * BLOCK_SIZE = 33554432" "(DISK_BLOCKS - 4) * BLOCK_SIZE = 33538048"
  by (simp_all add: DISK_BLOCKS_def BLOCK_SIZE_def)

section \<open>Writing the metadata\<close>

lemma block_write_frame:
  "handle (snd (block_write b buf d)) = handle d"
  "active (snd (block_write b buf d)) = active d"
  "may_open (host (snd (block_write b buf d))) = may_open (host d)"
  by (auto simp: block_write_def host_write_def Let_def split: option.splits)

text \<open>The blocks the metadata of a standard file system occupies.\<close>

definition meta_writes :: "u32 list \<Rightarrow> dirent list \<Rightarrow> (nat \<times> byte list) list" where
  "meta_writes fat es =
     [(0, patch (replicate BLOCK_SIZE 0) 0 (enc_superblock std_superblock)),
      (1, enc_words (take ENTRIES fat)),
      (2, enc_words (take ENTRIES (drop ENTRIES fat))),
      (3, patch (replicate BLOCK_SIZE 0) 0 (enc_dir es))]"

definition fs_static :: "fs \<Rightarrow> bool" where
  "fs_static s \<longleftrightarrow> superblock s = std_superblock \<and> length (fat_table s) = DISK_BLOCKS \<and>
     dir_shape (root_directory s) \<and> disk_ready (fs_disk s)"

lemma meta_writes_shape:
  assumes "length fat = DISK_BLOCKS" "dir_shape es"
  shows "\<forall>(b, buf) \<in> set (meta_writes fat es). b < DISK_BLOCKS \<and> length buf = BLOCK_SIZE"
proof -
  have "length (enc_superblock std_superblock) \<le> BLOCK_SIZE" by (simp add: BLOCK_SIZE_def)
  moreover have "length (enc_words (take ENTRIES fat)) = BLOCK_SIZE"
    "length (enc_words (take ENTRIES (drop ENTRIES fat))) = BLOCK_SIZE"
    using assms(1) by (simp_all add: ENTRIES_def BLOCK_SIZE_def DISK_BLOCKS_def)
  moreover have "(0::nat) < DISK_BLOCKS" "1 < DISK_BLOCKS" "2 < DISK_BLOCKS" "3 < DISK_BLOCKS"
    by (simp_all add: DISK_BLOCKS_def)
  ultimately show ?thesis using enc_dir_fits[OF assms(2)] by (auto simp: meta_writes_def)
qed

lemma write_fat_blocks_2:
  "2 * ENTRIES \<le> length fat \<Longrightarrow> write_fat_blocks 2 0 1 fat d =
    Some (snd (block_write 2 (enc_words (take ENTRIES (drop ENTRIES fat)))
      (snd (block_write 1 (enc_words (take ENTRIES fat)) d))))"
  by (simp add: numeral_2_eq_2)

lemma write_metadata_eq:
  assumes "superblock s = std_superblock" "length (fat_table s) = DISK_BLOCKS"
  shows "write_metadata_to_disk s = Some (s\<lparr>fs_disk :=
    fold (\<lambda>(b, buf) d. snd (block_write (int b) buf d))
      (meta_writes (fat_table s) (root_directory s)) (fs_disk s)\<rparr>)"
proof -
  have "2 * ENTRIES \<le> length (fat_table s)"
    using assms(2) by (simp add: ENTRIES_def BLOCK_SIZE_def DISK_BLOCKS_def)
  from write_fat_blocks_2[OF this] show ?thesis
    by (simp add: write_metadata_to_disk_def assms(1) std_superblock_def meta_writes_def Let_def)
qed

lemma write_metadata_spec:
  assumes "fs_static s"
  shows "\<exists>d'. write_metadata_to_disk s = Some (s\<lparr>fs_disk := d'\<rparr>) \<and> disk_ready d' \<and>
    handle d' = handle (fs_disk s) \<and> may_open (host d') = may_open (host (fs_disk s)) \<and>
    (\<forall>c < DISK_BLOCKS. blk d' c = (case map_of (rev (meta_writes (fat_table s) (root_directory s))) c of
       None \<Rightarrow> blk (fs_disk s) c | Some buf \<Rightarrow> buf))"
proof -
  let ?ws = "meta_writes (fat_table s) (root_directory s)"
  let ?d = "fold (\<lambda>(b, buf) d. snd (block_write (int b) buf d)) ?ws (fs_disk s)"
  have s: "superblock s = std_superblock" "length (fat_table s) = DISK_BLOCKS"
    "dir_shape (root_directory s)" "disk_ready (fs_disk s)"
    using assms by (auto simp: fs_static_def)
  note vdisk.writes_law[OF s(4) meta_writes_shape[OF s(2,3)]]
  moreover have "handle ?d = handle (fs_disk s)" "may_open (host ?d) = may_open (host (fs_disk s))"
    by (simp_all add: meta_writes_def block_write_frame)
  ultimately show ?thesis using write_metadata_eq[OF s(1,2)] by auto
qed

text \<open>Data blocks and everything in memory stay as they are.\<close>

lemma write_metadata_frame:
  assumes "fs_static s"
  obtains d' where "write_metadata_to_disk s = Some (s\<lparr>fs_disk := d'\<rparr>)" "disk_ready d'"
    "\<And>b. data_block b \<Longrightarrow> blk d' (unat b) = blk (fs_disk s) (unat b)"
proof -
  from write_metadata_spec[OF assms] obtain d' where
    "write_metadata_to_disk s = Some (s\<lparr>fs_disk := d'\<rparr>)" "disk_ready d'"
    "\<forall>c < DISK_BLOCKS. blk d' c = (case map_of (rev (meta_writes (fat_table s) (root_directory s))) c of
       None \<Rightarrow> blk (fs_disk s) c | Some buf \<Rightarrow> buf)" by auto
  with that show ?thesis by (auto simp: data_block_def meta_writes_def)
qed

end
