(* ===== verification/FsSpec.thy ===== *)
theory FsSpec
  imports FsInv
begin

text \<open>
  What the file system promises, without blocks, tables or directories: named byte sequences
  and open handles with an offset.  The abstraction of a concrete state is \<open>abs_fs\<close>.  The
  operations \<open>a_create\<close>, \<open>a_open\<close>, ... are the specification the calls of \<^verbatim>\<open>fs.c\<close> are
  compared with.
\<close>

section \<open>Abstract states\<close>

record afs =
  afiles :: "cstring \<rightharpoonup> byte list"
  ahandles :: "nat \<rightharpoonup> cstring \<times> nat"

definition abs_files :: "fs \<Rightarrow> cstring \<rightharpoonup> byte list" where
  "abs_files s nm =
     (let i = find_file_in_directory nm s in
      if is_cstr nm \<and> 0 \<le> i then Some (file_data s (nat i)) else None)"

definition abs_handles :: "fs \<Rightarrow> nat \<rightharpoonup> cstring \<times> nat" where
  "abs_handles s k =
     (if k < FS_MAX_FILE_DESCRIPTORS \<and> fd_in_use (fd_table s ! k) \<noteq> 0
      then Some (cstr (filename (root_directory s ! unat (dir_entry_index (fd_table s ! k)))),
                 unat (fd_offset (fd_table s ! k)))
      else None)"

definition abs_fs :: "fs \<Rightarrow> afs" where
  "abs_fs s = \<lparr>afiles = abs_files s, ahandles = abs_handles s\<rparr>"

lemma abs_fs_simps [simp]: "afiles (abs_fs s) = abs_files s" "ahandles (abs_fs s) = abs_handles s"
  by (simp_all add: abs_fs_def)

section \<open>Abstract operations\<close>

definition a_handle :: "int \<Rightarrow> afs \<Rightarrow> (cstring \<times> nat) option" where
  "a_handle fildes a = (if fildes < 0 then None else ahandles a (nat fildes))"

definition a_create :: "cstring \<Rightarrow> afs \<Rightarrow> int \<times> afs" where
  "a_create nm a =
     (if FS_MAX_FILENAME_LENGTH \<le> length nm \<or> nm \<in> dom (afiles a)
         \<or> FS_MAX_FILES \<le> card (dom (afiles a)) then (-1, a)
      else (0, a\<lparr>afiles := (afiles a)(nm \<mapsto> [])\<rparr>))"

definition a_open :: "cstring \<Rightarrow> afs \<Rightarrow> int \<times> afs" where
  "a_open nm a =
     (if nm \<notin> dom (afiles a) then (-1, a)
      else case find (\<lambda>k. ahandles a k = None) [0..<FS_MAX_FILE_DESCRIPTORS] of
        None \<Rightarrow> (-1, a)
      | Some k \<Rightarrow> (int k, a\<lparr>ahandles := (ahandles a)(k \<mapsto> (nm, 0))\<rparr>))"

definition a_close :: "int \<Rightarrow> afs \<Rightarrow> int \<times> afs" where
  "a_close fildes a =
     (case a_handle fildes a of None \<Rightarrow> (-1, a)
      | Some _ \<Rightarrow> (0, a\<lparr>ahandles := (ahandles a)(nat fildes := None)\<rparr>))"

definition a_delete :: "cstring \<Rightarrow> afs \<Rightarrow> int \<times> afs" where
  "a_delete nm a =
     (if nm \<notin> dom (afiles a) \<or> nm \<in> fst ` ran (ahandles a) then (-1, a)
      else (0, a\<lparr>afiles := (afiles a)(nm := None)\<rparr>))"

definition a_size :: "int \<Rightarrow> afs \<Rightarrow> int" where
  "a_size fildes a =
     (case a_handle fildes a of None \<Rightarrow> -1
      | Some (nm, _) \<Rightarrow> int (length (the (afiles a nm))))"

definition a_lseek :: "int \<Rightarrow> int \<Rightarrow> afs \<Rightarrow> int \<times> afs" where
  "a_lseek fildes offset a =
     (case a_handle fildes a of None \<Rightarrow> (-1, a)
      | Some (nm, _) \<Rightarrow>
          if offset < 0 \<or> int (length (the (afiles a nm))) < offset then (-1, a)
          else (0, a\<lparr>ahandles := (ahandles a)(nat fildes \<mapsto> (nm, nat offset))\<rparr>))"

definition a_truncate :: "int \<Rightarrow> int \<Rightarrow> afs \<Rightarrow> int \<times> afs" where
  "a_truncate fildes len a =
     (case a_handle fildes a of None \<Rightarrow> (-1, a)
      | Some (nm, off) \<Rightarrow>
          let data = the (afiles a nm) in
          if len < 0 \<or> int (length data) < len then (-1, a)
          else (0, a\<lparr>afiles := (afiles a)(nm \<mapsto> take (nat len) data),
                     ahandles := (ahandles a)(nat fildes \<mapsto> (nm, min off (nat len)))\<rparr>))"

definition a_read :: "int \<Rightarrow> nat \<Rightarrow> afs \<Rightarrow> int \<times> byte list \<times> afs" where
  "a_read fildes n a =
     (case a_handle fildes a of None \<Rightarrow> (-1, [], a)
      | Some (nm, off) \<Rightarrow>
          let bytes = take n (drop off (the (afiles a nm))) in
          (int (length bytes), bytes,
           a\<lparr>ahandles := (ahandles a)(nat fildes \<mapsto> (nm, off + length bytes))\<rparr>))"

text \<open>
  Writing at an offset: a gap between the end and the offset is filled with zeros, then the
  bytes replace or extend the data.
\<close>

definition write_at :: "byte list \<Rightarrow> nat \<Rightarrow> byte list \<Rightarrow> byte list" where
  "write_at data off bytes =
     take off (data @ replicate (off - length data) 0) @ bytes @ drop (off + length bytes) data"

text \<open>
  A write stores some prefix of the bytes; how long it is depends on the free space.  When the
  offset lies beyond the end and the space runs out while the gap is filled, the call stores
  no byte of its argument, moves the handle back to the end it reached, and returns the number
  of zeros it appended.  On an empty file it may also do nothing at all.
\<close>

definition a_write :: "int \<Rightarrow> byte list \<Rightarrow> afs \<Rightarrow> int \<Rightarrow> afs \<Rightarrow> bool" where
  "a_write fildes bytes a r a' \<longleftrightarrow>
     (case a_handle fildes a of None \<Rightarrow> r = -1 \<and> a' = a
      | Some (nm, off) \<Rightarrow>
          let data = the (afiles a nm) in
          if bytes = [] then r = 0 \<and> a' = a else
          (data = [] \<and> r = 0 \<and> a' = a) \<or>
          (\<exists>m \<le> length bytes. r = int m \<and>
             a' = a\<lparr>afiles := (afiles a)(nm \<mapsto> write_at data off (take m bytes)),
                    ahandles := (ahandles a)(nat fildes \<mapsto> (nm, off + m))\<rparr>) \<or>
          (\<exists>x. length data + x < off \<and> r = int x \<and>
             a' = a\<lparr>afiles := (afiles a)(nm \<mapsto> data @ replicate x 0),
                    ahandles := (ahandles a)(nat fildes \<mapsto> (nm, length data + x))\<rparr>))"

section \<open>Names and entries\<close>

lemma fs_invD:
  assumes "fs_inv s"
  shows "mounted s" "superblock s = std_superblock" "length (fat_table s) = DISK_BLOCKS"
    "dir_shape (root_directory s)" "alloc_ok (fat_table s) (root_directory s)"
    "unique_names (root_directory s)" "fds_ok (fd_table s) (root_directory s)"
    "disk_ready (fs_disk s)" "length (stack s) = BLOCK_SIZE" "fs_static s"
  using assms by (simp_all add: fs_inv_def fs_static_def)

lemma dir_length [simp]: "dir_shape es \<Longrightarrow> length es = FS_MAX_FILES"
  by (simp add: dir_shape_def)

lemma used_less: "used es i \<Longrightarrow> i < length es"
  by (simp add: used_def)

lemma used_update: "i < length es \<Longrightarrow>
  used (es[i := e]) j \<longleftrightarrow> (if j = i then in_use e \<noteq> 0 else used es j)"
  by (auto simp: used_def nth_list_update)

lemma file_entry_from_eq:
  assumes "is_cstr nm"
    and "\<forall>e \<in> set es. length (filename e) = FS_MAX_FILENAME_LENGTH \<and> (in_use e \<noteq> 0 \<longrightarrow> 0 \<in> set (filename e))"
  shows "file_entry_from k es nm =
    first_index k (\<lambda>e. in_use e \<noteq> 0 \<and> cstr (filename e) = nm) es"
  using assms(2) by (induction es arbitrary: k) (auto simp: strncmp_eq_cstr[OF _ _ assms(1)])

lemma find_file_eq:
  assumes "fs_inv s" "is_cstr nm"
  shows "find_file_in_directory nm s =
    first_index 0 (\<lambda>e. in_use e \<noteq> 0 \<and> cstr (filename e) = nm) (root_directory s)"
  unfolding find_file_in_directory_def
proof (rule file_entry_from_eq[OF assms(2)])
  show "\<forall>e \<in> set (root_directory s). length (filename e) = FS_MAX_FILENAME_LENGTH \<and>
      (in_use e \<noteq> 0 \<longrightarrow> 0 \<in> set (filename e))"
  proof
    fix e assume e: "e \<in> set (root_directory s)"
    then obtain i where i: "i < length (root_directory s)" "root_directory s ! i = e"
      by (auto simp: in_set_conv_nth)
    then have "in_use e \<noteq> 0 \<Longrightarrow> entry_ok (fat_table s) e"
      using alloc_okD(1)[OF fs_invD(5)[OF assms(1)], of i] by (simp add: used_def)
    with e fs_invD(4)[OF assms(1)] show "length (filename e) = FS_MAX_FILENAME_LENGTH \<and>
        (in_use e \<noteq> 0 \<longrightarrow> 0 \<in> set (filename e))"
      by (auto simp: dir_shape_def entry_ok_def)
  qed
qed

text \<open>The index of a name, when a used entry has it.\<close>

lemma find_file_used:
  assumes "fs_inv s" "used (root_directory s) i"
  shows "find_file_in_directory (cstr (filename (root_directory s ! i))) s = int i"
  using fs_invD(6)[OF assms(1)] assms(2)
  unfolding find_file_eq[OF assms(1) is_cstr_cstr]
  by (intro first_index_unique) (auto simp: used_def unique_names_def)

lemma find_file_cases:
  assumes "fs_inv s" "is_cstr nm"
  obtains (found) i where "find_file_in_directory nm s = int i" "used (root_directory s) i"
      "cstr (filename (root_directory s ! i)) = nm"
  | (missing) "find_file_in_directory nm s = -1"
      "\<And>i. used (root_directory s) i \<Longrightarrow> cstr (filename (root_directory s ! i)) \<noteq> nm"
  unfolding find_file_eq[OF assms]
  by (rule first_index_cases[of 0 "\<lambda>e. in_use e \<noteq> 0 \<and> cstr (filename e) = nm" "root_directory s"])
    (use that in \<open>auto simp: used_def find_file_eq[OF assms]\<close>)

lemma abs_files_used:
  assumes "fs_inv s" "used (root_directory s) i"
  shows "abs_files s (cstr (filename (root_directory s ! i))) = Some (file_data s i)"
  by (simp add: abs_files_def find_file_used[OF assms])

lemma abs_files_Some_iff:
  assumes "fs_inv s"
  shows "abs_files s nm = Some data \<longleftrightarrow> (\<exists>i. used (root_directory s) i \<and>
    cstr (filename (root_directory s ! i)) = nm \<and> data = file_data s i)"
proof
  assume a: "abs_files s nm = Some data"
  then have "is_cstr nm" by (auto simp: abs_files_def Let_def split: if_splits)
  with a show "\<exists>i. used (root_directory s) i \<and> cstr (filename (root_directory s ! i)) = nm \<and>
      data = file_data s i"
    by (rule_tac find_file_cases[OF assms]) (auto simp: abs_files_def)
next
  assume "\<exists>i. used (root_directory s) i \<and> cstr (filename (root_directory s ! i)) = nm \<and>
      data = file_data s i"
  then show "abs_files s nm = Some data" using abs_files_used[OF assms] by auto
qed

lemma abs_files_None_iff:
  assumes "fs_inv s"
  shows "abs_files s nm = None \<longleftrightarrow>
    (\<forall>i. used (root_directory s) i \<longrightarrow> cstr (filename (root_directory s ! i)) \<noteq> nm)"
  using abs_files_Some_iff[OF assms, of nm] by (metis not_Some_eq)

lemma used_name_short:
  assumes "fs_inv s" "used (root_directory s) i"
  shows "length (cstr (filename (root_directory s ! i))) < FS_MAX_FILENAME_LENGTH"
proof -
  have z: "0 \<in> set (filename (root_directory s ! i))"
    using entry_okD(4)[OF alloc_okD(1)[OF fs_invD(5)[OF assms(1)] assms(2)]] .
  have "length (takeWhile (\<lambda>c. c \<noteq> 0) bs) < length bs" if "0 \<in> set bs" for bs :: "byte list"
    using that by (induction bs) auto
  from this[OF z] show ?thesis
    using fs_invD(4)[OF assms(1)] used_less[OF assms(2)] by (simp add: cstr_def dir_shape_def)
qed

lemma abs_files_name_short:
  assumes "fs_inv s" "nm \<in> dom (abs_files s)"
  shows "length nm < FS_MAX_FILENAME_LENGTH"
  using assms by (auto simp: abs_files_Some_iff used_name_short)

lemma dom_abs_files:
  assumes "fs_inv s"
  shows "dom (abs_files s) =
    (\<lambda>i. cstr (filename (root_directory s ! i))) ` {i. used (root_directory s) i}"
  by (auto simp: dom_def abs_files_Some_iff[OF assms])

lemma card_abs_files:
  assumes "fs_inv s"
  shows "card (dom (abs_files s)) = card {i. used (root_directory s) i}"
  unfolding dom_abs_files[OF assms]
  by (rule card_image) (use fs_invD(6)[OF assms] in \<open>auto simp: inj_on_def unique_names_def used_def\<close>)

text \<open>The abstraction after a change of one entry that keeps the data of the others.\<close>

lemma abs_files_update:
  assumes "fs_inv s" "fs_inv s'" "used (root_directory s) i" "used (root_directory s') i"
    and same: "\<And>j. j \<noteq> i \<Longrightarrow> used (root_directory s') j = used (root_directory s) j"
    and data: "\<And>j. j \<noteq> i \<Longrightarrow> used (root_directory s) j \<Longrightarrow>
      cstr (filename (root_directory s' ! j)) = cstr (filename (root_directory s ! j)) \<and>
      file_data s' j = file_data s j"
    and name: "cstr (filename (root_directory s' ! i)) = cstr (filename (root_directory s ! i))"
  shows "abs_files s' = (abs_files s)(cstr (filename (root_directory s ! i)) \<mapsto> file_data s' i)"
proof
  fix nm
  show "abs_files s' nm = ((abs_files s)(cstr (filename (root_directory s ! i)) \<mapsto> file_data s' i)) nm"
  proof (cases "nm = cstr (filename (root_directory s ! i))")
    case True
    then show ?thesis using abs_files_used[OF assms(2,4)] name by simp
  next
    case False
    have "abs_files s' nm = Some x \<longleftrightarrow> abs_files s nm = Some x" for x
      unfolding abs_files_Some_iff[OF assms(1)] abs_files_Some_iff[OF assms(2)]
      using False same data name by (metis (full_types))
    with False show ?thesis by (metis fun_upd_other option.exhaust)
  qed
qed

end
