(* ===== verification/FsFiles.thy ===== *)
theory FsFiles
  imports FsSpec
begin

text \<open>
  The calls of \<^verbatim>\<open>fs.c\<close> that work on names and descriptors, each proved to keep the invariant
  and to do what its specification in \<open>FsSpec\<close> does.
\<close>

lemma FS_NUM [simp]: "FS_MAX_FILES < 2 ^ 32" "FS_MAX_FILE_DESCRIPTORS < 2 ^ 32"
  by (simp_all add: FS_MAX_FILES_def FS_MAX_FILE_DESCRIPTORS_def)

section \<open>fs_create\<close>

lemma free_entry_from_eq: "free_entry_from k es = first_index k (\<lambda>e. in_use e = 0) es"
  by (induction es arbitrary: k) auto

lemma find_free_cases:
  assumes "dir_shape (root_directory s)"
  obtains (full) "find_free_directory_entry s = -1" "card {i. used (root_directory s) i} = FS_MAX_FILES"
  | (free) i where "find_free_directory_entry s = int i" "i < FS_MAX_FILES"
      "\<not> used (root_directory s) i" "card {i. used (root_directory s) i} < FS_MAX_FILES"
proof (rule first_index_cases[of 0 "\<lambda>e. in_use e = 0" "root_directory s"])
  note l = dir_length[OF assms]
  assume a: "first_index 0 (\<lambda>e. in_use e = 0) (root_directory s) = -1"
    "\<And>i. i < length (root_directory s) \<Longrightarrow> in_use (root_directory s ! i) \<noteq> 0"
  then have "{i. used (root_directory s) i} = {..<FS_MAX_FILES}" using l by (auto simp: used_def)
  with a(1) show thesis by (intro full) (simp_all add: find_free_directory_entry_def free_entry_from_eq)
next
  note l = dir_length[OF assms]
  fix i assume a: "first_index 0 (\<lambda>e. in_use e = 0) (root_directory s) = int (0 + i)"
    "i < length (root_directory s)" "in_use (root_directory s ! i) = 0"
  then have "{i. used (root_directory s) i} \<subset> {..<FS_MAX_FILES}" using l by (auto simp: used_def)
  then have "card {i. used (root_directory s) i} < FS_MAX_FILES"
    by (metis card_lessThan finite_lessThan psubset_card_mono)
  with a l show thesis
    by (intro free[of i]) (simp_all add: find_free_directory_entry_def free_entry_from_eq used_def)
qed

definition new_entry :: "cstring \<Rightarrow> dirent \<Rightarrow> dirent" where
  "new_entry nm e = e\<lparr>filename := name_field (filename e) nm, filesize := 0,
     first_block_index := FAT_EOF, in_use := 1\<rparr>"

lemma new_entry_simps [simp]:
  "filesize (new_entry nm e) = 0" "first_block_index (new_entry nm e) = FAT_EOF"
  "in_use (new_entry nm e) = 1" "filename (new_entry nm e) = name_field (filename e) nm"
  by (simp_all add: new_entry_def)

lemma entry_blocks_EOF [simp]: "first_block_index e = FAT_EOF \<Longrightarrow> entry_blocks fat e = []"
  by (rule entry_blocks_eq) simp

lemma dir_shape_update:
  "dir_shape es \<Longrightarrow> length (filename e) = FS_MAX_FILENAME_LENGTH \<Longrightarrow> dir_shape (es[i := e])"
  by (auto simp: dir_shape_def dest!: set_update_subset_insert[THEN subsetD])

lemma alloc_ok_update:
  assumes "alloc_ok fat es" "i < length es" "entry_ok fat e"
    and "\<And>j. used es j \<Longrightarrow> j \<noteq> i \<Longrightarrow> set (entry_blocks fat e) \<inter> set (entry_blocks fat (es ! j)) = {}"
  shows "alloc_ok fat (es[i := e])"
  using assms by (auto simp: alloc_ok_def used_def nth_list_update)

lemma create_inv:
  assumes inv: "fs_inv s" and nm: "is_cstr nm" "length nm < FS_MAX_FILENAME_LENGTH"
    and i: "i < FS_MAX_FILES" "\<not> used (root_directory s) i"
    and fresh: "\<And>j. used (root_directory s) j \<Longrightarrow> cstr (filename (root_directory s ! j)) \<noteq> nm"
  defines "s' \<equiv> s\<lparr>root_directory := (root_directory s)[i := new_entry nm (root_directory s ! i)]\<rparr>"
  shows "fs_inv s'" and "abs_fs s' = (abs_fs s)\<lparr>afiles := (abs_files s)(nm \<mapsto> [])\<rparr>"
proof -
  note I = fs_invD[OF inv]
  let ?e = "new_entry nm (root_directory s ! i)"
  have il: "i < length (root_directory s)" using i I(4) by simp
  then have fl: "length (filename (root_directory s ! i)) = FS_MAX_FILENAME_LENGTH"
    using I(4) by (simp add: dir_shape_def)
  have cs: "cstr (filename ?e) = nm" using cstr_name_field[OF fl nm] by simp
  have used': "used (root_directory s') j \<longleftrightarrow> j = i \<or> used (root_directory s) j" for j
    using il i by (auto simp: s'_def used_update)
  have "entry_ok (fat_table s) ?e"
    using name_field_shape[OF fl] by (simp add: entry_ok_def)
  then have al: "alloc_ok (fat_table s) (root_directory s')"
    unfolding s'_def using I(5) il by (simp add: alloc_ok_update)
  have un: "unique_names (root_directory s')"
    using I(6) used' cs fresh il
    by (auto simp: unique_names_def s'_def nth_list_update)
  have fd: "fds_ok (fd_table s') (root_directory s')"
    using I(7) used' by (auto simp: fds_ok_def s'_def)
  show inv': "fs_inv s'"
    using I al un fd name_field_shape(1)[OF fl]
    by (simp add: fs_inv_def s'_def dir_shape_update)
  have "abs_files s' n = ((abs_files s)(nm \<mapsto> [])) n" for n
  proof -
    have same: "file_data s' j = file_data s j" "root_directory s' ! j = root_directory s ! j"
      if "j \<noteq> i" for j using that by (simp_all add: file_data_def s'_def)
    have new: "file_data s' i = []" "cstr (filename (root_directory s' ! i)) = nm"
      using il cs by (simp_all add: file_data_def s'_def)
    have "abs_files s' n = Some x \<longleftrightarrow> ((abs_files s)(nm \<mapsto> [])) n = Some x" for x
    proof (cases "n = nm")
      case True
      then show ?thesis
        using new fresh same used' abs_files_Some_iff[OF inv', of n x] i by (auto; metis)
    next
      case False
      then show ?thesis
        using new fresh same used' i
        by (simp add: abs_files_Some_iff[OF inv] abs_files_Some_iff[OF inv']) metis
    qed
    then show ?thesis by (metis option.exhaust)
  qed
  then have "abs_files s' = (abs_files s)(nm \<mapsto> [])" ..
  moreover have "abs_handles s' = abs_handles s"
  proof
    fix k
    have "unat (dir_entry_index (fd_table s ! k)) \<noteq> i"
      if "k < FS_MAX_FILE_DESCRIPTORS" "fd_in_use (fd_table s ! k) \<noteq> 0"
      using I(7) that i by (auto simp: fds_ok_def)
    then show "abs_handles s' k = abs_handles s k" by (auto simp: abs_handles_def s'_def)
  qed
  ultimately show "abs_fs s' = (abs_fs s)\<lparr>afiles := (abs_files s)(nm \<mapsto> [])\<rparr>"
    by (simp add: abs_fs_def)
qed

lemma fs_create_sim:
  assumes inv: "fs_inv s" and nm: "is_cstr nm"
  shows "fs_inv (snd (fs_create nm s)) \<and>
    (fst (fs_create nm s), abs_fs (snd (fs_create nm s))) = a_create nm (abs_fs s)"
proof (cases "length nm < FS_MAX_FILENAME_LENGTH")
  case False
  then show ?thesis using inv by (simp add: fs_create_def a_create_def)
next
  case len: True
  note I = fs_invD[OF inv]
  show ?thesis
  proof (rule find_file_cases[OF inv nm])
    fix i assume "find_file_in_directory nm s = int i" "used (root_directory s) i"
      "cstr (filename (root_directory s ! i)) = nm"
    moreover from this have "nm \<in> dom (abs_files s)" using abs_files_used[OF inv] by auto
    ultimately show ?thesis using inv by (simp add: fs_create_def a_create_def)
  next
    assume m: "find_file_in_directory nm s = -1"
      "\<And>i. used (root_directory s) i \<Longrightarrow> cstr (filename (root_directory s ! i)) \<noteq> nm"
    then have nd: "nm \<notin> dom (abs_files s)" using abs_files_None_iff[OF inv, of nm] by (simp add: domIff)
    show ?thesis
    proof (rule find_free_cases[OF I(4)])
      assume "find_free_directory_entry s = -1" "card {i. used (root_directory s) i} = FS_MAX_FILES"
      then show ?thesis
        using inv m len I(1) by (simp add: fs_create_def a_create_def card_abs_files[OF inv])
    next
      fix i assume f: "find_free_directory_entry s = int i" "i < FS_MAX_FILES"
        "\<not> used (root_directory s) i" "card {i. used (root_directory s) i} < FS_MAX_FILES"
      then have "fs_create nm s = (0, s\<lparr>root_directory := (root_directory s)[i :=
          new_entry nm (root_directory s ! i)]\<rparr>)"
        using m len I(1) by (simp add: fs_create_def new_entry_def Let_def)
      then show ?thesis
        using create_inv[OF inv nm len f(2,3) m(2)] nd len f(4)
        by (simp add: a_create_def card_abs_files[OF inv])
    qed
  qed
qed

section \<open>Changing one entry\<close>

text \<open>
  The state after a call replaced entry \<open>i\<close>, the table, the descriptors and the disk.  If the
  new entry is well formed and neither the links nor the bytes of the other files' blocks
  changed, the invariant holds and exactly one file has new data.
\<close>

lemma replace_entry:
  assumes inv: "fs_inv s" and i: "used (root_directory s) i"
    and e': "in_use e' \<noteq> 0" "filename e' = filename (root_directory s ! i)" "entry_ok fat' e'"
    and fat': "length fat' = DISK_BLOCKS" and d': "disk_ready d'"
    and fds: "fds_ok fds' (root_directory s)"
    and frame: "\<And>j b. used (root_directory s) j \<Longrightarrow> j \<noteq> i \<Longrightarrow>
      b \<in> set (entry_blocks (fat_table s) (root_directory s ! j)) \<Longrightarrow>
      fat' ! unat b = fat_table s ! unat b \<and> blk d' (unat b) = blk (fs_disk s) (unat b) \<and>
      b \<notin> set (entry_blocks fat' e')"
  defines "s' \<equiv> s\<lparr>fat_table := fat', root_directory := (root_directory s)[i := e'],
      fd_table := fds', fs_disk := d'\<rparr>"
  shows "fs_inv s'"
    and "abs_files s' = (abs_files s)(cstr (filename (root_directory s ! i)) \<mapsto>
      take (unat (filesize e')) (block_bytes d' (entry_blocks fat' e')))"
proof -
  note I = fs_invD[OF inv]
  have il: "i < length (root_directory s)" using i by (rule used_less)
  have used': "used (root_directory s') j \<longleftrightarrow> used (root_directory s) j" for j
    using il i e'(1) by (auto simp: s'_def used_update)
  have other: "root_directory s' ! j = root_directory s ! j" if "j \<noteq> i" for j
    using that by (simp add: s'_def)
  have blocks: "entry_blocks fat' (root_directory s ! j) = entry_blocks (fat_table s) (root_directory s ! j)"
    if "used (root_directory s) j" "j \<noteq> i" for j
    using that frame by (intro entry_blocks_frame alloc_okD(1)[OF I(5)]) (auto simp: fat' I(3))
  have ok: "entry_ok fat' (root_directory s ! j)" if "used (root_directory s) j" "j \<noteq> i" for j
  proof -
    have "entry_ok (fat_table s) (root_directory s ! j)" using that(1) by (rule alloc_okD(1)[OF I(5)])
    moreover from this have "chain fat' (first_block_index (root_directory s ! j))
        (entry_blocks (fat_table s) (root_directory s ! j))"
      by (rule_tac chain_frame[OF _ _ _ entry_okD(1), where
            I = "- unat ` set (entry_blocks (fat_table s) (root_directory s ! j))"])
        (use that frame fat' I(3) in auto)
    ultimately show ?thesis using blocks[OF that] by (simp add: entry_ok_def)
  qed
  have al: "alloc_ok fat' (root_directory s')"
    unfolding alloc_ok_def
  proof (intro conjI allI impI)
    fix j assume "j < length (root_directory s')" "used (root_directory s') j"
    then show "entry_ok fat' (root_directory s' ! j)"
      using ok[of j] used' e'(3) il other[of j] by (cases "j = i") (auto simp: s'_def)
  next
    fix j k
    assume "j < length (root_directory s')" "k < length (root_directory s')"
      and "used (root_directory s') j \<and> used (root_directory s') k \<and> j \<noteq> k"
    then have u: "used (root_directory s) j" "used (root_directory s) k" "j \<noteq> k" by (auto simp: used')
    have ri: "root_directory s' ! i = e'" using il by (simp add: s'_def)
    show "set (entry_blocks fat' (root_directory s' ! j)) \<inter> set (entry_blocks fat' (root_directory s' ! k)) = {}"
    proof (cases "j = i \<or> k = i")
      case True
      with u show ?thesis using frame[of k] frame[of j] blocks[of k] blocks[of j] other ri by auto
    next
      case False
      with u show ?thesis using blocks other alloc_okD(2)[OF I(5)] by metis
    qed
  qed
  have names: "cstr (filename (root_directory s' ! j)) = cstr (filename (root_directory s ! j))" for j
    using e'(2) il by (cases "j = i") (auto simp: s'_def)
  have "unique_names (root_directory s')"
    using I(6) unfolding unique_names_def used' names by (simp add: s'_def)
  moreover have "dir_shape (root_directory s')"
    using dir_shape_update[OF I(4), of e' i] I(4) il e'(2) by (simp add: s'_def dir_shape_def)
  moreover have "fds_ok (fd_table s') (root_directory s')"
    using fds used' by (simp add: fds_ok_def s'_def)
  ultimately show inv': "fs_inv s'"
    using I al fat' d' by (simp add: fs_inv_def s'_def)
  have data: "file_data s' j = file_data s j" if "used (root_directory s) j" "j \<noteq> i" for j
  proof -
    have "block_bytes d' (entry_blocks (fat_table s) (root_directory s ! j)) =
        block_bytes (fs_disk s) (entry_blocks (fat_table s) (root_directory s ! j))"
      by (rule block_bytes_cong) (use frame that in auto)
    then show ?thesis using that other[of j] blocks[OF that] by (simp add: file_data_def s'_def)
  qed
  have "file_data s' i = take (unat (filesize e')) (block_bytes d' (entry_blocks fat' e'))"
    using il by (simp add: file_data_def s'_def)
  with abs_files_update[OF inv inv' i, of] used' names data i
  show "abs_files s' = (abs_files s)(cstr (filename (root_directory s ! i)) \<mapsto>
      take (unat (filesize e')) (block_bytes d' (entry_blocks fat' e')))" by metis
qed

section \<open>Descriptors\<close>

lemma abs_files_fd_table [simp]: "abs_files (s\<lparr>fd_table := fds\<rparr>) = abs_files s"
  by (rule ext) (simp add: abs_files_def find_file_in_directory_def file_data_def Let_def)

text \<open>A valid descriptor of a state that satisfies the invariant, and its abstract handle.\<close>

lemma fd_cases:
  assumes inv: "fs_inv s"
  obtains (bad) "\<not> valid_fd fildes s" "a_handle fildes (abs_fs s) = None"
  | (good) k i where "valid_fd fildes s" "fildes = int k" "k < FS_MAX_FILE_DESCRIPTORS"
      "i = unat (dir_entry_index (fd_table s ! k))" "used (root_directory s) i"
      "fd_entry fildes s = Some (root_directory s ! i)"
      "abs_handles s k = Some (cstr (filename (root_directory s ! i)), unat (fd_offset (fd_table s ! k)))"
      "a_handle fildes (abs_fs s) =
        Some (cstr (filename (root_directory s ! i)), unat (fd_offset (fd_table s ! k)))"
      "unat (fd_offset (fd_table s ! k)) \<le> DISK_BLOCKS * BLOCK_SIZE"
      "abs_files s (cstr (filename (root_directory s ! i))) = Some (file_data s i)"
proof (cases "valid_fd fildes s")
  case False
  then show thesis
    by (intro bad) (auto simp: valid_fd_def a_handle_def abs_handles_def nat_less_iff)
next
  case True
  define k where "k = nat fildes"
  define i where "i = unat (dir_entry_index (fd_table s ! k))"
  have k: "fildes = int k" "k < FS_MAX_FILE_DESCRIPTORS" "fd_in_use (fd_table s ! k) \<noteq> 0"
    using True by (auto simp: valid_fd_def k_def)
  then have "fd_table s ! k \<in> set (fd_table s)"
    using fs_invD(7)[OF inv] by (simp add: fds_ok_def)
  then have u: "used (root_directory s) i" "unat (fd_offset (fd_table s ! k)) \<le> DISK_BLOCKS * BLOCK_SIZE"
    using fs_invD(7)[OF inv] k(3) by (auto simp: fds_ok_def i_def)
  have h: "abs_handles s k = Some (cstr (filename (root_directory s ! i)), unat (fd_offset (fd_table s ! k)))"
    using k by (simp add: abs_handles_def i_def)
  show thesis
  proof (rule good[of k i])
    show "fd_entry fildes s = Some (root_directory s ! i)"
      using u k(1) by (simp add: fd_entry_def used_def flip: i_def)
    show "a_handle fildes (abs_fs s) =
        Some (cstr (filename (root_directory s ! i)), unat (fd_offset (fd_table s ! k)))"
      using h k(1) by (simp add: a_handle_def)
    show "abs_files s (cstr (filename (root_directory s ! i))) = Some (file_data s i)"
      by (rule abs_files_used[OF inv u(1)])
  qed (use True k u h in \<open>simp_all add: i_def\<close>)
qed

lemma fds_ok_offset:
  assumes "fds_ok fds es" "k < FS_MAX_FILE_DESCRIPTORS" "unat off \<le> DISK_BLOCKS * BLOCK_SIZE"
  shows "fds_ok (fds[k := (fds ! k)\<lparr>fd_offset := off\<rparr>]) es"
  using assms by (auto simp: fds_ok_def in_set_conv_nth nth_list_update all_set_conv_all_nth)

lemma abs_handles_offset:
  assumes "fs_inv s" "k < FS_MAX_FILE_DESCRIPTORS" "abs_handles s k = Some (nm, o')"
    and "fd_table s' = (fd_table s)[k := (fd_table s ! k)\<lparr>fd_offset := off\<rparr>]"
    and "\<And>j. cstr (filename (root_directory s' ! j)) = cstr (filename (root_directory s ! j))"
  shows "abs_handles s' = (abs_handles s)(k \<mapsto> (nm, unat off))"
proof
  have l: "length (fd_table s) = FS_MAX_FILE_DESCRIPTORS"
    using fs_invD(7)[OF assms(1)] by (simp add: fds_ok_def)
  fix n
  show "abs_handles s' n = ((abs_handles s)(k \<mapsto> (nm, unat off))) n"
    using assms(2-) l by (cases "n = k") (auto simp: abs_handles_def split: if_splits)
qed

lemma fs_open_sim:
  assumes inv: "fs_inv s" and nm: "is_cstr nm"
  shows "fs_inv (snd (fs_open nm s)) \<and>
    (fst (fs_open nm s), abs_fs (snd (fs_open nm s))) = a_open nm (abs_fs s)"
proof (rule find_file_cases[OF inv nm])
  assume "find_file_in_directory nm s = -1"
    "\<And>i. used (root_directory s) i \<Longrightarrow> cstr (filename (root_directory s ! i)) \<noteq> nm"
  then have "nm \<notin> dom (abs_files s)" "find_file_in_directory nm s = -1"
    using abs_files_None_iff[OF inv, of nm] by (auto simp: domIff)
  then show ?thesis using inv by (simp add: fs_open_def a_open_def)
next
  note I = fs_invD[OF inv]
  fix i assume i: "find_file_in_directory nm s = int i" "used (root_directory s) i"
    "cstr (filename (root_directory s ! i)) = nm"
  then have nd: "nm \<in> dom (abs_files s)" using abs_files_used[OF inv] by auto
  have il: "i < 2 ^ 32" using used_less[OF i(2)] I(4) order.strict_trans[OF _ FS_NUM(1)] by simp
  have l: "length (fd_table s) = FS_MAX_FILE_DESCRIPTORS" using I(7) by (simp add: fds_ok_def)
  have fi: "free_fd_from k fds = first_index k (\<lambda>f. fd_in_use f = 0) fds" for k fds
    by (induction fds arbitrary: k) auto
  have "find (\<lambda>k. abs_handles s k = None) [0..<FS_MAX_FILE_DESCRIPTORS]
      = find (\<lambda>k. fd_in_use (fd_table s ! k) = 0) [0..<FS_MAX_FILE_DESCRIPTORS]"
    by (rule find_cong) (auto simp: abs_handles_def)
  then have fr: "free_fd_from 0 (fd_table s) =
      (case find (\<lambda>k. abs_handles s k = None) [0..<FS_MAX_FILE_DESCRIPTORS] of None \<Rightarrow> -1 | Some k \<Rightarrow> int k)"
    by (simp add: fi first_index_find l)
  show ?thesis
  proof (cases "find (\<lambda>k. abs_handles s k = None) [0..<FS_MAX_FILE_DESCRIPTORS]")
    case None
    then show ?thesis using inv i I(1) nd fr by (simp add: fs_open_def a_open_def)
  next
    case (Some k)
    then have k: "k < FS_MAX_FILE_DESCRIPTORS" by (auto simp: find_Some_iff)
    let ?f = "\<lparr>fd_in_use = 1, dir_entry_index = of_nat i, fd_offset = 0\<rparr>"
    let ?s = "s\<lparr>fd_table := (fd_table s)[k := ?f]\<rparr>"
    have "fds_ok (fd_table ?s) (root_directory s)"
      using I(7) k i(2) il by (auto simp: fds_ok_def dest!: set_update_subset_insert[THEN subsetD])
    then have inv': "fs_inv ?s" using I by (simp add: fs_inv_def)
    have "abs_handles ?s = (abs_handles s)(k \<mapsto> (nm, 0))"
    proof
      fix n
      show "abs_handles ?s n = ((abs_handles s)(k \<mapsto> (nm, 0))) n"
        using k l i(3) il by (cases "n = k") (auto simp: abs_handles_def)
    qed
    moreover have "fs_open nm s = (int k, ?s)"
      using i(1) I(1) fr Some by (simp add: fs_open_def)
    ultimately show ?thesis using inv' nd Some by (simp add: a_open_def abs_fs_def)
  qed
qed

lemma fs_close_sim:
  assumes inv: "fs_inv s"
  shows "fs_inv (snd (fs_close fd s)) \<and>
    (fst (fs_close fd s), abs_fs (snd (fs_close fd s))) = a_close fd (abs_fs s)"
proof (rule fd_cases[OF inv, of fd])
  assume "\<not> valid_fd fd s" "a_handle fd (abs_fs s) = None"
  then show ?thesis using inv by (simp add: fs_close_def a_close_def)
next
  note I = fs_invD[OF inv]
  fix k i assume a: "valid_fd fd s" "fd = int k" "k < FS_MAX_FILE_DESCRIPTORS"
    "a_handle fd (abs_fs s) =
      Some (cstr (filename (root_directory s ! i)), unat (fd_offset (fd_table s ! k)))"
  have l: "length (fd_table s) = FS_MAX_FILE_DESCRIPTORS" using I(7) by (simp add: fds_ok_def)
  let ?s = "s\<lparr>fd_table := (fd_table s)[k := (fd_table s ! k)\<lparr>fd_in_use := 0\<rparr>]\<rparr>"
  have "fds_ok (fd_table ?s) (root_directory s)"
    using I(7) by (auto simp: fds_ok_def dest!: set_update_subset_insert[THEN subsetD])
  then have inv': "fs_inv ?s" using I by (simp add: fs_inv_def)
  have "abs_handles ?s = (abs_handles s)(k := None)"
  proof
    fix n show "abs_handles ?s n = ((abs_handles s)(k := None)) n"
      using a(3) l by (cases "n = k") (auto simp: abs_handles_def)
  qed
  then show ?thesis using inv' a by (simp add: fs_close_def a_close_def abs_fs_def)
qed

section \<open>fs_lseek and fs_get_filesize\<close>

lemma length_file_data:
  assumes "fs_inv s" "used (root_directory s) i"
  shows "length (file_data s i) = unat (filesize (root_directory s ! i))"
    and "length (file_data s i) \<le> (DISK_BLOCKS - 4) * BLOCK_SIZE"
proof -
  have e: "entry_ok (fat_table s) (root_directory s ! i)"
    using alloc_okD(1)[OF fs_invD(5)[OF assms(1)] assms(2)] .
  show l: "length (file_data s i) = unat (filesize (root_directory s ! i))"
    using entry_okD(3)[OF e] by (simp add: file_data_def Let_def)
  show "length (file_data s i) \<le> (DISK_BLOCKS - 4) * BLOCK_SIZE"
    unfolding l using entry_size_bound(2)[OF e] .
qed

lemma set_fd_offset_sim:
  assumes inv: "fs_inv s" and k: "k < FS_MAX_FILE_DESCRIPTORS"
    and h: "abs_handles s k = Some (nm, o')" and off: "unat off \<le> DISK_BLOCKS * BLOCK_SIZE"
  shows "fs_inv (set_fd_offset (int k) off s)"
    and "abs_fs (set_fd_offset (int k) off s) =
      (abs_fs s)\<lparr>ahandles := (abs_handles s)(k \<mapsto> (nm, unat off))\<rparr>"
proof -
  let ?s = "set_fd_offset (int k) off s"
  show "fs_inv ?s"
    using fs_invD[OF inv] fds_ok_offset[OF _ k off] by (simp add: fs_inv_def set_fd_offset_def)
  have "abs_handles ?s = (abs_handles s)(k \<mapsto> (nm, unat off))"
    by (rule abs_handles_offset[OF inv k h]) (simp_all add: set_fd_offset_def)
  then show "abs_fs ?s = (abs_fs s)\<lparr>ahandles := (abs_handles s)(k \<mapsto> (nm, unat off))\<rparr>"
    by (simp add: abs_fs_def set_fd_offset_def)
qed

lemma fs_lseek_sim:
  assumes inv: "fs_inv s"
  shows "\<exists>r s'. fs_lseek fd offset s = Some (r, s') \<and> fs_inv s' \<and>
    (r, abs_fs s') = a_lseek fd offset (abs_fs s)"
proof (rule fd_cases[OF inv, of fd])
  assume "\<not> valid_fd fd s" "a_handle fd (abs_fs s) = None"
  then show ?thesis using inv by (simp add: fs_lseek_def a_lseek_def)
next
  fix k i
  assume a: "valid_fd fd s" "fd = int k" "k < FS_MAX_FILE_DESCRIPTORS"
    "used (root_directory s) i" "fd_entry fd s = Some (root_directory s ! i)"
    "abs_handles s k = Some (cstr (filename (root_directory s ! i)), unat (fd_offset (fd_table s ! k)))"
    "a_handle fd (abs_fs s) =
      Some (cstr (filename (root_directory s ! i)), unat (fd_offset (fd_table s ! k)))"
    "abs_files s (cstr (filename (root_directory s ! i))) = Some (file_data s i)"
  note len = length_file_data[OF inv a(4)]
  have m: "mounted s" by (rule fs_invD(1)[OF inv])
  show ?thesis
  proof (cases "offset < 0 \<or> int (length (file_data s i)) < offset")
    case True
    then show ?thesis using inv a m len by (auto simp: fs_lseek_def a_lseek_def)
  next
    case False
    define n where "n = nat offset"
    have n: "offset = int n" "n \<le> length (file_data s i)" using False by (auto simp: n_def)
    have b: "n \<le> DISK_BLOCKS * BLOCK_SIZE" "n < 2 ^ 32"
      using n(2) len(2) by (simp_all add: DISK_BYTES)
    have "fs_lseek fd offset s = Some (0, set_fd_offset (int k) (of_nat n) s)"
      using False a m n len by (auto simp: fs_lseek_def)
    moreover have "unat (of_nat n :: u32) = n" using b(2) by simp
    ultimately show ?thesis
      using set_fd_offset_sim[OF inv a(3,6), of "of_nat n"] False a b n
      by (simp add: a_lseek_def)
  qed
qed

lemma fs_get_filesize_sim:
  assumes inv: "fs_inv s"
  shows "fs_get_filesize fd s = Some (a_size fd (abs_fs s))"
proof (rule fd_cases[OF inv, of fd])
  assume "\<not> valid_fd fd s" "a_handle fd (abs_fs s) = None"
  then show ?thesis by (simp add: fs_get_filesize_def a_size_def)
next
  fix k i
  assume a: "valid_fd fd s" "used (root_directory s) i" "fd_entry fd s = Some (root_directory s ! i)"
    "a_handle fd (abs_fs s) =
      Some (cstr (filename (root_directory s ! i)), unat (fd_offset (fd_table s ! k)))"
    "abs_files s (cstr (filename (root_directory s ! i))) = Some (file_data s i)"
  have "unat (filesize (root_directory s ! i)) < 2 ^ 31"
    using length_file_data[OF inv a(2)] by (simp add: DISK_BYTES)
  then show ?thesis using a fs_invD(1)[OF inv] length_file_data(1)[OF inv a(2)]
    by (simp add: fs_get_filesize_def a_size_def sint_small)
qed

section \<open>fs_delete\<close>

lemma delete_entry:
  assumes inv: "fs_inv s" and i: "used (root_directory s) i"
    and fat': "length fat' = DISK_BLOCKS" and d': "disk_ready d'"
    and frame: "\<And>j b. used (root_directory s) j \<Longrightarrow> j \<noteq> i \<Longrightarrow>
      b \<in> set (entry_blocks (fat_table s) (root_directory s ! j)) \<Longrightarrow>
      fat' ! unat b = fat_table s ! unat b \<and> blk d' (unat b) = blk (fs_disk s) (unat b)"
    and closed: "\<And>f. f \<in> set (fd_table s) \<Longrightarrow> fd_in_use f \<noteq> 0 \<Longrightarrow> unat (dir_entry_index f) \<noteq> i"
  defines "s' \<equiv> s\<lparr>fat_table := fat', root_directory := (root_directory s)[i := zero_dirent],
      fs_disk := d'\<rparr>"
  shows "fs_inv s'"
    and "abs_fs s' = (abs_fs s)\<lparr>afiles := (abs_files s)(cstr (filename (root_directory s ! i)) := None)\<rparr>"
proof -
  note I = fs_invD[OF inv]
  have il: "i < length (root_directory s)" using i by (rule used_less)
  have used': "used (root_directory s') j \<longleftrightarrow> j \<noteq> i \<and> used (root_directory s) j" for j
    using il by (auto simp: s'_def used_update zero_dirent_def)
  have other: "root_directory s' ! j = root_directory s ! j" if "j \<noteq> i" for j
    using that by (simp add: s'_def)
  have blocks: "entry_blocks fat' (root_directory s ! j) = entry_blocks (fat_table s) (root_directory s ! j)"
    if "used (root_directory s) j" "j \<noteq> i" for j
    using that frame by (intro entry_blocks_frame alloc_okD(1)[OF I(5)]) (auto simp: fat' I(3))
  have ok: "entry_ok fat' (root_directory s ! j)" if "used (root_directory s) j" "j \<noteq> i" for j
  proof -
    have "entry_ok (fat_table s) (root_directory s ! j)" using that(1) by (rule alloc_okD(1)[OF I(5)])
    moreover from this have "chain fat' (first_block_index (root_directory s ! j))
        (entry_blocks (fat_table s) (root_directory s ! j))"
      by (rule_tac chain_frame[OF _ _ _ entry_okD(1), where
            I = "- unat ` set (entry_blocks (fat_table s) (root_directory s ! j))"])
        (use that frame fat' I(3) in auto)
    ultimately show ?thesis using blocks[OF that] by (simp add: entry_ok_def)
  qed
  have "alloc_ok fat' (root_directory s')"
    using ok blocks other used' alloc_okD(2)[OF I(5)] by (simp add: alloc_ok_def)
  moreover have "unique_names (root_directory s')"
    using I(6) used' other by (auto simp: unique_names_def s'_def)
  moreover have "dir_shape (root_directory s')"
    unfolding s'_def using I(4) by (simp add: dir_shape_update zero_dirent_def)
  moreover have "fds_ok (fd_table s') (root_directory s')"
    using I(7) used' closed by (auto simp: fds_ok_def s'_def)
  ultimately show inv': "fs_inv s'"
    using I fat' d' by (simp add: fs_inv_def s'_def)
  have data: "file_data s' j = file_data s j" if "used (root_directory s) j" "j \<noteq> i" for j
  proof -
    have "block_bytes d' (entry_blocks (fat_table s) (root_directory s ! j)) =
        block_bytes (fs_disk s) (entry_blocks (fat_table s) (root_directory s ! j))"
      by (rule block_bytes_cong) (use frame that in auto)
    then show ?thesis using that other[of j] blocks[OF that] by (simp add: file_data_def s'_def)
  qed
  let ?nm = "cstr (filename (root_directory s ! i))"
  have "abs_files s' nm = ((abs_files s)(?nm := None)) nm" for nm
  proof -
    have "abs_files s' nm = Some x \<longleftrightarrow> ((abs_files s)(?nm := None)) nm = Some x" for x
    proof (cases "nm = ?nm")
      case True
      have "\<not> (used (root_directory s) j \<and> cstr (filename (root_directory s ! j)) = ?nm)" if "j \<noteq> i" for j
        using I(6) i that by (auto simp: unique_names_def used_def)
      then show ?thesis using True used' other by (simp add: abs_files_Some_iff[OF inv']) metis
    next
      case False
      then show ?thesis using used' other data
        by (simp add: abs_files_Some_iff[OF inv'] abs_files_Some_iff[OF inv]) metis
    qed
    then show ?thesis by (metis option.exhaust)
  qed
  then have "abs_files s' = (abs_files s)(?nm := None)" ..
  moreover have "abs_handles s' = abs_handles s"
  proof
    fix k
    have "unat (dir_entry_index (fd_table s ! k)) \<noteq> i"
      if "k < FS_MAX_FILE_DESCRIPTORS" "fd_in_use (fd_table s ! k) \<noteq> 0"
      using I(7) that closed[of "fd_table s ! k"] by (simp add: fds_ok_def)
    then show "abs_handles s' k = abs_handles s k" by (auto simp: abs_handles_def s'_def)
  qed
  ultimately show "abs_fs s' = (abs_fs s)\<lparr>afiles := (abs_files s)(?nm := None)\<rparr>"
    by (simp add: abs_fs_def)
qed

text \<open>A file is open when some handle has its name.\<close>

lemma is_open_iff:
  assumes inv: "fs_inv s" and i: "used (root_directory s) i"
  shows "is_open (int i) s \<longleftrightarrow>
    cstr (filename (root_directory s ! i)) \<in> fst ` ran (abs_handles s)"
proof
  have l: "length (fd_table s) = FS_MAX_FILE_DESCRIPTORS"
    using fs_invD(7)[OF inv] by (simp add: fds_ok_def)
  assume "is_open (int i) s"
  then obtain k where k: "k < FS_MAX_FILE_DESCRIPTORS" "fd_in_use (fd_table s ! k) \<noteq> 0"
    "uint (dir_entry_index (fd_table s ! k)) = int i"
    using l by (auto simp: is_open_def in_set_conv_nth)
  then have "unat (dir_entry_index (fd_table s ! k)) = i" by (metis nat_int unat_eq_nat_uint)
  with k(1,2) have "abs_handles s k =
      Some (cstr (filename (root_directory s ! i)), unat (fd_offset (fd_table s ! k)))"
    by (simp add: abs_handles_def)
  then show "cstr (filename (root_directory s ! i)) \<in> fst ` ran (abs_handles s)"
    by (force simp: ran_def image_iff)
next
  assume "cstr (filename (root_directory s ! i)) \<in> fst ` ran (abs_handles s)"
  then obtain k where k: "k < FS_MAX_FILE_DESCRIPTORS" "fd_in_use (fd_table s ! k) \<noteq> 0"
    "cstr (filename (root_directory s ! unat (dir_entry_index (fd_table s ! k)))) =
      cstr (filename (root_directory s ! i))"
    by (auto simp: ran_def abs_handles_def split: if_splits)
  then have "fd_table s ! k \<in> set (fd_table s)" using fs_invD(7)[OF inv] by (simp add: fds_ok_def)
  moreover from this k(2) have "used (root_directory s) (unat (dir_entry_index (fd_table s ! k)))"
    using fs_invD(7)[OF inv] by (auto simp: fds_ok_def)
  then have "unat (dir_entry_index (fd_table s ! k)) = i"
    using fs_invD(6)[OF inv] i k(3) by (auto simp: unique_names_def used_def)
  ultimately show "is_open (int i) s" using k(2)
    by (auto simp: is_open_def intro!: bexI[of _ "fd_table s ! k"])
qed

lemma fs_delete_sim:
  assumes inv: "fs_inv s" and nm: "is_cstr nm"
  shows "\<exists>r s'. fs_delete (Some nm) s = Some (r, s') \<and> fs_inv s' \<and>
    (r, abs_fs s') = a_delete nm (abs_fs s)"
proof (rule find_file_cases[OF inv nm])
  assume "find_file_in_directory nm s = -1"
    "\<And>i. used (root_directory s) i \<Longrightarrow> cstr (filename (root_directory s ! i)) \<noteq> nm"
  then have "nm \<notin> dom (abs_files s)" "find_file_in_directory nm s = -1"
    using abs_files_None_iff[OF inv, of nm] by (auto simp: domIff)
  then show ?thesis using inv by (simp add: fs_delete_def a_delete_def)
next
  note I = fs_invD[OF inv]
  fix i assume i: "find_file_in_directory nm s = int i" "used (root_directory s) i"
    "cstr (filename (root_directory s ! i)) = nm"
  then have nd: "nm \<in> dom (abs_files s)" using abs_files_used[OF inv] by auto
  then have short: "length nm < FS_MAX_FILENAME_LENGTH" by (rule abs_files_name_short[OF inv])
  show ?thesis
  proof (cases "is_open (int i) s")
    case True
    then show ?thesis using inv i is_open_iff[OF inv i(2)] short by (simp add: fs_delete_def a_delete_def)
  next
    case False
    let ?bs = "entry_blocks (fat_table s) (root_directory s ! i)"
    have e: "entry_ok (fat_table s) (root_directory s ! i)" using alloc_okD(1)[OF I(5) i(2)] .
    have "FAT_FREE \<notin> set ?bs" using entry_okD(2)[OF e] data_block_neq(1) by blast
    from free_block_chain_spec[OF entry_okD(1)[OF e] this] obtain fat where
      fat: "free_block_chain (first_block_index (root_directory s ! i)) (fat_table s) = Some fat"
        "length fat = length (fat_table s)"
        "\<forall>j < length (fat_table s). fat ! j = (if j \<in> unat ` set ?bs then FAT_FREE else fat_table s ! j)"
      by auto
    let ?s = "s\<lparr>fat_table := fat, root_directory := (root_directory s)[i := zero_dirent]\<rparr>"
    have "fs_static ?s"
      using I(10) fat(2) by (simp add: fs_static_def dir_shape_update zero_dirent_def)
    from write_metadata_frame[OF this] obtain d' where
      d': "write_metadata_to_disk ?s = Some (?s\<lparr>fs_disk := d'\<rparr>)" "disk_ready d'"
        "\<And>b. data_block b \<Longrightarrow> blk d' (unat b) = blk (fs_disk s) (unat b)" by auto
    have fr: "fat ! unat b = fat_table s ! unat b \<and> blk d' (unat b) = blk (fs_disk s) (unat b)"
      if "used (root_directory s) j" "j \<noteq> i"
        "b \<in> set (entry_blocks (fat_table s) (root_directory s ! j))" for j b
    proof -
      have "b \<notin> set ?bs" using alloc_okD(2)[OF I(5) i(2) that(1)] that(2,3) by auto
      moreover have "data_block b" using entry_okD(2)[OF alloc_okD(1)[OF I(5) that(1)] that(3)] .
      ultimately show ?thesis using fat(3) d'(3) I(3) by (simp add: data_block_def)
    qed
    have cl: "unat (dir_entry_index f) \<noteq> i" if "f \<in> set (fd_table s)" "fd_in_use f \<noteq> 0" for f
      using False that by (auto simp: is_open_def)
    have "fat_table ?s = fat" "length fat = DISK_BLOCKS" using fat(2) I(3) by simp_all
    note del = delete_entry[OF inv i(2) \<open>length fat = DISK_BLOCKS\<close> d'(2) fr cl]
    have "fs_delete (Some nm) s = Some (0, ?s\<lparr>fs_disk := d'\<rparr>)"
      using i(1) I(1) short False fat(1) d'(1) by (simp add: fs_delete_def)
    then show ?thesis using del nd i(3) is_open_iff[OF inv i(2)] False
      by (simp add: a_delete_def)
  qed
qed

end
