(* ===== verification/FsMount.thy ===== *)
theory FsMount
  imports FsFiles
begin

text \<open>
  Making, mounting and unmounting: what \<open>mount_fs\<close> reads back is what \<open>write_metadata_to_disk\<close>
  wrote.  The superblock, the directory and the first \<open>STORED\<close> entries of the table return; the
  two table blocks of the superblock hold no more, so the rest of the table is whatever the
  fresh allocation contains.
\<close>

section \<open>An image on the host\<close>

text \<open>Table entries that two blocks hold.\<close>

definition STORED :: nat where "STORED = 2 * ENTRIES"

lemma STORED_eq: "STORED = 2048" "STORED < DISK_BLOCKS"
  by (simp_all add: STORED_def ENTRIES_def BLOCK_SIZE_def DISK_BLOCKS_def)

definition meta_image :: "vfile \<Rightarrow> u32 list \<Rightarrow> dirent list \<Rightarrow> bool" where
  "meta_image f fat es \<longleftrightarrow> (\<forall>(b, buf) \<in> set (meta_writes fat es). file_blk f b = buf)"

lemma meta_imageD:
  assumes "meta_image f fat es"
  shows "file_blk f 0 = patch (replicate BLOCK_SIZE 0) 0 (enc_superblock std_superblock)"
    and "file_blk f 1 = enc_words (take ENTRIES fat)"
    and "file_blk f 2 = enc_words (take ENTRIES (drop ENTRIES fat))"
    and "file_blk f 3 = patch (replicate BLOCK_SIZE 0) 0 (enc_dir es)"
  using assms by (simp_all add: meta_image_def meta_writes_def)

lemma read_fat_blocks_2:
  assumes "disk_ready d" "length buf = BLOCK_SIZE" "STORED \<le> length fat"
  shows "read_fat_blocks 2 0 1 0 fat buf d = Some (Some
    (patch fat 0 (dec_words ENTRIES (blk d 1) @ dec_words ENTRIES (blk d 2)), blk d 2))"
proof -
  have r1: "block_read 1 buf d = (0, blk d 1)"
    using vdisk.read_law[OF assms(1) _ assms(2), of 1] by (simp add: DISK_BLOCKS_def)
  have r2: "block_read 2 (blk d 1) d = (0, blk d 2)"
    using vdisk.read_law[OF assms(1), of 2 "blk d 1"] by (simp add: DISK_BLOCKS_def)
  have l: "ENTRIES \<le> length fat" "ENTRIES + ENTRIES \<le> length fat" using assms(3) by (simp_all add: STORED_def)
  have "patch (patch fat 0 (dec_words ENTRIES (blk d 1))) ENTRIES (dec_words ENTRIES (blk d 2)) =
      patch fat 0 (dec_words ENTRIES (blk d 1) @ dec_words ENTRIES (blk d 2))"
    using patch_patch_adjacent[of 0 "dec_words ENTRIES (blk d 1)" "dec_words ENTRIES (blk d 2)" fat] l by simp
  then show ?thesis using r1 r2 l by (simp add: numeral_2_eq_2)
qed

lemma dec_stored:
  assumes "length fat = DISK_BLOCKS" "meta_image f fat es"
  shows "dec_words ENTRIES (file_blk f 1) @ dec_words ENTRIES (file_blk f 2) = take STORED fat"
proof -
  have l: "length (take ENTRIES fat) = ENTRIES" "length (take ENTRIES (drop ENTRIES fat)) = ENTRIES"
    using assms(1) STORED_eq(2) by (simp_all add: STORED_def)
  have "dec_words ENTRIES (enc_words (take ENTRIES fat)) = take ENTRIES fat"
    using dec_words_enc_words[of "take ENTRIES fat" "[]"] l by simp
  moreover have "dec_words ENTRIES (enc_words (take ENTRIES (drop ENTRIES fat))) = take ENTRIES (drop ENTRIES fat)"
    using dec_words_enc_words[of "take ENTRIES (drop ENTRIES fat)" "[]"] l by simp
  ultimately show ?thesis
    using meta_imageD(2,3)[OF assms(2)] take_add[of ENTRIES ENTRIES fat] by (simp add: STORED_def mult_2)
qed

text \<open>The table after mounting: the stored part, then the contents of the allocation.\<close>

definition remounted :: "(nat \<Rightarrow> u32) \<Rightarrow> u32 list \<Rightarrow> u32 list" where
  "remounted heap fat = take STORED fat @ map heap [STORED..<DISK_BLOCKS]"

lemma remounted_nth:
  assumes "length fat = DISK_BLOCKS" "i < DISK_BLOCKS"
  shows "remounted heap fat ! i = (if i < STORED then fat ! i else heap i)"
  using assms STORED_eq(2) by (auto simp: remounted_def nth_append)

lemma length_remounted [simp]: "length fat = DISK_BLOCKS \<Longrightarrow> length (remounted heap fat) = DISK_BLOCKS"
  using STORED_eq(2) by (simp add: remounted_def)

definition host_image :: "cstring \<Rightarrow> u32 list \<Rightarrow> dirent list \<Rightarrow> disk \<Rightarrow> bool" where
  "host_image n fat es d \<longleftrightarrow> \<not> active d \<and> healthy (host d) \<and> may_open (host d) n \<and>
     (case files (host d) n of None \<Rightarrow> False | Some f \<Rightarrow> whole_image f \<and> meta_image f fat es)"

lemma mount_image:
  assumes im: "host_image n fat es (fs_disk s)" and shape: "length fat = DISK_BLOCKS" "dir_shape es"
    and s: "\<not> mounted s" "length (stack s) = BLOCK_SIZE"
  shows "mount_fs True heap (Some n) s = Some (0, s\<lparr>superblock := std_superblock,
    fat_table := remounted heap fat, root_directory := es, mounted := True,
    fd_table := replicate FS_MAX_FILE_DESCRIPTORS zero_fdesc,
    fs_disk := (fs_disk s)\<lparr>handle := Some n, active := True\<rparr>\<rparr>)"
    and "disk_ready ((fs_disk s)\<lparr>handle := Some n, active := True\<rparr>)"
proof -
  obtain f where f: "\<not> active (fs_disk s)" "healthy (host (fs_disk s))" "may_open (host (fs_disk s)) n"
    "files (host (fs_disk s)) n = Some f" "whole_image f" "meta_image f fat es"
    using im by (auto simp: host_image_def split: option.splits)
  define d where "d = (fs_disk s)\<lparr>handle := Some n, active := True\<rparr>"
  show rdy: "disk_ready ((fs_disk s)\<lparr>handle := Some n, active := True\<rparr>)"
    using f by (simp add: disk_ready_def)
  have bl: "blk d b = file_blk f b" for b using f(4) by (simp add: blk_def d_def)
  have opn: "open_disk (Some n) (fs_disk s) = (0, d)" using f by (simp add: open_disk_def d_def)
  have rd: "block_read (int b) buf d = (0, file_blk f b)" if "b < DISK_BLOCKS" "length buf = BLOCK_SIZE" for b buf
    using vdisk.read_law[OF rdy that] by (simp add: bl flip: d_def)
  have r0: "block_read 0 (stack s) d = (0, file_blk f 0)"
    using rd[of 0 "stack s"] s(2) by (simp add: DISK_BLOCKS_def)
  have r3: "block_read 3 (file_blk f 2) d = (0, file_blk f 3)"
    using rd[of 3 "file_blk f 2"] by (simp add: DISK_BLOCKS_def)
  have sb: "dec_superblock (file_blk f 0) = std_superblock"
    unfolding meta_imageD(1)[OF f(6)] by (simp add: patch_def superblock_roundtrip)
  have dir: "dec_dir (file_blk f 3) = es"
    unfolding meta_imageD(4)[OF f(6)] by (simp add: patch_def dir_roundtrip[OF shape(2)])
  have tot: "unat (of_nat DISK_BLOCKS :: u32) = DISK_BLOCKS" by (simp add: DISK_BLOCKS_def)
  have fat: "read_fat_blocks 2 0 1 0 (map heap [0..<DISK_BLOCKS]) (file_blk f 0) d =
      Some (Some (remounted heap fat, file_blk f 2))"
  proof -
    have "STORED \<le> length (map heap [0..<DISK_BLOCKS])" using STORED_eq(2) by simp
    from read_fat_blocks_2[OF rdy[folded d_def] length_file_blk this, of f 0]
    have "read_fat_blocks 2 0 1 0 (map heap [0..<DISK_BLOCKS]) (file_blk f 0) d =
        Some (Some (patch (map heap [0..<DISK_BLOCKS]) 0 (take STORED fat), file_blk f 2))"
      unfolding bl dec_stored[OF shape(1) f(6)] .
    moreover have "patch (map heap [0..<DISK_BLOCKS]) 0 (take STORED fat) = remounted heap fat"
      using STORED_eq(2) shape(1) by (simp add: patch_def remounted_def drop_map min_absorb1)
    ultimately show ?thesis by simp
  qed
  have std: "magic_number std_superblock = FS_MAGIC_NUMBER" "fat_block_count std_superblock = 2"
    "total_blocks std_superblock = of_nat DISK_BLOCKS" "fat_start_block std_superblock = 1"
    "dir_start_block std_superblock = 3"
    by (simp_all add: std_superblock_def)
  show "mount_fs True heap (Some n) s = Some (0, s\<lparr>superblock := std_superblock,
    fat_table := remounted heap fat, root_directory := es, mounted := True,
    fd_table := replicate FS_MAX_FILE_DESCRIPTORS zero_fdesc,
    fs_disk := (fs_disk s)\<lparr>handle := Some n, active := True\<rparr>\<rparr>)"
    using s(1) opn r0 sb fat r3 dir by (simp add: mount_fs_def std tot d_def)
qed

section \<open>Making a file system\<close>

lemma zero_dir_shape: "dir_shape (replicate FS_MAX_FILES zero_dirent)"
  by (simp add: dir_shape_def zero_dirent_def)

lemma make_fs_spec:
  assumes "\<not> active (fs_disk s)" "healthy (host (fs_disk s))" "may_create (host (fs_disk s)) n"
    "may_open (host (fs_disk s)) n"
  obtains s' where "make_fs True (Some n) s = Some (0, s')" "mounted s' = mounted s" "stack s' = stack s"
    "host_image n (replicate DISK_BLOCKS FAT_FREE) (replicate FS_MAX_FILES zero_dirent) (fs_disk s')"
proof -
  let ?d0 = "fs_disk s"
  let ?fat = "replicate DISK_BLOCKS FAT_FREE" and ?es = "replicate FS_MAX_FILES zero_dirent"
  obtain f where f: "make_disk (Some n) ?d0 = (0, ?d0\<lparr>host := (host ?d0)\<lparr>files := (files (host ?d0))(n \<mapsto> f)\<rparr>\<rparr>)"
    "whole_image f" using make_disk_ok[OF assms(3,2)] by blast
  define d1 where "d1 = ?d0\<lparr>host := (host ?d0)\<lparr>files := (files (host ?d0))(n \<mapsto> f)\<rparr>,
    handle := Some n, active := True\<rparr>"
  have d1: "disk_ready d1" "handle d1 = Some n" "may_open (host d1) n"
    using assms f(2) by (simp_all add: disk_ready_def d1_def)
  have opn: "open_disk (Some n) (?d0\<lparr>host := (host ?d0)\<lparr>files := (files (host ?d0))(n \<mapsto> f)\<rparr>\<rparr>) = (0, d1)"
    using assms by (simp add: open_disk_def d1_def)
  define s1 where "s1 = s\<lparr>superblock := std_superblock, root_directory := ?es, fat_table := ?fat, fs_disk := d1\<rparr>"
  have sel: "fs_disk s1 = d1" "fat_table s1 = ?fat" "root_directory s1 = ?es" by (simp_all add: s1_def)
  have "fs_static s1" using d1 zero_dir_shape by (simp add: fs_static_def s1_def)
  from write_metadata_spec[OF this, unfolded sel] obtain d2 where
    d2: "write_metadata_to_disk s1 = Some (s1\<lparr>fs_disk := d2\<rparr>)" "disk_ready d2" "handle d2 = Some n"
      "may_open (host d2) n"
      "\<forall>c < DISK_BLOCKS. blk d2 c = (case map_of (rev (meta_writes ?fat ?es)) c of
        None \<Rightarrow> blk d1 c | Some buf \<Rightarrow> buf)"
    using d1 by auto
  obtain g where g: "files (host d2) n = Some g" "whole_image g" "healthy (host d2)" "active d2"
    using d2(2,3) by (auto elim!: disk_readyE)
  have "file_blk g c = blk d2 c" for c using d2(3) g(1) by (simp add: blk_def)
  then have "meta_image g ?fat ?es"
    using d2(5) unfolding meta_image_def meta_writes_def by (simp add: DISK_BLOCKS_def)
  then have "host_image n ?fat ?es (d2\<lparr>active := False, handle := None\<rparr>)"
    using g d2(4) by (simp add: host_image_def)
  moreover have mk: "make_fs True (Some n) s = Some (0, s1\<lparr>fat_table := [], fs_disk := d2\<lparr>active := False, handle := None\<rparr>\<rparr>)"
  proof -
    have tot: "unat (total_blocks std_superblock) = DISK_BLOCKS"
      by (simp add: std_superblock_def DISK_BLOCKS_def)
    have "s\<lparr>fs_disk := d1, superblock := std_superblock, root_directory := ?es, fat_table := ?fat\<rparr> = s1"
      by (simp add: s1_def)
    then show ?thesis
      using f(1) opn d2(1) g(4) unfolding make_fs_def by (simp add: tot close_disk_def)
  qed
  ultimately show thesis using that[OF mk] by (simp add: s1_def)
qed

section \<open>Mounting\<close>

definition mounted_state :: "(nat \<Rightarrow> u32) \<Rightarrow> cstring \<Rightarrow> u32 list \<Rightarrow> dirent list \<Rightarrow> fs \<Rightarrow> fs" where
  "mounted_state heap n fat es s = s\<lparr>superblock := std_superblock, fat_table := remounted heap fat,
     root_directory := es, mounted := True,
     fd_table := replicate FS_MAX_FILE_DESCRIPTORS zero_fdesc,
     fs_disk := (fs_disk s)\<lparr>handle := Some n, active := True\<rparr>\<rparr>"

lemma no_handles: "abs_handles (mounted_state heap n fat es s) = (\<lambda>_. None)"
  by (rule ext) (simp add: abs_handles_def mounted_state_def zero_fdesc_def)

text \<open>
  A table and a directory that are well formed stay so when every block of every file lies in
  the stored part of the table.
\<close>

definition stored_only :: "u32 list \<Rightarrow> dirent list \<Rightarrow> bool" where
  "stored_only fat es \<longleftrightarrow>
     (\<forall>i < length es. used es i \<longrightarrow> (\<forall>b \<in> set (entry_blocks fat (es ! i)). unat b < STORED))"

lemma remounted_blocks:
  assumes l: "length fat = DISK_BLOCKS" and al: "alloc_ok fat es" and st: "stored_only fat es"
    and u: "used es i"
  shows "entry_blocks (remounted heap fat) (es ! i) = entry_blocks fat (es ! i)"
    and "entry_ok (remounted heap fat) (es ! i)"
proof -
  let ?fat = "remounted heap fat" and ?e = "es ! i"
  have ok: "entry_ok fat ?e" by (rule alloc_okD(1)[OF al u])
  have same: "?fat ! unat b = fat ! unat b" if "b \<in> set (entry_blocks fat ?e)" for b
    using st u that used_less[OF u] remounted_nth[OF l, of "unat b"] STORED_eq(2)
    by (auto simp: stored_only_def dest!: spec[of _ i])
  show eb: "entry_blocks ?fat ?e = entry_blocks fat ?e"
    by (rule entry_blocks_frame[OF ok]) (use l same in simp_all)
  have "chain ?fat (first_block_index ?e) (entry_blocks fat ?e)"
    by (rule chain_frame[OF _ _ _ entry_okD(1)[OF ok], where I = "- unat ` set (entry_blocks fat ?e)"])
      (use l same in auto)
  then show "entry_ok ?fat ?e" using ok by (simp add: entry_ok_def eb)
qed

lemma mounted_state_inv:
  assumes "length fat = DISK_BLOCKS" "dir_shape es" "alloc_ok fat es" "unique_names es" "stored_only fat es"
    and "disk_ready ((fs_disk s)\<lparr>handle := Some n, active := True\<rparr>)" "length (stack s) = BLOCK_SIZE"
  shows "fs_inv (mounted_state heap n fat es s)"
proof -
  have "alloc_ok (remounted heap fat) es"
    using remounted_blocks[OF assms(1,3,5)] alloc_okD(2)[OF assms(3)] unfolding alloc_ok_def by metis
  moreover have "fds_ok (replicate FS_MAX_FILE_DESCRIPTORS zero_fdesc) es"
    by (simp add: fds_ok_def zero_fdesc_def)
  ultimately show ?thesis using assms by (simp add: fs_inv_def mounted_state_def)
qed

lemma not_used_zero [simp]: "\<not> used (replicate FS_MAX_FILES zero_dirent) i"
  by (auto simp: used_def zero_dirent_def)

text \<open>A new file system is empty, whatever the allocation held.\<close>

lemma make_mount:
  assumes "\<not> active (fs_disk s)" "healthy (host (fs_disk s))" "may_create (host (fs_disk s)) n"
    "may_open (host (fs_disk s)) n" "\<not> mounted s" "length (stack s) = BLOCK_SIZE"
  shows "\<exists>s1 s2. make_fs True (Some n) s = Some (0, s1) \<and> mount_fs True heap (Some n) s1 = Some (0, s2) \<and>
    fs_inv s2 \<and> abs_fs s2 = \<lparr>afiles = (\<lambda>_. None), ahandles = (\<lambda>_. None)\<rparr> \<and>
    handle (fs_disk s2) = Some n \<and> may_open (host (fs_disk s2)) n"
proof -
  let ?fat = "replicate DISK_BLOCKS FAT_FREE" and ?es = "replicate FS_MAX_FILES zero_dirent"
  obtain s1 where s1: "make_fs True (Some n) s = Some (0, s1)" "mounted s1 = mounted s" "stack s1 = stack s"
    "host_image n ?fat ?es (fs_disk s1)" by (rule make_fs_spec[OF assms(1-4)])
  have m: "mount_fs True heap (Some n) s1 = Some (0, mounted_state heap n ?fat ?es s1)"
    "disk_ready ((fs_disk s1)\<lparr>handle := Some n, active := True\<rparr>)"
    using mount_image[OF s1(4) _ zero_dir_shape] s1(2,3) assms(5,6) by (simp_all add: mounted_state_def)
  have "fs_inv (mounted_state heap n ?fat ?es s1)"
    by (rule mounted_state_inv[OF _ zero_dir_shape _ _ _ m(2)])
      (use s1(3) assms(6) in \<open>simp_all add: alloc_ok_def unique_names_def stored_only_def\<close>)
  moreover from this have "abs_files (mounted_state heap n ?fat ?es s1) = (\<lambda>_. None)"
    by (intro ext) (simp add: abs_files_None_iff, simp add: mounted_state_def)
  moreover have "may_open (host (fs_disk s1)) n" using s1(4) by (simp add: host_image_def)
  ultimately show ?thesis using s1(1) m(1) by (simp add: abs_fs_def no_handles) (simp add: mounted_state_def)
qed

section \<open>Unmounting and mounting again\<close>

lemma umount_spec:
  assumes inv: "fs_inv s" and n: "handle (fs_disk s) = Some n" "may_open (host (fs_disk s)) n"
  obtains s' where "umount_fs s = Some (0, s')" "\<not> mounted s'" "stack s' = stack s"
    "host_image n (fat_table s) (root_directory s) (fs_disk s')"
    "\<And>b. data_block b \<Longrightarrow>
      blk ((fs_disk s')\<lparr>handle := Some n, active := True\<rparr>) (unat b) = blk (fs_disk s) (unat b)"
proof -
  note I = fs_invD[OF inv]
  from write_metadata_spec[OF I(10)] obtain d where
    d: "write_metadata_to_disk s = Some (s\<lparr>fs_disk := d\<rparr>)" "disk_ready d" "handle d = Some n"
      "may_open (host d) n"
      "\<forall>c < DISK_BLOCKS. blk d c = (case map_of (rev (meta_writes (fat_table s) (root_directory s))) c of
        None \<Rightarrow> blk (fs_disk s) c | Some buf \<Rightarrow> buf)"
    using n by auto
  obtain g where g: "files (host d) n = Some g" "whole_image g" "healthy (host d)" "active d"
    using d(2,3) by (auto elim!: disk_readyE)
  have "file_blk g c = blk d c" for c using d(3) g(1) by (simp add: blk_def)
  then have "meta_image g (fat_table s) (root_directory s)"
    using d(5) unfolding meta_image_def meta_writes_def by (simp add: DISK_BLOCKS_def)
  then have im: "host_image n (fat_table s) (root_directory s) (d\<lparr>active := False, handle := None\<rparr>)"
    using g d(4) by (simp add: host_image_def)
  define s' where "s' = s\<lparr>fat_table := [], mounted := False, fs_disk := d\<lparr>active := False, handle := None\<rparr>\<rparr>"
  have u: "umount_fs s = Some (0, s')"
    using I(1) d(1) g(4) by (simp add: umount_fs_def close_disk_def s'_def)
  have "blk ((fs_disk s')\<lparr>handle := Some n, active := True\<rparr>) (unat b) = blk (fs_disk s) (unat b)"
    if "data_block b" for b
  proof -
    have "(fs_disk s')\<lparr>handle := Some n, active := True\<rparr> = d" using d(3) g(4) by (simp add: s'_def)
    then show ?thesis using d(5) that by (auto simp: data_block_def meta_writes_def)
  qed
  then show thesis using that[OF u] im by (simp add: s'_def)
qed

text \<open>
  After \<open>umount_fs\<close> and \<open>mount_fs\<close> the directory is the same and the table is the same on its
  stored part; when no file uses a block beyond it, every file has its bytes back.
\<close>

lemma remount:
  assumes inv: "fs_inv s" and n: "handle (fs_disk s) = Some n" "may_open (host (fs_disk s)) n"
  shows "\<exists>s1 s2. umount_fs s = Some (0, s1) \<and> mount_fs True heap (Some n) s1 = Some (0, s2) \<and>
    root_directory s2 = root_directory s \<and> fat_table s2 = remounted heap (fat_table s) \<and>
    abs_handles s2 = (\<lambda>_. None) \<and>
    (stored_only (fat_table s) (root_directory s) \<longrightarrow> fs_inv s2 \<and> abs_files s2 = abs_files s)"
proof -
  note I = fs_invD[OF inv]
  let ?fat = "fat_table s" and ?es = "root_directory s"
  obtain s1 where s1: "umount_fs s = Some (0, s1)" "\<not> mounted s1" "stack s1 = stack s"
    "host_image n ?fat ?es (fs_disk s1)"
    "\<And>b. data_block b \<Longrightarrow>
      blk ((fs_disk s1)\<lparr>handle := Some n, active := True\<rparr>) (unat b) = blk (fs_disk s) (unat b)"
    by (rule umount_spec[OF inv n]) (rule that)
  define s2 where "s2 = mounted_state heap n ?fat ?es s1"
  have m: "mount_fs True heap (Some n) s1 = Some (0, s2)"
    "disk_ready ((fs_disk s1)\<lparr>handle := Some n, active := True\<rparr>)"
    using mount_image[OF s1(4) I(3,4) s1(2)] s1(3) I(9) by (simp_all add: s2_def mounted_state_def)
  have sel: "root_directory s2 = ?es" "fat_table s2 = remounted heap ?fat"
    "fs_disk s2 = (fs_disk s1)\<lparr>handle := Some n, active := True\<rparr>" by (simp_all add: s2_def mounted_state_def)
  have "fs_inv s2 \<and> abs_files s2 = abs_files s" if st: "stored_only ?fat ?es"
  proof -
    have inv2: "fs_inv s2" unfolding s2_def
      by (rule mounted_state_inv[OF I(3-6) st m(2)]) (use s1(3) I(9) in simp)
    have "file_data s2 i = file_data s i" if u: "used ?es i" for i
    proof -
      have eb: "entry_blocks (remounted heap ?fat) (?es ! i) = entry_blocks ?fat (?es ! i)"
        by (rule remounted_blocks(1)[OF I(3,5) st u])
      have "block_bytes (fs_disk s2) (entry_blocks ?fat (?es ! i)) =
          block_bytes (fs_disk s) (entry_blocks ?fat (?es ! i))"
        using s1(5) entry_okD(2)[OF alloc_okD(1)[OF I(5) u]] by (intro block_bytes_cong) (simp add: sel)
      then show ?thesis unfolding file_data_def by (simp only: sel(1,2) eb Let_def)
    qed
    then have "abs_files s2 nm = Some x \<longleftrightarrow> abs_files s nm = Some x" for nm x
      unfolding abs_files_Some_iff[OF inv2] abs_files_Some_iff[OF inv] sel(1) by auto
    then have "abs_files s2 = abs_files s" by (metis ext option.exhaust)
    then show ?thesis using inv2 by simp
  qed
  then show ?thesis using s1(1) m(1) sel no_handles by (auto simp: s2_def)
qed

end
