(* ===== verification/FsRead.thy ===== *)
theory FsRead
  imports FsFiles
begin

text \<open>
  \<open>fs_read\<close>: the walk to the first block, the copy loop over the blocks, and the call.  The
  result carries the caller's buffer after the call; \<open>None\<close> is an access outside the table
  or the buffer.
\<close>

section \<open>The loops\<close>

text \<open>\<open>Some None\<close>: the chain ends before the offset and \<^verbatim>\<open>fs_read\<close> returns 0.\<close>

function read_skip :: "u32 list \<Rightarrow> u32 \<Rightarrow> u32 \<Rightarrow> (u32 \<times> u32) option option" where
  "read_skip fat block off =
     (if BLOCK32 \<le> off then
        (case arr_get fat (unat block) of None \<Rightarrow> None
         | Some nxt \<Rightarrow> if nxt = FAT_EOF then Some None else read_skip fat nxt (off - BLOCK32))
      else Some (Some (block, off)))"
  by pat_completeness auto
termination
  by (relation "measure (\<lambda>(fat, block, off). unat off)")
    (auto simp: unat_sub_u32 word_le_nat_alt BLOCK_SIZE_def)

declare read_skip.simps [simp del]

definition read_chunk :: "u32 \<Rightarrow> u32 \<Rightarrow> u32 \<Rightarrow> u32" where
  "read_chunk off bytes_read to_read =
     (let chunk = BLOCK32 - off mod BLOCK32 in
      if to_read - bytes_read < chunk then to_read - bytes_read else chunk)"

lemma unat_mod_BLOCK [simp]: "unat (off mod BLOCK32) = unat off mod BLOCK_SIZE"
  by (simp add: unat_mod)

lemma unat_read_chunk:
  assumes "bytes_read \<le> to_read"
  shows "unat (read_chunk off bytes_read to_read) =
    min (BLOCK_SIZE - unat off mod BLOCK_SIZE) (unat to_read - unat bytes_read)"
proof -
  have "unat (BLOCK32 - off mod BLOCK32) = BLOCK_SIZE - unat off mod BLOCK_SIZE"
    by (subst unat_sub_u32) (simp_all add: less_imp_le)
  moreover have "unat (to_read - bytes_read) = unat to_read - unat bytes_read"
    using assms by (simp add: unat_sub_u32 word_le_nat_alt)
  ultimately show ?thesis by (simp add: read_chunk_def Let_def unat_min_u32)
qed

lemma read_chunk_advance:
  assumes "bytes_read < to_read"
  shows "unat (bytes_read + read_chunk off bytes_read to_read) =
      unat bytes_read + unat (read_chunk off bytes_read to_read)"
    and "0 < unat (read_chunk off bytes_read to_read)"
    and "unat bytes_read + unat (read_chunk off bytes_read to_read) \<le> unat to_read"
proof -
  let ?c = "unat (read_chunk off bytes_read to_read)"
  have c: "?c = min (BLOCK_SIZE - unat off mod BLOCK_SIZE) (unat to_read - unat bytes_read)"
    using assms by (intro unat_read_chunk) simp
  have l: "unat bytes_read < unat to_read" using assms by (simp add: word_less_nat_alt)
  show "0 < ?c" using c l by simp
  show le: "unat bytes_read + ?c \<le> unat to_read" using c l by simp
  have "unat to_read < 2 ^ 32" using unsigned_less[of to_read] by simp
  with le show "unat (bytes_read + read_chunk off bytes_read to_read) = unat bytes_read + ?c"
    by (intro unat_add_u32) linarith
qed

text \<open>
  The copy loop.  \<open>block_buf\<close> is the block buffer of the C function, \<open>buf\<close> the caller's
  buffer; the count is \<open>None\<close> when a block read fails.
\<close>

function read_loop :: "u32 list \<Rightarrow> disk \<Rightarrow> byte list \<Rightarrow> u32 \<Rightarrow> u32 \<Rightarrow> u32 \<Rightarrow> u32 \<Rightarrow> byte list \<Rightarrow>
    (u32 option \<times> byte list) option" where
  "read_loop fat d block_buf block off bytes_read to_read buf =
     (if bytes_read < to_read then
        (case block_read (sint block) block_buf d of (r, block_buf) \<Rightarrow>
           if r < 0 then Some (None, buf)
           else
             let chunk = read_chunk off bytes_read to_read in
             case memcpy buf (unat bytes_read) block_buf (unat (off mod BLOCK32)) (unat chunk) of
               None \<Rightarrow> None
             | Some buf \<Rightarrow>
                 if (off + chunk) mod BLOCK32 = 0 then
                   (case arr_get fat (unat block) of None \<Rightarrow> None
                    | Some nxt \<Rightarrow>
                        if nxt = FAT_EOF then Some (Some (bytes_read + chunk), buf)
                        else read_loop fat d block_buf nxt (off + chunk) (bytes_read + chunk) to_read buf)
                 else read_loop fat d block_buf block (off + chunk) (bytes_read + chunk) to_read buf)
      else Some (Some bytes_read, buf))"
  by pat_completeness auto
termination
  by (relation "measure (\<lambda>(fat, d, bb, block, off, bytes_read, to_read, buf).
        unat to_read - unat bytes_read)")
    (simp_all add: read_chunk_advance(1), (metis read_chunk_advance(2,3) add_diff_cancel_left'
      diff_less_mono2 less_add_same_cancel1 less_le_trans word_less_nat_alt)+)

declare read_loop.simps [simp del]

section \<open>What the loops compute\<close>

lemma read_skip_spec:
  assumes "chain fat b bs" "unat off < length bs * BLOCK_SIZE"
  shows "read_skip fat b off =
    Some (Some (bs ! (unat off div BLOCK_SIZE), of_nat (unat off mod BLOCK_SIZE)))"
  using assms
proof (induction bs arbitrary: b off)
  case (Cons x xs)
  show ?case
  proof (cases "BLOCK32 \<le> off")
    case False
    then have "unat off < BLOCK_SIZE" by (simp add: word_le_nat_alt)
    with False Cons.prems show ?thesis by (simp add: read_skip.simps[of fat x])
  next
    case True
    then have le: "BLOCK_SIZE \<le> unat off" and u: "unat (off - BLOCK32) = unat off - BLOCK_SIZE"
      by (simp_all add: word_le_nat_alt unat_sub)
    have l: "unat (off - BLOCK32) < length xs * BLOCK_SIZE" using Cons.prems(2) u le by simp
    then have "xs \<noteq> []" by auto
    then have "fat ! unat x \<noteq> FAT_EOF" using Cons.prems(1) by (cases xs) auto
    with Cons.IH[of "fat ! unat x" "off - BLOCK32"] Cons.prems True le u l show ?thesis
      by (auto simp: read_skip.simps[of fat x] le_div_geq le_mod_geq)
  qed
qed simp

text \<open>Bytes of one block as a slice of the bytes of the chain.\<close>

lemma block_bytes_slice:
  assumes "p div BLOCK_SIZE < length bs" "p mod BLOCK_SIZE + c \<le> BLOCK_SIZE"
  shows "take c (drop p (block_bytes d bs)) =
    take c (drop (p mod BLOCK_SIZE) (blk d (unat (bs ! (p div BLOCK_SIZE)))))"
proof -
  let ?i = "p div BLOCK_SIZE"
  have "drop (BLOCK_SIZE * ?i) (block_bytes d bs) =
      map (\<lambda>b. blk d (unat b)) bs ! ?i @ concat (drop (Suc ?i) (map (\<lambda>b. blk d (unat b)) bs))"
    unfolding block_bytes_def by (rule concat_piece) (use assms(1) in auto)
  moreover have "drop p (block_bytes d bs) = drop (p mod BLOCK_SIZE) (drop (BLOCK_SIZE * ?i) (block_bytes d bs))"
    by (simp add: drop_drop)
  ultimately show ?thesis using assms by simp
qed

text \<open>Advancing by \<open>c\<close> bytes inside or to the end of a block.\<close>

lemma advance_cases:
  assumes "(p::nat) mod k + c \<le> k" "0 < c"
  obtains (stay) "(p + c) mod k \<noteq> 0" "(p + c) div k = p div k"
  | (cross) "(p + c) mod k = 0" "(p + c) div k = Suc (p div k)" "c = k - p mod k"
      "p + c = Suc (p div k) * k"
proof (cases "p mod k + c = k")
  case True
  then have e: "p + c = Suc (p div k) * k" using div_mult_mod_eq[of p k] unfolding mult_Suc by linarith
  moreover have "0 < k" using assms True by simp
  ultimately have "(p + c) mod k = 0" "(p + c) div k = Suc (p div k)" by simp_all
  with True e show thesis by (intro cross) auto
next
  case False
  then have l: "p mod k + c < k" using assms(1) by simp
  have e: "p + c = (p mod k + c) + p div k * k" using div_mult_mod_eq[of p k] by linarith
  have "(m + q * k) mod k = m" "(m + q * k) div k = q" if "m < k" for m q
    using that by simp_all
  from this[OF l, of "p div k"] have "(p + c) mod k = p mod k + c" "(p + c) div k = p div k"
    unfolding e[symmetric] .
  with assms(2) show thesis by (intro stay) auto
qed

lemma read_loop_spec:
  assumes "chain fat b bs" "\<And>x. x \<in> set bs \<Longrightarrow> data_block x" "disk_ready d" "length bb = BLOCK_SIZE"
    and "bytes_read \<le> to_read" "r = unat to_read - unat bytes_read" "p + r \<le> length bs * BLOCK_SIZE"
    and "0 < r \<Longrightarrow> block = bs ! (p div BLOCK_SIZE)"
    and "unat off mod BLOCK_SIZE = p mod BLOCK_SIZE" "unat off + r < 2 ^ 32" "unat to_read \<le> length buf"
  shows "read_loop fat d bb block off bytes_read to_read buf =
    Some (Some to_read, patch buf (unat bytes_read) (take r (drop p (block_bytes d bs))))"
  using assms(4-)
proof (induction r arbitrary: bb block off bytes_read buf p rule: less_induct)
  case (less r)
  show ?case
  proof (cases "r = 0")
    case True
    with less.prems(2,3) have "bytes_read = to_read" by (simp add: word_le_nat_alt flip: unat_inject)
    with True show ?thesis by (simp add: read_loop.simps[of fat d])
  next
    case False
    let ?i = "p div BLOCK_SIZE"
    define chunk where "chunk = read_chunk off bytes_read to_read"
    define c where "c = unat chunk"
    have lt: "bytes_read < to_read" using False less.prems(2,3) by (simp add: word_less_nat_alt)
    note adv = read_chunk_advance[OF lt, of off, folded chunk_def, folded c_def]
    have c: "c = min (BLOCK_SIZE - p mod BLOCK_SIZE) r"
      unfolding c_def chunk_def using unat_read_chunk[OF less.prems(2), of off] less.prems(3,6) by simp
    have cb: "p mod BLOCK_SIZE + c \<le> BLOCK_SIZE" "c \<le> r"
    proof -
      have "c \<le> BLOCK_SIZE - p mod BLOCK_SIZE" "c \<le> r" using c by simp_all
      then show "p mod BLOCK_SIZE + c \<le> BLOCK_SIZE" "c \<le> r"
        using mod_less_divisor[OF BLOCK_SIZE_pos, of p] by linarith+
    qed
    have il: "?i < length bs"
      using False less.prems(4) by (intro less_mult_imp_div_less) simp
    have blk: "block = bs ! ?i" using less.prems(5) False by simp
    have db: "data_block block" using assms(2) il blk by simp
    then have rd: "block_read (sint block) bb d = (0, blk d (unat block))"
      using vdisk.read_law[OF assms(3), of "unat block" bb] less.prems(1)
      by (simp add: data_block_def sint_small DISK_BLOCKS_def)
    have offc: "unat (off + chunk) = unat off + c"
      unfolding c_def by (rule unat_add_u32) (use less.prems(7) cb(2) c_def in linarith)
    have offm: "unat (off + chunk) mod BLOCK_SIZE = (p + c) mod BLOCK_SIZE"
      unfolding offc by (metis less.prems(6) mod_add_left_eq)
    define buf' where "buf' = patch buf (unat bytes_read) (take c (drop (p mod BLOCK_SIZE) (blk d (unat block))))"
    have mc: "memcpy buf (unat bytes_read) (blk d (unat block)) (unat (off mod BLOCK32)) c = Some buf'"
      using adv(3) less.prems(6,8) cb(1) by (simp add: buf'_def)
    have lb: "length buf' = length buf"
      using adv(3) less.prems(8) cb(1) by (simp add: buf'_def)
    have slice: "take c (drop (p mod BLOCK_SIZE) (blk d (unat block))) = take c (drop p (block_bytes d bs))"
      using block_bytes_slice[OF il cb(1), of d] blk by simp
    have step: "read_loop fat d bb block off bytes_read to_read buf =
        (if unat (off + chunk) mod BLOCK_SIZE = 0 then
           (case arr_get fat (unat block) of None \<Rightarrow> None
            | Some nxt \<Rightarrow>
                if nxt = FAT_EOF then Some (Some (bytes_read + chunk), buf')
                else read_loop fat d (blk d (unat block)) nxt (off + chunk) (bytes_read + chunk) to_read buf')
         else read_loop fat d (blk d (unat block)) block (off + chunk) (bytes_read + chunk) to_read buf')"
      using lt rd mc
      by (simp add: read_loop.simps[of fat d bb] c_def flip: chunk_def unat_eq_zero)
    have joined: "patch buf' (unat bytes_read + c) (take (r - c) (drop (p + c) (block_bytes d bs))) =
        patch buf (unat bytes_read) (take r (drop p (block_bytes d bs)))"
    proof -
      have "take r (drop p (block_bytes d bs)) =
          take c (drop p (block_bytes d bs)) @ take (r - c) (drop (p + c) (block_bytes d bs))"
        using cb(2) take_add[of c "r - c" "drop p (block_bytes d bs)"] by (simp add: add.commute)
      moreover have "length (take c (drop p (block_bytes d bs))) = c"
        using slice[symmetric] cb(1) by simp
      ultimately show ?thesis
        using patch_patch_adjacent[of "unat bytes_read" "take c (drop p (block_bytes d bs))"
            "take (r - c) (drop (p + c) (block_bytes d bs))" buf]
          less.prems(3,4,8) lt cb(2) unfolding buf'_def slice
        by (simp add: word_less_nat_alt)
    qed
    have again: "read_loop fat d (blk d (unat block)) nb (off + chunk) (bytes_read + chunk) to_read buf' =
        Some (Some to_read, patch buf (unat bytes_read) (take r (drop p (block_bytes d bs))))"
      if "0 < r - c \<Longrightarrow> nb = bs ! ((p + c) div BLOCK_SIZE)" for nb
      unfolding joined[symmetric] adv(1)[symmetric]
    proof (rule less.IH)
      show "r - c < r" using adv(2) cb(2) False by simp
      show "bytes_read + chunk \<le> to_read" using adv(1,3) by (simp add: word_le_nat_alt)
      show "r - c = unat to_read - unat (bytes_read + chunk)" using adv(1) less.prems(3) by simp
      show "p + c + (r - c) \<le> length bs * BLOCK_SIZE" using less.prems(4) cb(2) by simp
      show "unat (off + chunk) + (r - c) < 2 ^ 32" using less.prems(7) offc cb(2) by simp
      show "unat to_read \<le> length buf'" using less.prems(8) lb by simp
    qed (use that offm in auto)
    have ub: "unat block < length fat" using chain_bound[OF assms(1)] il blk by simp
    show ?thesis
    proof (rule advance_cases[OF cb(1) adv(2)])
      assume x: "(p + c) mod BLOCK_SIZE \<noteq> 0" "(p + c) div BLOCK_SIZE = ?i"
      have nb: "0 < r - c \<Longrightarrow> block = bs ! ((p + c) div BLOCK_SIZE)" using blk x(2) by simp
      show ?thesis using again[OF nb] x(1) by (simp add: step offm)
    next
      assume x: "(p + c) mod BLOCK_SIZE = 0" "(p + c) div BLOCK_SIZE = Suc ?i"
        "c = BLOCK_SIZE - p mod BLOCK_SIZE" "p + c = Suc ?i * BLOCK_SIZE"
      have nx: "fat ! unat block = (if Suc ?i < length bs then bs ! Suc ?i else FAT_EOF)"
        using chain_next[OF assms(1) il] blk by simp
      show ?thesis
      proof (cases "Suc ?i < length bs")
        case True
        then have "fat ! unat block \<noteq> FAT_EOF" using nx assms(2) data_block_neq(2) by simp
        then show ?thesis using again[of "fat ! unat block"] nx True x ub by (simp add: step offm)
      next
        case stop: False
        with il have "length bs = Suc ?i" by simp
        then have "r = c" using less.prems(4) x(4) cb(2) by simp
        then have "bytes_read + chunk = to_read"
          using adv(1) less.prems(3) lt by (simp add: word_less_nat_alt flip: unat_inject)
        then show ?thesis using nx stop ub x \<open>r = c\<close> slice by (simp add: step offm buf'_def)
      qed
    qed
  qed
qed

section \<open>The call\<close>

definition fs_read :: "int \<Rightarrow> byte list \<Rightarrow> nat \<Rightarrow> fs \<Rightarrow> (int \<times> byte list \<times> fs) option" where
  "fs_read fildes buf nbyte s =
     (if \<not> mounted s \<or> \<not> valid_fd fildes s then Some (-1, buf, s)
      else do {
        e \<leftarrow> fd_entry fildes s;
        let fd_off = fd_offset (fd_table s ! nat fildes);
        let remaining = filesize e - fd_off;
        let to_read = (if unat remaining < nbyte then remaining else of_nat nbyte);
        if first_block_index e = FAT_EOF \<or> filesize e \<le> fd_off then Some (0, buf, s)
        else do {
          found \<leftarrow> read_skip (fat_table s) (first_block_index e) fd_off;
          (case found of None \<Rightarrow> Some (0, buf, s)
           | Some (block, off) \<Rightarrow> do {
               (n, buf') \<leftarrow> read_loop (fat_table s) (fs_disk s) (stack s) block off 0 to_read buf;
               (case n of None \<Rightarrow> Some (-1, buf', s)
                | Some n \<Rightarrow> Some (sint n, buf', set_fd_offset fildes (fd_off + n) s))
             })
        }
      })"

text \<open>
  The call reads what the specification reads: the bytes go to the front of the caller's
  buffer and the rest of the buffer is kept.
\<close>

lemma fs_read_sim:
  assumes inv: "fs_inv s" and buf: "nbyte \<le> length buf"
  shows "\<exists>r bytes s'. fs_read fd buf nbyte s = Some (r, patch buf 0 bytes, s') \<and> fs_inv s' \<and>
    (r, bytes, abs_fs s') = a_read fd nbyte (abs_fs s)"
proof (rule fd_cases[OF inv, of fd])
  assume "\<not> valid_fd fd s" "a_handle fd (abs_fs s) = None"
  then show ?thesis using inv by (auto simp: fs_read_def a_read_def intro!: exI[of _ "[]"])
next
  note I = fs_invD[OF inv]
  fix k i
  assume a: "valid_fd fd s" "fd = int k" "k < FS_MAX_FILE_DESCRIPTORS"
    "used (root_directory s) i" "fd_entry fd s = Some (root_directory s ! i)"
    "abs_handles s k = Some (cstr (filename (root_directory s ! i)), unat (fd_offset (fd_table s ! k)))"
    "a_handle fd (abs_fs s) =
      Some (cstr (filename (root_directory s ! i)), unat (fd_offset (fd_table s ! k)))"
    "unat (fd_offset (fd_table s ! k)) \<le> DISK_BLOCKS * BLOCK_SIZE"
    "abs_files s (cstr (filename (root_directory s ! i))) = Some (file_data s i)"
  define e where "e = root_directory s ! i"
  define off where "off = fd_offset (fd_table s ! k)"
  define data where "data = file_data s i"
  define bs where "bs = entry_blocks (fat_table s) e"
  have ok: "entry_ok (fat_table s) e" unfolding e_def by (rule alloc_okD(1)[OF I(5) a(4)])
  have ch: "chain (fat_table s) (first_block_index e) bs" and
    db: "\<And>b. b \<in> set bs \<Longrightarrow> data_block b" and cov: "unat (filesize e) \<le> length bs * BLOCK_SIZE"
    using entry_okD[OF ok] by (auto simp: bs_def)
  have len: "length data = unat (filesize e)" "length data \<le> (DISK_BLOCKS - 4) * BLOCK_SIZE"
    using length_file_data[OF inv a(4)] by (simp_all add: data_def e_def)
  have dat: "data = take (unat (filesize e)) (block_bytes (fs_disk s) bs)"
    by (simp add: data_def file_data_def e_def bs_def Let_def)
  show ?thesis
  proof (cases "filesize e \<le> off")
    case True
    then have "length data \<le> unat off" using len by (simp add: word_le_nat_alt)
    then have ar: "a_read fd nbyte (abs_fs s) = (0, [], abs_fs s)"
      using a(2,6,7,9) by (simp add: a_read_def abs_fs_def fun_upd_idem flip: data_def off_def)
    have "fs_read fd buf nbyte s = Some (0, buf, s)"
      using I(1) a(1,2,5) True by (simp add: fs_read_def flip: e_def off_def)
    with ar inv show ?thesis by (auto intro!: exI[of _ "[]"])
  next
    case False
    then have lt: "unat off < unat (filesize e)" by (simp add: word_le_nat_alt)
    then have ne: "bs \<noteq> []" using cov by auto
    then have fb: "first_block_index e \<noteq> FAT_EOF" using ch by (cases bs) auto
    let ?n = "min nbyte (length data - unat off)"
    define to_read where "to_read = (if unat (filesize e - off) < nbyte then filesize e - off else of_nat nbyte)"
    have ur: "unat (filesize e - off) = length data - unat off"
      using lt len(1) by (simp add: unat_sub_u32)
    have small: "length data < 2 ^ 31" using len(2) by (simp add: DISK_BYTES)
    have tr: "unat to_read = ?n"
    proof (cases "unat (filesize e - off) < nbyte")
      case True
      then show ?thesis using ur by (simp add: to_read_def)
    next
      case False
      then have "nbyte < 2 ^ 32" using ur small by simp
      then show ?thesis using False ur by (simp add: to_read_def)
    qed
    let ?b = "bs ! (unat off div BLOCK_SIZE)" and ?o = "of_nat (unat off mod BLOCK_SIZE) :: u32"
    have uo: "unat ?o = unat off mod BLOCK_SIZE"
      using mod_less_divisor[OF BLOCK_SIZE_pos, of "unat off"]
      by (intro unat_of_nat_u32) (simp add: BLOCK_SIZE_def)
    have sk: "read_skip (fat_table s) (first_block_index e) off = Some (Some (?b, ?o))"
      using read_skip_spec[OF ch, of off] lt cov by simp
    have lp: "read_loop (fat_table s) (fs_disk s) (stack s) ?b ?o 0 to_read buf =
        Some (Some to_read, patch buf (unat (0::u32)) (take ?n (drop (unat off) (block_bytes (fs_disk s) bs))))"
    proof (rule read_loop_spec[OF ch db I(8,9)])
      show "unat off + ?n \<le> length bs * BLOCK_SIZE" using cov len(1) lt by simp
      show "unat ?o + ?n < 2 ^ 32"
      proof -
        have "?n \<le> length data - unat off" by simp
        then have "unat off mod BLOCK_SIZE + ?n \<le> length data"
          using mod_less_eq_dividend[of "unat off" BLOCK_SIZE] lt len(1) by linarith
        then show ?thesis unfolding uo using small by simp
      qed
    qed (use tr uo buf in auto)
    have slice: "take ?n (drop (unat off) (block_bytes (fs_disk s) bs)) = take nbyte (drop (unat off) data)"
      using len(1) by (simp add: dat drop_take min.commute)
    have on: "unat (off + to_read) = unat off + ?n"
      using small lt len(1) by (subst unat_add_u32) (simp_all add: tr)
    have rd: "fs_read fd buf nbyte s = Some (int ?n, patch buf 0 (take nbyte (drop (unat off) data)),
        set_fd_offset (int k) (off + to_read) s)"
      using I(1) a(1,2,5) False fb sk lp slice tr small
      by (simp add: fs_read_def sint_small flip: e_def off_def to_read_def)
    have cap: "unat (off + to_read) \<le> DISK_BLOCKS * BLOCK_SIZE"
      using on lt len by (simp add: DISK_BYTES)
    note st = set_fd_offset_sim[OF inv a(3,6) cap]
    have "a_read fd nbyte (abs_fs s) = (int ?n, take nbyte (drop (unat off) data),
        abs_fs (set_fd_offset (int k) (off + to_read) s))"
      using a(2,7,9) st(2) on
      by (simp add: a_read_def Let_def min.commute flip: data_def off_def e_def)
    with rd st(1) show ?thesis by auto
  qed
qed

end
