(* ===== verification/FsWrite.thy ===== *)
theory FsWrite
  imports FsRead
begin

text \<open>
  \<open>fs_write\<close> of \<^verbatim>\<open>fs.c\<close>, its parts in the order of the code: the first block, the gap up to the
  offset, the data, and the update of offset, size and metadata that every exit performs.
  The code that finds (or appends) the block of an offset is written twice in the C function,
  for the gap and for the data; it is \<open>seek_block\<close> here.
\<close>

section \<open>The loops\<close>

text \<open>\<^verbatim>\<open>while (tmp_off >= BLOCK_SIZE)\<close>: append blocks; the result is \<open>None\<close> when none is free.\<close>

function grow_loop :: "superblock \<Rightarrow> u32 \<Rightarrow> u32 \<Rightarrow> u32 \<Rightarrow> u32 list \<Rightarrow>
    ((u32 \<times> u32) option \<times> u32 \<times> u32 list) option" where
  "grow_loop sb cur tmp first fat =
     (if BLOCK32 \<le> tmp then
        (case allocate_free_block sb fat of None \<Rightarrow> None
         | Some (new_block, fat) \<Rightarrow>
             if new_block = FAT_FREE then Some (None, first, fat)
             else if cur = FAT_EOF then grow_loop sb new_block (tmp - BLOCK32) new_block fat
             else (case arr_set fat (unat cur) new_block of None \<Rightarrow> None
                   | Some fat \<Rightarrow> grow_loop sb new_block (tmp - BLOCK32) first fat))
      else Some (Some (cur, tmp), first, fat))"
  by pat_completeness auto
termination
  by (relation "measure (\<lambda>(sb, cur, tmp, first, fat). unat tmp)")
    (auto simp: unat_sub_u32 word_le_nat_alt BLOCK_SIZE_def)

declare grow_loop.simps [simp del]

text \<open>\<^verbatim>\<open>if (current_block == FAT_EOF)\<close>: append one block behind the last one.\<close>

definition attach_block :: "superblock \<Rightarrow> u32 \<Rightarrow> u32 list \<Rightarrow> (u32 option \<times> u32 \<times> u32 list) option" where
  "attach_block sb first fat = do {
     (new_block, fat) \<leftarrow> allocate_free_block sb fat;
     if new_block = FAT_FREE then Some (None, first, fat)
     else if first = FAT_EOF then Some (Some new_block, new_block, fat)
     else do {
       last \<leftarrow> last_block fat first;
       fat \<leftarrow> arr_set fat (unat last) new_block;
       Some (Some new_block, first, fat)
     }
   }"

definition seek_block :: "superblock \<Rightarrow> u32 \<Rightarrow> u32 \<Rightarrow> u32 list \<Rightarrow>
    ((u32 \<times> u32) option \<times> u32 \<times> u32 list) option" where
  "seek_block sb first off fat = do {
     (cur, tmp) \<leftarrow> skip_blocks fat first off;
     (found, first, fat) \<leftarrow> grow_loop sb cur tmp first fat;
     (case found of None \<Rightarrow> Some (None, first, fat)
      | Some (cur, tmp) \<Rightarrow>
          if cur = FAT_EOF then do {
            (new_block, first, fat) \<leftarrow> attach_block sb first fat;
            Some (map_option (\<lambda>b. (b, tmp)) new_block, first, fat)
          } else Some (Some (cur, tmp), first, fat))
   }"

text \<open>The block after \<open>block\<close>, appended when the chain ends there; \<open>None\<close>: no free block.\<close>

definition next_block :: "superblock \<Rightarrow> u32 \<Rightarrow> u32 list \<Rightarrow> (u32 option \<times> u32 list) option" where
  "next_block sb block fat = do {
     nxt \<leftarrow> arr_get fat (unat block);
     if nxt = FAT_EOF then do {
       (new_block, fat) \<leftarrow> allocate_free_block sb fat;
       if new_block = FAT_FREE then Some (None, fat)
       else do {
         fat \<leftarrow> arr_set fat (unat block) new_block;
         Some (Some new_block, fat)
       }
     } else Some (Some nxt, fat)
   }"

datatype stop = Finished | NoSpace | IOError

definition write_chunk :: "u32 \<Rightarrow> u32 \<Rightarrow> u32" where
  "write_chunk off remaining = (let chunk = BLOCK32 - off in if remaining < chunk then remaining else chunk)"

lemma write_chunk_le: "write_chunk off remaining \<le> remaining"
  by (auto simp: write_chunk_def Let_def)

lemma write_chunk_zero: "0 < remaining \<Longrightarrow> write_chunk off remaining = 0 \<Longrightarrow> off = BLOCK32"
  by (auto simp: write_chunk_def Let_def split: if_splits)

text \<open>
  The loops make progress: a chunk is empty only at the end of a block, where the loop moves
  to the next one.
\<close>

definition write_measure :: "u32 \<Rightarrow> u32 \<Rightarrow> nat" where
  "write_measure off remaining = 2 * unat remaining + (if off = BLOCK32 then 1 else 0)"

lemma write_measure_next:
  assumes "0 < remaining"
  shows "write_measure 0 (remaining - write_chunk off remaining) < write_measure off remaining"
    and "\<not> (off + write_chunk off remaining = BLOCK32 \<and> 0 < remaining - write_chunk off remaining) \<Longrightarrow>
      write_measure (off + write_chunk off remaining) (remaining - write_chunk off remaining)
        < write_measure off remaining"
proof -
  let ?c = "write_chunk off remaining"
  have u: "unat (remaining - ?c) = unat remaining - unat ?c" "unat ?c \<le> unat remaining"
    using write_chunk_le[of off remaining] by (simp_all add: unat_sub_u32 word_le_nat_alt)
  have z: "(0::u32) \<noteq> BLOCK32" by (simp add: BLOCK32_def)
  have r: "0 < unat remaining" using assms by (simp add: unat_gt_0)
  show "write_measure 0 (remaining - ?c) < write_measure off remaining"
  proof (cases "?c = 0")
    case True
    with write_chunk_zero[OF assms] z show ?thesis by (simp add: write_measure_def)
  next
    case False
    then have "0 < unat ?c" by (simp add: unat_gt_0)
    then show ?thesis using u r z by (simp add: write_measure_def)
  qed
  assume n: "\<not> (off + ?c = BLOCK32 \<and> 0 < remaining - ?c)"
  have "?c \<noteq> 0" using n write_chunk_zero[OF assms] assms by auto
  then have "0 < unat ?c" by (simp add: unat_gt_0)
  then have "2 * (unat remaining - unat ?c) + 1 < 2 * unat remaining" using u(2) r by linarith
  then show "write_measure (off + ?c) (remaining - ?c) < write_measure off remaining"
    unfolding write_measure_def u(1) by (rule le_less_trans[OF _ less_le_trans, rotated]) simp_all
qed

text \<open>
  The zero-fill loop and the copy loop.  Each iteration moves at most one block; when the
  offset has reached the end of a block and bytes remain, the loop goes on at offset 0 of the
  next block.
\<close>

function fill_loop :: "superblock \<Rightarrow> byte list \<Rightarrow> u32 \<Rightarrow> u32 \<Rightarrow> u32 \<Rightarrow> u32 \<Rightarrow> u32 list \<Rightarrow> disk \<Rightarrow>
    (stop \<times> u32 \<times> u32 list \<times> disk) option" where
  "fill_loop sb block_buf block off remaining extended fat d =
     (if 0 < remaining then
        (case block_read (sint block) block_buf d of (r, block_buf) \<Rightarrow>
           if r < 0 then Some (IOError, extended, fat, d)
           else
             let chunk = write_chunk off remaining in
             case memset block_buf (unat off) 0 (unat chunk) of None \<Rightarrow> None
             | Some block_buf \<Rightarrow>
               (case block_write (sint block) block_buf d of (r, d) \<Rightarrow>
                  if r < 0 then Some (IOError, extended, fat, d)
                  else if off + chunk = BLOCK32 \<and> 0 < remaining - chunk then
                    (case next_block sb block fat of None \<Rightarrow> None
                     | Some (None, fat) \<Rightarrow> Some (NoSpace, extended + chunk, fat, d)
                     | Some (Some nxt, fat) \<Rightarrow>
                         fill_loop sb block_buf nxt 0 (remaining - chunk) (extended + chunk) fat d)
                  else fill_loop sb block_buf block (off + chunk) (remaining - chunk)
                         (extended + chunk) fat d))
      else Some (Finished, extended, fat, d))"
  by pat_completeness auto
termination
  by (relation "measure (\<lambda>(sb, bb, block, off, remaining, _). write_measure off remaining)")
    (simp_all only: wf_measure in_measure prod.case write_measure_next not_False_eq_True)

declare fill_loop.simps [simp del]

function write_loop :: "superblock \<Rightarrow> byte list \<Rightarrow> byte list \<Rightarrow> u32 \<Rightarrow> u32 \<Rightarrow> u32 \<Rightarrow> u32 \<Rightarrow> u32 list \<Rightarrow> disk \<Rightarrow>
    (stop \<times> u32 \<times> u32 list \<times> disk) option" where
  "write_loop sb buf block_buf block off remaining written fat d =
     (if 0 < remaining then
        (case block_read (sint block) block_buf d of (r, block_buf) \<Rightarrow>
           if r < 0 then Some (IOError, written, fat, d)
           else
             let chunk = write_chunk off remaining in
             case memcpy block_buf (unat off) buf (unat written) (unat chunk) of None \<Rightarrow> None
             | Some block_buf \<Rightarrow>
               (case block_write (sint block) block_buf d of (r, d) \<Rightarrow>
                  if r < 0 then Some (IOError, written, fat, d)
                  else if off + chunk = BLOCK32 \<and> 0 < remaining - chunk then
                    (case next_block sb block fat of None \<Rightarrow> None
                     | Some (None, fat) \<Rightarrow> Some (NoSpace, written + chunk, fat, d)
                     | Some (Some nxt, fat) \<Rightarrow>
                         write_loop sb buf block_buf nxt 0 (remaining - chunk) (written + chunk) fat d)
                  else write_loop sb buf block_buf block (off + chunk) (remaining - chunk)
                         (written + chunk) fat d))
      else Some (Finished, written, fat, d))"
  by pat_completeness auto
termination
  by (relation "measure (\<lambda>(sb, buf, bb, block, off, remaining, _). write_measure off remaining)")
    (simp_all only: wf_measure in_measure prod.case write_measure_next not_False_eq_True)

declare write_loop.simps [simp del]

section \<open>The call\<close>

text \<open>
  Every exit after the first allocation: set the offset, raise the size to it, write the
  metadata.
\<close>

definition finish_at :: "int \<Rightarrow> u32 \<Rightarrow> fs \<Rightarrow> fs option" where
  "finish_at fildes off s = do {
     e \<leftarrow> fd_entry fildes s;
     let s1 = set_fd_offset fildes off s;
     write_metadata_to_disk
       (if filesize e < off then set_fd_entry fildes (e\<lparr>filesize := off\<rparr>) s1 else s1)
   }"

definition write_first :: "int \<Rightarrow> fs \<Rightarrow> (bool \<times> fs) option" where
  "write_first fildes s = do {
     e \<leftarrow> fd_entry fildes s;
     if first_block_index e = FAT_EOF then do {
       (b, fat) \<leftarrow> allocate_free_block (superblock s) (fat_table s);
       if b = FAT_FREE then Some (False, s\<lparr>fat_table := fat\<rparr>)
       else Some (True, set_fd_entry fildes (e\<lparr>first_block_index := b, filesize := 0\<rparr>)
                          (s\<lparr>fat_table := fat\<rparr>))
     } else Some (True, s)
   }"

text \<open>Filling the gap; \<open>Some r\<close> is an early return of \<open>r\<close>.\<close>

definition write_extend :: "int \<Rightarrow> fs \<Rightarrow> (int option \<times> fs) option" where
  "write_extend fildes s = do {
     e \<leftarrow> fd_entry fildes s;
     let off = fd_offset (fd_table s ! nat fildes);
     if \<not> filesize e < off then Some (None, s)
     else do {
       let needed = off - filesize e;
       (found, first, fat) \<leftarrow> seek_block (superblock s) (first_block_index e) (filesize e) (fat_table s);
       let e1 = e\<lparr>first_block_index := first\<rparr>;
       let s1 = set_fd_entry fildes e1 (s\<lparr>fat_table := fat\<rparr>);
       (case found of
          None \<Rightarrow> do { s2 \<leftarrow> finish_at fildes (filesize e) s1; Some (Some 0, s2) }
        | Some (block, off_in_block) \<Rightarrow> do {
            (stop, extended, fat, d) \<leftarrow>
              fill_loop (superblock s) (stack s) block off_in_block needed 0 fat (fs_disk s);
            let s2 = s1\<lparr>fat_table := fat, fs_disk := d\<rparr>;
            if stop = Finished then
              Some (None, set_fd_entry fildes (e1\<lparr>filesize := filesize e + needed\<rparr>) s2)
            else do {
              s3 \<leftarrow> finish_at fildes (filesize e + extended) s2;
              Some (Some (sint extended), s3)
            }
          })
     }
   }"

definition write_data :: "int \<Rightarrow> byte list \<Rightarrow> nat \<Rightarrow> fs \<Rightarrow> (int \<times> fs) option" where
  "write_data fildes buf nbyte s = do {
     e \<leftarrow> fd_entry fildes s;
     let off = fd_offset (fd_table s ! nat fildes);
     (found, first, fat) \<leftarrow> seek_block (superblock s) (first_block_index e) off (fat_table s);
     let s1 = set_fd_entry fildes (e\<lparr>first_block_index := first\<rparr>) (s\<lparr>fat_table := fat\<rparr>);
     (case found of
        None \<Rightarrow> do { s2 \<leftarrow> finish_at fildes off s1; Some (0, s2) }
      | Some (block, off_in_block) \<Rightarrow> do {
          (stop, written, fat, d) \<leftarrow>
            write_loop (superblock s) buf (stack s) block off_in_block (of_nat nbyte) 0 fat (fs_disk s);
          s2 \<leftarrow> finish_at fildes (off + written) (s1\<lparr>fat_table := fat, fs_disk := d\<rparr>);
          Some (if stop = IOError then -1 else sint written, s2)
        })
   }"

definition fs_write :: "int \<Rightarrow> byte list \<Rightarrow> nat \<Rightarrow> fs \<Rightarrow> (int \<times> fs) option" where
  "fs_write fildes buf nbyte s =
     (if \<not> mounted s \<or> \<not> valid_fd fildes s then Some (-1, s)
      else if nbyte = 0 then Some (0, s)
      else do {
        (allocated, s1) \<leftarrow> write_first fildes s;
        if \<not> allocated then Some (0, s1)
        else do {
          (early, s2) \<leftarrow> write_extend fildes s1;
          (case early of Some r \<Rightarrow> Some (r, s2) | None \<Rightarrow> write_data fildes buf nbyte s2)
        }
      })"

end
