(* ===== verification/FsGrow.thy ===== *)
theory FsGrow
  imports FsWrite
begin

text \<open>
  How writing changes the table and the disk: \<open>grown\<close> relates a chain to a longer one, and
  the lemmas say that \<open>next_block\<close>, \<open>seek_block\<close> and the two block loops only grow the chain
  of the file they write and only change the bytes of its blocks.
\<close>

section \<open>Growing a chain\<close>

definition grown :: "u32 list \<Rightarrow> u32 list \<Rightarrow> u32 list \<Rightarrow> u32 \<Rightarrow> u32 list \<Rightarrow> bool" where
  "grown fat bs fat' first' bs' \<longleftrightarrow>
     length fat' = length fat \<and> chain fat' first' bs' \<and>
     (\<exists>ns. bs' = bs @ ns \<and> (\<forall>n \<in> set ns. data_block n \<and> fat ! unat n = FAT_FREE)) \<and>
     (\<forall>i < length fat. fat ! i \<noteq> FAT_FREE \<longrightarrow> fat' ! i \<noteq> FAT_FREE \<and> (i \<notin> unat ` set bs \<longrightarrow> fat' ! i = fat ! i))"

lemma grown_refl: "chain fat b bs \<Longrightarrow> grown fat bs fat b bs"
  by (simp add: grown_def)

lemma grownD:
  assumes "grown fat bs fat' b bs'"
  shows "length fat' = length fat" "chain fat' b bs'"
    and "\<exists>ns. bs' = bs @ ns \<and> (\<forall>n \<in> set ns. data_block n \<and> fat ! unat n = FAT_FREE)"
    and "i < length fat \<Longrightarrow> fat ! i \<noteq> FAT_FREE \<Longrightarrow> fat' ! i \<noteq> FAT_FREE"
    and "i < length fat \<Longrightarrow> fat ! i \<noteq> FAT_FREE \<Longrightarrow> i \<notin> unat ` set bs \<Longrightarrow> fat' ! i = fat ! i"
  using assms unfolding grown_def by blast+

lemma grown_data:
  assumes "grown fat bs fat' b bs'" "\<And>x. x \<in> set bs \<Longrightarrow> data_block x" "x \<in> set bs'"
  shows "data_block x"
  using grownD(3)[OF assms(1)] assms(2,3) by auto

lemma grown_trans:
  assumes l: "length fat = DISK_BLOCKS"
    and g1: "grown fat bs fat1 b1 bs1" and g2: "grown fat1 bs1 fat2 b2 bs2"
  shows "grown fat bs fat2 b2 bs2"
proof -
  obtain ns where ns: "bs1 = bs @ ns" "\<And>n. n \<in> set ns \<Longrightarrow> data_block n \<and> fat ! unat n = FAT_FREE"
    using grownD(3)[OF g1] by auto
  obtain ms where ms: "bs2 = bs1 @ ms" "\<And>n. n \<in> set ms \<Longrightarrow> data_block n \<and> fat1 ! unat n = FAT_FREE"
    using grownD(3)[OF g2] by auto
  have len: "length fat1 = length fat" using grownD(1)[OF g1] .
  have "fat ! unat n = FAT_FREE" if "n \<in> set ms" for n
    using ms(2)[OF that] grownD(4)[OF g1, of "unat n"] l by (auto simp: data_block_def)
  then have 1: "\<exists>ks. bs2 = bs @ ks \<and> (\<forall>n \<in> set ks. data_block n \<and> fat ! unat n = FAT_FREE)"
    using ns ms by (intro exI[of _ "ns @ ms"]) auto
  have 2: "fat2 ! i \<noteq> FAT_FREE \<and> (i \<notin> unat ` set bs \<longrightarrow> fat2 ! i = fat ! i)"
    if "i < length fat" "fat ! i \<noteq> FAT_FREE" for i
  proof -
    have "fat1 ! i \<noteq> FAT_FREE" using grownD(4)[OF g1 that] .
    then have "fat2 ! i \<noteq> FAT_FREE" using grownD(4)[OF g2] that(1) len by simp
    moreover have "fat2 ! i = fat ! i" if n: "i \<notin> unat ` set bs"
    proof -
      have "fat1 ! i = fat ! i" using grownD(5)[OF g1 \<open>i < length fat\<close> \<open>fat ! i \<noteq> FAT_FREE\<close> n] .
      moreover have "i \<notin> unat ` set bs1" using n ns \<open>fat ! i \<noteq> FAT_FREE\<close> by auto
      ultimately show ?thesis
        using grownD(5)[OF g2, of i] \<open>fat1 ! i \<noteq> FAT_FREE\<close> \<open>i < length fat\<close> len by simp
    qed
    ultimately show ?thesis by simp
  qed
  show ?thesis unfolding grown_def
    using 1 2 grownD(1,2)[OF g2] len by simp
qed

lemma chain_nonfree:
  assumes "chain fat b bs" "\<And>x. x \<in> set bs \<Longrightarrow> data_block x" "x \<in> set bs"
  shows "fat ! unat x \<noteq> FAT_FREE"
proof -
  obtain k where "k < length bs" "bs ! k = x" using assms(3) by (auto simp: in_set_conv_nth)
  then show ?thesis using chain_next[OF assms(1), of k] assms(2) data_block_neq(1)
    by (auto split: if_splits)
qed

text \<open>One new block behind the last one.\<close>

lemma grown_append:
  assumes l: "length fat = DISK_BLOCKS" and c: "chain fat b bs" "bs \<noteq> []"
    and db: "\<And>x. x \<in> set bs \<Longrightarrow> data_block x"
    and n: "data_block n" "fat ! unat n = FAT_FREE"
  shows "grown fat bs (fat[unat n := FAT_EOF, unat (last bs) := n]) b (bs @ [n])"
    and "chain (fat[unat n := FAT_EOF]) b bs"
proof -
  have nl: "unat n < length fat" using n(1) l by (simp add: data_block_def)
  have nb: "n \<notin> set bs" using chain_nonfree[OF c(1) db] n(2) by auto
  then show c1: "chain (fat[unat n := FAT_EOF]) b bs" using c(1) by simp
  have "chain (fat[unat n := FAT_EOF, unat (last bs) := n]) b (bs @ [n])"
    by (rule chain_extend[OF c1 c(2)]) (use nl nb n(1) in simp_all)
  moreover have "fat[unat n := FAT_EOF, unat (last bs) := n] ! i \<noteq> FAT_FREE \<and>
      (i \<notin> unat ` set bs \<longrightarrow> fat[unat n := FAT_EOF, unat (last bs) := n] ! i = fat ! i)"
    if "i < length fat" "fat ! i \<noteq> FAT_FREE" for i
  proof -
    have "last bs \<in> set bs" using c(2) by simp
    moreover have "i \<noteq> unat n" using that(2) n(2) by auto
    ultimately show ?thesis using that data_block_neq(1)[OF n(1)]
      by (cases "i = unat (last bs)") auto
  qed
  ultimately show "grown fat bs (fat[unat n := FAT_EOF, unat (last bs) := n]) b (bs @ [n])"
    using n by (simp add: grown_def)
qed

text \<open>The first block of an empty file.\<close>

lemma grown_first:
  assumes "length fat = DISK_BLOCKS" "data_block n" "fat ! unat n = FAT_FREE"
  shows "grown fat [] (fat[unat n := FAT_EOF]) n [n]"
proof -
  have "unat n < length fat" using assms by (simp add: data_block_def)
  then show ?thesis using assms by (auto simp: grown_def nth_list_update)
qed

lemma next_block_spec:
  assumes l: "length fat = DISK_BLOCKS" and c: "chain fat b bs" and k: "k < length bs"
    and db: "\<And>x. x \<in> set bs \<Longrightarrow> data_block x"
  obtains (full) "next_block std_superblock (bs ! k) fat = Some (None, fat)" "disk_full fat"
      "length bs = Suc k"
  | (found) nxt fat' bs' where "next_block std_superblock (bs ! k) fat = Some (Some nxt, fat')"
      "grown fat bs fat' b bs'" "Suc k < length bs'" "nxt = bs' ! Suc k"
proof -
  have bk: "unat (bs ! k) < length fat" using chain_bound[OF c] k by simp
  have nx: "fat ! unat (bs ! k) = (if Suc k < length bs then bs ! Suc k else FAT_EOF)"
    by (rule chain_next[OF c k])
  show thesis
  proof (cases "Suc k < length bs")
    case True
    then have "bs ! Suc k \<noteq> FAT_EOF" using db data_block_neq(2) by simp
    then have "next_block std_superblock (bs ! k) fat = Some (Some (bs ! Suc k), fat)"
      using bk nx True by (simp add: next_block_def)
    then show thesis using found[OF _ grown_refl[OF c] True] by simp
  next
    case False
    then have lk: "length bs = Suc k" using k by simp
    have last: "bs ! k = last bs" using lk by (metis diff_Suc_1 last_conv_nth length_0_conv nat.distinct(1))
    show thesis
    proof (rule allocate_free_block_cases[OF l])
      assume "disk_full fat" "allocate_free_block std_superblock fat = Some (FAT_FREE, fat)"
      then show thesis using full lk bk nx by (simp add: next_block_def)
    next
      fix n assume n: "data_block n" "fat ! unat n = FAT_FREE"
        "allocate_free_block std_superblock fat = Some (n, fat[unat n := FAT_EOF])"
      have ne: "bs \<noteq> []" using lk by auto
      have "next_block std_superblock (bs ! k) fat =
          Some (Some n, fat[unat n := FAT_EOF, unat (last bs) := n])"
        using bk nx lk n(1,3) by (simp add: next_block_def last)
      moreover have "n = (bs @ [n]) ! Suc k" using lk by (metis nth_append_length)
      ultimately show thesis
        using found[OF _ grown_append(1)[OF l c ne db n(1,2)]] lk by simp
    qed
  qed
qed

lemma seek_block_spec:
  assumes l: "length fat = DISK_BLOCKS" and c: "chain fat b bs" "bs \<noteq> []"
    and db: "\<And>x. x \<in> set bs \<Longrightarrow> data_block x" and off: "unat off \<le> length bs * BLOCK_SIZE"
  obtains (full) "seek_block std_superblock b off fat = Some (None, b, fat)" "disk_full fat"
      "unat off = length bs * BLOCK_SIZE"
  | (found) cur fat' bs' where
      "seek_block std_superblock b off fat =
        Some (Some (cur, of_nat (unat off mod BLOCK_SIZE)), b, fat')"
      "grown fat bs fat' b bs'" "unat off div BLOCK_SIZE < length bs'"
      "cur = bs' ! (unat off div BLOCK_SIZE)"
proof -
  let ?k = "unat off div BLOCK_SIZE" and ?o = "of_nat (unat off mod BLOCK_SIZE) :: u32"
  have uo: "unat ?o = unat off mod BLOCK_SIZE"
    using mod_less_divisor[OF BLOCK_SIZE_pos, of "unat off"]
    by (intro unat_of_nat_u32) (simp add: BLOCK_SIZE_def)
  then have small: "\<not> BLOCK32 \<le> ?o"
    unfolding word_le_nat_alt unat_BLOCK32
    using mod_less_divisor[OF BLOCK_SIZE_pos, of "unat off"] by linarith
  note sk = skip_blocks_spec[OF c(1) off]
  show thesis
  proof (cases "?k < length bs")
    case True
    then have "bs ! ?k \<noteq> FAT_EOF" using db data_block_neq(2) by simp
    then have "seek_block std_superblock b off fat = Some (Some (bs ! ?k, ?o), b, fat)"
      using sk True small by (simp add: seek_block_def grow_loop.simps)
    then show thesis using found[OF _ grown_refl[OF c(1)] True] by simp
  next
    case False
    have e: "unat off = length bs * BLOCK_SIZE"
    proof -
      have "length bs * BLOCK_SIZE \<le> ?k * BLOCK_SIZE" using False by simp
      then show ?thesis using off div_times_less_eq_dividend[of "unat off" BLOCK_SIZE] by linarith
    qed
    then have k: "?k = length bs" by simp
    have bE: "b \<noteq> FAT_EOF" using c by (cases bs) auto
    show thesis
    proof (rule allocate_free_block_cases[OF l])
      assume a: "disk_full fat" "allocate_free_block std_superblock fat = Some (FAT_FREE, fat)"
      then have "seek_block std_superblock b off fat = Some (None, b, fat)"
        using sk False small by (simp add: seek_block_def grow_loop.simps attach_block_def)
      then show thesis using full a(1) e by simp
    next
      fix n assume n: "data_block n" "fat ! unat n = FAT_FREE"
        "allocate_free_block std_superblock fat = Some (n, fat[unat n := FAT_EOF])"
      note g = grown_append[OF l c db n(1,2)]
      have ll: "unat (last bs) < length fat" using chain_bound[OF c(1)] c(2) by simp
      have "last_block (fat[unat n := FAT_EOF]) b = Some (last bs)"
        by (rule last_block_spec[OF g(2) c(2)])
      then have "seek_block std_superblock b off fat =
          Some (Some (n, ?o), b, fat[unat n := FAT_EOF, unat (last bs) := n])"
        using sk False small n(1,3) bE ll by (simp add: seek_block_def grow_loop.simps attach_block_def)
      moreover have "n = (bs @ [n]) ! ?k" using k by simp
      ultimately show thesis using found[OF _ g(1)] k by simp
    qed
  qed
qed

section \<open>The block loops\<close>

text \<open>Writing into one block of a chain is overwriting a slice of the bytes of the chain.\<close>

lemma block_bytes_write:
  assumes "distinct bs" "k < length bs" "o' + length ys \<le> BLOCK_SIZE"
    and "\<And>b. b \<in> set bs \<Longrightarrow> blk d' (unat b) =
      (if b = bs ! k then patch (blk d (unat b)) o' ys else blk d (unat b))"
  shows "block_bytes d' bs = patch (block_bytes d bs) (k * BLOCK_SIZE + o') ys"
proof -
  let ?xs = "map (\<lambda>b. blk d (unat b)) bs"
  have "map (\<lambda>b. blk d' (unat b)) bs = ?xs[k := patch (?xs ! k) o' ys]"
  proof (rule nth_equalityI)
    fix j assume "j < length (map (\<lambda>b. blk d' (unat b)) bs)"
    then have j: "j < length bs" by simp
    then have "bs ! j = bs ! k \<longleftrightarrow> j = k" using assms(1,2) by (simp add: nth_eq_iff_index_eq)
    with j assms(2,4) show "map (\<lambda>b. blk d' (unat b)) bs ! j = ?xs[k := patch (?xs ! k) o' ys] ! j"
      by (auto simp: nth_list_update)
  qed simp
  moreover have "concat (?xs[k := patch (?xs ! k) o' ys]) = patch (concat ?xs) (BLOCK_SIZE * k + o') ys"
    by (rule patch_concat_piece[where k = BLOCK_SIZE]) (use assms in auto)
  ultimately show ?thesis by (simp add: block_bytes_def mult.commute)
qed

text \<open>The zero-fill loop is the copy loop on a buffer of zeros.\<close>

lemma fill_loop_eq:
  assumes "unat extended + unat remaining \<le> N" "N < 2 ^ 32"
  shows "fill_loop sb bb block off remaining extended fat d =
    write_loop sb (replicate N 0) bb block off remaining extended fat d"
  using assms(1)
proof (induction "write_measure off remaining" arbitrary: bb block off remaining extended fat d
    rule: less_induct)
  case less
  let ?c = "write_chunk off remaining"
  have le: "unat ?c \<le> unat remaining" using write_chunk_le[of off remaining] by (simp add: word_le_nat_alt)
  have u: "unat (remaining - ?c) = unat remaining - unat ?c" using le by (rule unat_sub_u32)
  have e: "unat (extended + ?c) = unat extended + unat ?c"
    by (rule unat_add_u32) (use less.prems le assms(2) in linarith)
  have m: "memset x (unat off) 0 (unat ?c) = memcpy x (unat off) (replicate N 0) (unat extended) (unat ?c)"
    for x :: "byte list"
    by (rule memset_eq_memcpy) (use less.prems le in linarith)
  have b: "unat (extended + ?c) + unat (remaining - ?c) \<le> N" using less.prems u e le by simp
  have IH: "fill_loop sb bb' nb 0 (remaining - ?c) (extended + ?c) fat' d' =
      write_loop sb (replicate N 0) bb' nb 0 (remaining - ?c) (extended + ?c) fat' d'"
    "\<not> (off + ?c = BLOCK32 \<and> 0 < remaining - ?c) \<Longrightarrow>
      fill_loop sb bb' nb (off + ?c) (remaining - ?c) (extended + ?c) fat' d' =
      write_loop sb (replicate N 0) bb' nb (off + ?c) (remaining - ?c) (extended + ?c) fat' d'"
    if "0 < remaining" for bb' nb fat' d'
    by (rule less.hyps[OF write_measure_next(1)[OF that] b],
        rule less.hyps[OF write_measure_next(2)[OF that] b])
  show ?case
    unfolding fill_loop.simps[of sb bb] write_loop.simps[of sb "replicate N 0" bb] Let_def m
    by (intro if_cong refl prod.case_cong option.case_cong ext) (simp_all add: IH cong: option.case_cong prod.case_cong if_cong)
qed

text \<open>
  What a run of the copy loop guarantees, with \<open>w\<close> bytes of the buffer written before, \<open>r\<close> to go
  and \<open>p\<close> the position in the file: it stops for lack of space only; the chain has grown; the
  bytes it copied are at their place and every block outside the chain is as before.
\<close>

definition loop_post :: "byte list \<Rightarrow> u32 \<Rightarrow> u32 list \<Rightarrow> nat \<Rightarrow> nat \<Rightarrow> nat \<Rightarrow> u32 list \<Rightarrow> disk \<Rightarrow>
    (stop \<times> u32 \<times> u32 list \<times> disk) option \<Rightarrow> bool" where
  "loop_post buf b bs p w r fat d res \<longleftrightarrow> (\<exists>stop m fat' d' bs'.
     res = Some (stop, of_nat (w + m), fat', d') \<and> m \<le> r \<and> grown fat bs fat' b bs' \<and> disk_ready d' \<and>
     (stop = Finished \<and> m = r \<or> stop = NoSpace \<and> m < r \<and> disk_full fat') \<and>
     p + m \<le> length bs' * BLOCK_SIZE \<and>
     block_bytes d' bs' = patch (block_bytes d bs') p (take m (drop w buf)) \<and>
     (\<forall>c < DISK_BLOCKS. c \<notin> unat ` set bs' \<longrightarrow> blk d' c = blk d c))"

lemma loop_post_stop:
  assumes "chain fat b bs" "disk_ready d" "p \<le> length bs * BLOCK_SIZE"
    and "stop = Finished \<and> r = 0 \<or> stop = NoSpace \<and> 0 < r \<and> disk_full fat"
  shows "loop_post buf b bs p (unat w) r fat d (Some (stop, w, fat, d))"
  unfolding loop_post_def
  by (rule exI[of _ stop], rule exI[of _ 0], rule exI[of _ fat], rule exI[of _ d], rule exI[of _ bs])
    (use assms in \<open>auto simp: grown_refl\<close>)

lemma loop_post_step:
  assumes l: "length fat = DISK_BLOCKS" and g: "grown fat bs fat1 b bs1" and k: "k < length bs"
    and db: "\<And>x. x \<in> set bs \<Longrightarrow> data_block x"
    and post: "loop_post buf b bs1 (k * BLOCK_SIZE + o' + c) (w + c) (r - c) fat1 d1 res"
    and c: "c \<le> r" "w + r \<le> length buf" "o' + c \<le> BLOCK_SIZE"
    and d1: "\<And>x. x < DISK_BLOCKS \<Longrightarrow> blk d1 x =
      (if x = unat (bs ! k) then patch (blk d x) o' (take c (drop w buf)) else blk d x)"
  shows "loop_post buf b bs (k * BLOCK_SIZE + o') w r fat d res"
proof -
  let ?p = "k * BLOCK_SIZE + o'"
  obtain stop m fat' d' bs' where
    res: "res = Some (stop, of_nat (w + c + m), fat', d')" "m \<le> r - c" "grown fat1 bs1 fat' b bs'"
      "disk_ready d'" "stop = Finished \<and> m = r - c \<or> stop = NoSpace \<and> m < r - c \<and> disk_full fat'"
      "?p + c + m \<le> length bs' * BLOCK_SIZE"
      "block_bytes d' bs' = patch (block_bytes d1 bs') (?p + c) (take m (drop (w + c) buf))"
      "\<And>x. x < DISK_BLOCKS \<Longrightarrow> x \<notin> unat ` set bs' \<Longrightarrow> blk d' x = blk d1 x"
    using post unfolding loop_post_def by blast
  have g2: "grown fat bs fat' b bs'" by (rule grown_trans[OF l g res(3)])
  obtain ns where ns: "bs' = bs @ ns" using grownD(3)[OF g2] by blast
  have k': "k < length bs'" "bs' ! k = bs ! k" using ns k by (simp_all add: nth_append)
  have db': "data_block x" if "x \<in> set bs'" for x by (rule grown_data[OF g2 db that])
  have lt: "length (take c (drop w buf)) = c" using c by simp
  have b1: "block_bytes d1 bs' = patch (block_bytes d bs') ?p (take c (drop w buf))"
  proof (rule block_bytes_write[OF chain_distinct[OF grownD(2)[OF g2]] k'(1)])
    show "o' + length (take c (drop w buf)) \<le> BLOCK_SIZE" using c lt by simp
    show "blk d1 (unat x) = (if x = bs' ! k then patch (blk d (unat x)) o' (take c (drop w buf))
        else blk d (unat x))" if "x \<in> set bs'" for x
      using d1[of "unat x"] db'[OF that] k'(2) by (simp add: data_block_def)
  qed
  have "take (c + m) (drop w buf) = take c (drop w buf) @ take m (drop (w + c) buf)"
    using take_add[of c m "drop w buf"] by (simp add: add.commute)
  moreover have "length (take m (drop (w + c) buf)) = m" using c res(2) by simp
  ultimately have bytes: "block_bytes d' bs' = patch (block_bytes d bs') ?p (take (c + m) (drop w buf))"
    unfolding res(7) b1
    using patch_patch_adjacent[of ?p "take c (drop w buf)" "take m (drop (w + c) buf)" "block_bytes d bs'"]
      lt res(6) by simp
  have "blk d' x = blk d x" if "x < DISK_BLOCKS" "x \<notin> unat ` set bs'" for x
    using res(8)[OF that] d1[OF that(1)] that(2) k' by (metis image_eqI nth_mem)
  then show ?thesis unfolding loop_post_def
    by (intro exI[of _ stop] exI[of _ "c + m"] exI[of _ fat'] exI[of _ d'] exI[of _ bs'])
      (use res g2 bytes c(1) in \<open>auto simp: add.assoc\<close>)
qed

lemma write_loop_done: "write_loop sb buf bb block off 0 w fat d = Some (Finished, w, fat, d)"
  by (simp add: write_loop.simps)

lemma write_loop_spec:
  assumes "length fat = DISK_BLOCKS" "chain fat b bs" "\<And>x. x \<in> set bs \<Longrightarrow> data_block x" "disk_ready d"
    and "length bb = BLOCK_SIZE" "k < length bs" "block = bs ! k" "unat off < BLOCK_SIZE"
    and "unat w + unat r \<le> length buf" "length buf < 2 ^ 32"
  shows "loop_post buf b bs (k * BLOCK_SIZE + unat off) (unat w) (unat r) fat d
    (write_loop std_superblock buf bb block off r w fat d)"
  using assms(1-9)
proof (induction "unat r" arbitrary: fat bs d bb k block off w r rule: less_induct)
  case less
  note p = less.prems
  show ?case
  proof (cases "0 < r")
    case False
    then have r0: "r = 0" by (simp add: word_gt_0)
    have "k * BLOCK_SIZE + unat off \<le> Suc k * BLOCK_SIZE" using p(8) by simp
    also have "\<dots> \<le> length bs * BLOCK_SIZE" using p(6) by (intro mult_le_mono1) simp
    finally show ?thesis using loop_post_stop[OF p(2,4)] r0 by (simp add: write_loop_done)
  next
    case True
    define ch where "ch = write_chunk off r"
    define c where "c = unat ch"
    have cm: "c = min (unat r) (BLOCK_SIZE - unat off)"
    proof -
      have "unat (BLOCK32 - off) = BLOCK_SIZE - unat off" using p(8) by (simp add: unat_sub_u32)
      then show ?thesis unfolding c_def ch_def write_chunk_def Let_def unat_min_u32 by simp
    qed
    have rp: "0 < unat r" using True by (simp add: unat_gt_0)
    have c: "c \<le> unat r" "unat off + c \<le> BLOCK_SIZE" "0 < c" using cm p(8) rp by simp_all
    have rc: "unat (r - ch) = unat r - c" unfolding c_def by (rule unat_sub_u32) (use c(1) c_def in simp)
    have wc: "unat (w + ch) = unat w + c"
      unfolding c_def by (rule unat_add_u32) (use c(1) c_def p(9) assms(10) in linarith)
    have oc: "unat (off + ch) = unat off + c"
      unfolding c_def by (rule unat_add_u32) (use c(2) c_def in \<open>simp add: BLOCK_SIZE_def\<close>)
    have db: "data_block block" using p(3,6,7) by simp
    then have bb: "unat block < DISK_BLOCKS" "sint block = int (unat block)"
      by (simp_all add: data_block_def sint_small DISK_BLOCKS_def)
    define bb1 where "bb1 = patch (blk d (unat block)) (unat off) (take c (drop (unat w) buf))"
    define d1 where "d1 = snd (block_write (sint block) bb1 d)"
    have lt: "length (take c (drop (unat w) buf)) = c" using c(1) p(9) by simp
    have lb: "length bb1 = BLOCK_SIZE" unfolding bb1_def using lt c(2) by simp
    have rd: "block_read (sint block) bb d = (0, blk d (unat block))"
      unfolding bb(2) by (rule vdisk.read_law[OF p(4) bb(1) p(5)])
    have mc: "memcpy (blk d (unat block)) (unat off) buf (unat w) (unat ch) = Some bb1"
      using c p(9) by (simp add: bb1_def flip: c_def)
    have wr: "block_write (sint block) bb1 d = (0, d1)" "disk_ready d1"
      "\<And>x. x < DISK_BLOCKS \<Longrightarrow> blk d1 x = (if x = unat block then bb1 else blk d x)"
      using vdisk.write_ret[OF p(4) bb(1) lb] vdisk.write_ready[OF p(4) bb(1) lb]
        vdisk.write_law[OF p(4) bb(1) lb] unfolding d1_def bb(2) by (auto simp: prod_eq_iff)
    have eq: "write_loop std_superblock buf bb block off r w fat d =
      (if off + ch = BLOCK32 \<and> 0 < r - ch then
         (case next_block std_superblock block fat of None \<Rightarrow> None
          | Some (None, fat) \<Rightarrow> Some (NoSpace, w + ch, fat, d1)
          | Some (Some nxt, fat) \<Rightarrow> write_loop std_superblock buf bb1 nxt 0 (r - ch) (w + ch) fat d1)
       else write_loop std_superblock buf bb1 block (off + ch) (r - ch) (w + ch) fat d1)"
      using True rd mc wr(1) by (subst write_loop.simps) (simp add: ch_def[symmetric] Let_def)
    have step: "loop_post buf b bs (k * BLOCK_SIZE + unat off) (unat w) (unat r) fat d res"
      if "grown fat bs fat1 b bs1"
        "loop_post buf b bs1 (k * BLOCK_SIZE + unat off + c) (unat w + c) (unat r - c) fat1 d1 res"
      for fat1 bs1 res
      by (rule loop_post_step[OF p(1) that(1) p(6,3) that(2) c(1) p(9) c(2)])
        (use wr(3) p(7) in \<open>auto simp: bb1_def\<close>)
    have less_r: "unat (r - ch) < unat r" using rc c by simp
    have room: "unat (w + ch) + unat (r - ch) \<le> length buf" using rc wc c(1) p(9) by simp
    have cap: "k * BLOCK_SIZE + unat off + c \<le> length bs * BLOCK_SIZE"
    proof -
      have "Suc k * BLOCK_SIZE \<le> length bs * BLOCK_SIZE" using p(6) by (intro mult_le_mono1) simp
      then show ?thesis using c(2) by simp
    qed
    consider (stay) "unat (off + ch) < BLOCK_SIZE" | (fin) "unat r = c"
      | (cross) "unat off + c = BLOCK_SIZE" "0 < unat r - c"
      using c(1,2) oc by linarith
    then show ?thesis
    proof cases
      case stay
      then have ne: "off + ch \<noteq> BLOCK32" by auto
      have "loop_post buf b bs (k * BLOCK_SIZE + unat (off + ch)) (unat (w + ch)) (unat (r - ch)) fat d1
          (write_loop std_superblock buf bb1 block (off + ch) (r - ch) (w + ch) fat d1)"
        by (rule less.hyps[OF less_r p(1-3) wr(2) lb p(6,7) stay room])
      then show ?thesis
        using ne by (intro step[OF grown_refl[OF p(2)]]) (simp add: eq oc wc rc add.assoc)
    next
      case fin
      then have r0: "r - ch = 0" using rc by (simp add: unat_eq_zero)
      then show ?thesis
        using loop_post_stop[OF p(2) wr(2) cap, of Finished 0 buf "w + ch"] fin wc
        unfolding eq r0 by (intro step[OF grown_refl[OF p(2)]]) (simp add: write_loop_done)
    next
      case cross
      have cr: "off + ch = BLOCK32" "0 < r - ch"
        using cross oc rc by (simp_all add: word_unat_eq_iff word_less_nat_alt)
      show ?thesis
      proof (rule next_block_spec[OF p(1,2,6,3)])
        assume n: "next_block std_superblock (bs ! k) fat = Some (None, fat)" "disk_full fat"
        have "loop_post buf b bs (k * BLOCK_SIZE + unat off + c) (unat (w + ch)) (unat r - c) fat d1
            (Some (NoSpace, w + ch, fat, d1))"
          using n(2) cross(2) by (intro loop_post_stop[OF p(2) wr(2) cap]) simp
        then show ?thesis
          using n(1) cr p(7) unfolding eq by (intro step[OF grown_refl[OF p(2)]]) (simp add: wc)
      next
        fix nxt fat1 bs1
        assume n: "next_block std_superblock (bs ! k) fat = Some (Some nxt, fat1)"
          "grown fat bs fat1 b bs1" "Suc k < length bs1" "nxt = bs1 ! Suc k"
        have l1: "length fat1 = DISK_BLOCKS" using grownD(1)[OF n(2)] p(1) by simp
        have db1: "data_block x" if "x \<in> set bs1" for x by (rule grown_data[OF n(2) p(3) that])
        have lp: "loop_post buf b bs1 (Suc k * BLOCK_SIZE + unat (0::u32)) (unat (w + ch)) (unat (r - ch)) fat1 d1
            (write_loop std_superblock buf bb1 nxt 0 (r - ch) (w + ch) fat1 d1)"
          by (rule less.hyps[OF less_r l1 grownD(2)[OF n(2)] db1 wr(2) lb n(3,4) _ room]) simp_all
        have e: "Suc k * BLOCK_SIZE + unat (0::u32) = k * BLOCK_SIZE + unat off + c"
          using cross(1) by simp
        show ?thesis
          using n(1) cr p(7) lp unfolding eq e wc rc by (intro step[OF n(2)]) simp
      qed
    qed
  qed
qed

end
