(* ===== verification/FsTruncate.thy ===== *)
theory FsTruncate
  imports FsFiles
begin

text \<open>
  \<open>fs_truncate\<close>: the walk to the last kept block, the release of the rest of the chain, and
  the call.
\<close>

section \<open>The walk and the cut\<close>

lemma truncate_walk_spec:
  assumes "chain fat b bs" "unat done \<le> unat len" "unat len < 2 ^ 31"
    "unat len - unat done \<le> length bs * BLOCK_SIZE"
  shows "truncate_walk fat b done len =
    Some (let k = (unat len - unat done) div BLOCK_SIZE in if k < length bs then bs ! k else FAT_EOF)"
  using assms
proof (induction bs arbitrary: b "done")
  case Nil
  then show ?case by (simp add: truncate_walk.simps)
next
  case (Cons x xs)
  have u: "unat (done + BLOCK32) = unat done + BLOCK_SIZE"
    using Cons.prems(2,3) by (subst unat_add_u32) (simp_all add: BLOCK_SIZE_def)
  show ?case
  proof (cases "done + BLOCK32 \<le> len")
    case False
    then have "\<not> unat done + BLOCK_SIZE \<le> unat len" by (simp add: word_le_nat_alt u)
    then have "unat len - unat done < BLOCK_SIZE" using Cons.prems(2) by arith
    with False Cons.prems show ?thesis by (simp add: truncate_walk.simps[of fat x])
  next
    case True
    then have le: "unat done + BLOCK_SIZE \<le> unat len" by (simp add: word_le_nat_alt u)
    then have ge: "BLOCK_SIZE \<le> unat len - unat done" by linarith
    have e: "unat len - unat (done + BLOCK32) = unat len - unat done - BLOCK_SIZE" by (simp add: u)
    have "truncate_walk fat b done len = truncate_walk fat (fat ! unat x) (done + BLOCK32) len"
      using True Cons.prems(1) by (simp add: truncate_walk.simps[of fat x])
    also have "\<dots> = Some (let k = (unat len - unat done - BLOCK_SIZE) div BLOCK_SIZE in
        if k < length xs then xs ! k else FAT_EOF)"
      using Cons.IH[of "fat ! unat x" "done + BLOCK32"] Cons.prems le e u by simp
    finally show ?thesis using ge by (simp add: Let_def le_div_geq)
  qed
qed

lemma truncate_chain_spec:
  assumes "chain fat b bs" "k < length bs" "FAT_FREE \<notin> set bs"
  shows "\<exists>fat'. truncate_chain fat (bs ! k) = Some fat' \<and> length fat' = length fat \<and>
    chain fat' b (take (Suc k) bs) \<and>
    (\<forall>i < length fat. i \<notin> unat ` set (drop k bs) \<longrightarrow> fat' ! i = fat ! i) \<and>
    (\<forall>c \<in> set (drop (Suc k) bs). fat' ! unat c = FAT_FREE)"
proof -
  have ck: "unat (bs ! k) < length fat" "bs ! k \<noteq> FAT_EOF"
    using chain_bound[OF assms(1), of "bs ! k"] assms(2) by auto
  have d: "distinct bs" by (rule chain_distinct[OF assms(1)])
  have "FAT_FREE \<notin> set (drop (Suc k) bs)" using assms(3) by (auto dest: in_set_dropD)
  from free_block_chain_spec[OF chain_drop[OF assms(1,2)] this] obtain fat1 where
    f1: "free_block_chain (fat ! unat (bs ! k)) fat = Some fat1" "length fat1 = length fat"
      "\<And>i. i < length fat \<Longrightarrow> fat1 ! i = (if i \<in> unat ` set (drop (Suc k) bs) then FAT_FREE else fat ! i)"
    by blast
  let ?fat = "fat1[unat (bs ! k) := FAT_EOF]"
  have bk: "bs ! k \<notin> set (drop (Suc k) bs)"
    using d assms(2) by (metis Cons_nth_drop_Suc distinct.simps(2) distinct_drop)
  have dk: "set (drop k bs) = insert (bs ! k) (set (drop (Suc k) bs))"
    using assms(2) by (metis Cons_nth_drop_Suc list.simps(15))
  have nth: "?fat ! i = fat[unat (bs ! k) := FAT_EOF] ! i"
    if "i < length fat" "i \<notin> unat ` set (drop (Suc k) bs)" for i
    using that f1(2,3) by (cases "i = unat (bs ! k)") simp_all
  have "chain (fat[unat (bs ! k) := FAT_EOF]) b (take (Suc k) bs)"
    by (rule chain_cut[OF assms(1,2)])
  moreover have "set (take (Suc k) bs) \<inter> set (drop (Suc k) bs) = {}"
    using d by (metis append_take_drop_id distinct_append)
  then have "unat ` set (take (Suc k) bs) \<inter> unat ` set (drop (Suc k) bs) = {}"
    by (simp add: image_Int[symmetric] inj_on_def)
  ultimately have "chain ?fat b (take (Suc k) bs)"
    using nth f1(2) chain_frame[of "take (Suc k) bs" "unat ` set (drop (Suc k) bs)" ?fat
        "fat[unat (bs ! k) := FAT_EOF]" b] by simp
  moreover have "?fat ! i = fat ! i" if "i < length fat" "i \<notin> unat ` set (drop k bs)" for i
    using nth[of i] that by (simp add: dk nth_list_update)
  moreover have "?fat ! unat c = FAT_FREE" if c: "c \<in> set (drop (Suc k) bs)" for c
  proof -
    have "unat c < length fat" using c chain_bound[OF assms(1)] by (auto dest: in_set_dropD)
    moreover have "unat c \<noteq> unat (bs ! k)" using c bk by auto
    ultimately show ?thesis using f1(2,3) c by (simp add: nth_list_update)
  qed
  ultimately show ?thesis using f1(1,2) ck by (simp add: truncate_chain_def)
qed

text \<open>Both steps together: the file keeps \<open>len div BLOCK_SIZE + 1\<close> blocks, or all it has.\<close>

lemma truncate_blocks:
  assumes "chain fat b bs" "FAT_FREE \<notin> set bs" "unat len < 2 ^ 31" "unat len \<le> length bs * BLOCK_SIZE"
  obtains block fat' bs' where "truncate_walk fat b 0 len = Some block"
    "truncate_chain fat block = Some fat'" "length fat' = length fat" "chain fat' b bs'"
    "bs' = take (Suc (unat len div BLOCK_SIZE)) bs" "unat len \<le> length bs' * BLOCK_SIZE"
    "\<And>i. i < length fat \<Longrightarrow> i \<notin> unat ` set bs \<Longrightarrow> fat' ! i = fat ! i"
proof -
  let ?k = "unat len div BLOCK_SIZE"
  have w: "truncate_walk fat b 0 len = Some (if ?k < length bs then bs ! ?k else FAT_EOF)"
    using truncate_walk_spec[OF assms(1), of 0 len] assms(3,4) by (simp add: Let_def)
  show ?thesis
  proof (cases "?k < length bs")
    case True
    from truncate_chain_spec[OF assms(1) True assms(2)] obtain fat' where
      f: "truncate_chain fat (bs ! ?k) = Some fat'" "length fat' = length fat"
        "chain fat' b (take (Suc ?k) bs)"
        "\<And>i. i < length fat \<Longrightarrow> i \<notin> unat ` set (drop ?k bs) \<Longrightarrow> fat' ! i = fat ! i" by blast
    have "unat len \<le> Suc ?k * BLOCK_SIZE"
      using div_mult_mod_eq[of "unat len" BLOCK_SIZE] mod_less_divisor[OF BLOCK_SIZE_pos, of "unat len"]
      unfolding mult_Suc by linarith
    then have "unat len \<le> length (take (Suc ?k) bs) * BLOCK_SIZE"
      using True by (simp add: min_absorb2 Suc_leI)
    moreover have "fat' ! i = fat ! i" if "i < length fat" "i \<notin> unat ` set bs" for i
      using that f(4) by (auto dest: in_set_dropD)
    ultimately show ?thesis using that[OF _ f(1-3)] w True by simp
  next
    case False
    then have "take (Suc ?k) bs = bs" by simp
    then show ?thesis using that[of FAT_EOF fat bs] w False assms(1,4) by (simp add: truncate_chain_def)
  qed
qed

section \<open>The call\<close>

lemma block_bytes_take: "block_bytes d (take m bs) = take (m * BLOCK_SIZE) (block_bytes d bs)"
proof -
  have "take (BLOCK_SIZE * m) (concat (map (\<lambda>b. blk d (unat b)) bs)) =
      concat (take m (map (\<lambda>b. blk d (unat b)) bs))"
    by (rule take_concat_const) auto
  then show ?thesis by (simp add: block_bytes_def take_map mult.commute)
qed

lemma take_block_bytes_take:
  assumes "n \<le> length (take m bs) * BLOCK_SIZE"
  shows "take n (block_bytes d (take m bs)) = take n (block_bytes d bs)"
proof (cases "m \<le> length bs")
  case True
  with assms show ?thesis by (simp add: block_bytes_take min_absorb2)
qed simp

lemma fd_offset_id: "(fds ! k)\<lparr>fd_offset := fd_offset (fds ! k)\<rparr> = fds ! k"
  by simp

lemma fs_truncate_valid:
  assumes inv: "fs_inv s" and fd: "valid_fd (int k) s" "k < FS_MAX_FILE_DESCRIPTORS"
    "i = unat (dir_entry_index (fd_table s ! k))" "used (root_directory s) i"
    "fd_entry (int k) s = Some (root_directory s ! i)"
    "abs_handles s k = Some (nm, unat (fd_offset (fd_table s ! k)))"
    "unat (fd_offset (fd_table s ! k)) \<le> DISK_BLOCKS * BLOCK_SIZE"
    and nm: "nm = cstr (filename (root_directory s ! i))"
    and n: "n \<le> length (file_data s i)"
  shows "\<exists>s'. fs_truncate (int k) (int n) s = Some (0, s') \<and> fs_inv s' \<and>
    abs_fs s' = \<lparr>afiles = (abs_files s)(nm \<mapsto> take n (file_data s i)),
      ahandles = (abs_handles s)(k \<mapsto> (nm, min (unat (fd_offset (fd_table s ! k))) n))\<rparr>"
proof -
  note I = fs_invD[OF inv]
  define e where "e = root_directory s ! i"
  define len where "len = (of_nat n :: u32)"
  note lf = length_file_data[OF inv fd(4)]
  have nb: "n < 2 ^ 31" using n lf(2) by (simp add: DISK_BYTES)
  then have len: "unat len = n" "unat len < 2 ^ 31" by (simp_all add: len_def)
  have sz: "unat len \<le> unat (filesize e)" using n lf(1) len(1) by (simp add: e_def)
  let ?bs = "entry_blocks (fat_table s) e"
  have ok: "entry_ok (fat_table s) e" unfolding e_def by (rule alloc_okD(1)[OF I(5) fd(4)])
  have free: "FAT_FREE \<notin> set ?bs" using entry_okD(2)[OF ok] data_block_neq(1) by blast
  have cap: "unat len \<le> length ?bs * BLOCK_SIZE" using sz entry_okD(3)[OF ok] by linarith
  obtain block fat bs where
    t: "truncate_walk (fat_table s) (first_block_index e) 0 len = Some block"
      "truncate_chain (fat_table s) block = Some fat" "length fat = length (fat_table s)"
      "chain fat (first_block_index e) bs" "bs = take (Suc (unat len div BLOCK_SIZE)) ?bs"
      "unat len \<le> length bs * BLOCK_SIZE"
      "\<And>j. j < length (fat_table s) \<Longrightarrow> j \<notin> unat ` set ?bs \<Longrightarrow> fat ! j = fat_table s ! j"
    by (rule truncate_blocks[OF entry_okD(1)[OF ok] free len(2) cap]) (rule that)
  define e' where "e' = e\<lparr>filesize := len\<rparr>"
  define off where "off = (if len < fd_offset (fd_table s ! k) then len else fd_offset (fd_table s ! k))"
  define fds where "fds = (fd_table s)[k := (fd_table s ! k)\<lparr>fd_offset := off\<rparr>]"
  have off: "unat off = min (unat (fd_offset (fd_table s ! k))) n"
    unfolding off_def by (simp add: unat_min_u32 len(1))
  have eb: "entry_blocks fat e' = bs" using t(4) by (intro entry_blocks_eq) (simp add: e'_def)
  have sub: "set bs \<subseteq> set ?bs" unfolding t(5) by (rule set_take_subset)
  have ok': "entry_ok fat e'"
    using t(4,6) ok sub by (auto simp: entry_ok_def eb) (auto simp: e'_def)
  let ?s1 = "s\<lparr>fat_table := fat, root_directory := (root_directory s)[i := e'], fd_table := fds\<rparr>"
  have fl: "length (filename e') = FS_MAX_FILENAME_LENGTH"
    using I(4) used_less[OF fd(4)] by (simp add: e'_def e_def dir_shape_def)
  have "fs_static ?s1" using I(10) t(3) fl by (simp add: fs_static_def dir_shape_update)
  from write_metadata_frame[OF this] obtain d' where
    d': "write_metadata_to_disk ?s1 = Some (?s1\<lparr>fs_disk := d'\<rparr>)" "disk_ready d'"
      "\<And>b. data_block b \<Longrightarrow> blk d' (unat b) = blk (fs_disk s) (unat b)" by auto
  have st: "(if len < fd_offset (fd_table s ! k)
      then set_fd_offset (int k) len (set_fd_entry (int k) e' (s\<lparr>fat_table := fat\<rparr>))
      else set_fd_entry (int k) e' (s\<lparr>fat_table := fat\<rparr>)) = ?s1"
    by (simp add: set_fd_offset_def set_fd_entry_def fds_def off_def fd(3))
  have run: "fs_truncate (int k) (int n) s = Some (0, ?s1\<lparr>fs_disk := d'\<rparr>)"
    using fd(1,5) I(1) sz t(1,2) d'(1) st
    by (simp add: fs_truncate_def word_less_nat_alt flip: e_def len_def e'_def)
  have fds_ok: "fds_ok fds (root_directory s)"
    unfolding fds_def using fd(7) off by (intro fds_ok_offset[OF I(7) fd(2)]) simp
  have fr: "fat ! unat b = fat_table s ! unat b \<and> blk d' (unat b) = blk (fs_disk s) (unat b) \<and>
      b \<notin> set (entry_blocks fat e')"
    if "used (root_directory s) j" "j \<noteq> i"
      "b \<in> set (entry_blocks (fat_table s) (root_directory s ! j))" for j b
  proof -
    have "b \<notin> set ?bs" using alloc_okD(2)[OF I(5) fd(4) that(1)] that(2,3) by (auto simp: e_def)
    moreover have "data_block b" using entry_okD(2)[OF alloc_okD(1)[OF I(5) that(1)] that(3)] .
    ultimately show ?thesis using t(7) d'(3) I(3) sub by (auto simp: data_block_def eb)
  qed
  have e'_use: "in_use e' \<noteq> 0" "filename e' = filename (root_directory s ! i)"
    using fd(4) by (simp_all add: e'_def e_def used_def)
  have len_fat: "length fat = DISK_BLOCKS" using t(3) I(3) by simp
  note rep = replace_entry[OF inv fd(4) e'_use ok' len_fat d'(2) fds_ok fr]
  let ?s2 = "s\<lparr>fat_table := fat, root_directory := (root_directory s)[i := e'], fd_table := fds,
      fs_disk := d'\<rparr>"
  have "take (unat (filesize e')) (block_bytes d' (entry_blocks fat e')) = take n (file_data s i)"
  proof -
    have fz: "filesize e' = len" by (simp add: e'_def)
    have "block_bytes d' bs = block_bytes (fs_disk s) bs"
      by (rule block_bytes_cong) (use d'(3) sub entry_okD(2)[OF ok] in blast)
    then have "take n (block_bytes d' bs) = take n (block_bytes (fs_disk s) ?bs)"
      using t(5,6) len(1) take_block_bytes_take[of n "Suc (n div BLOCK_SIZE)" ?bs] by simp
    then show ?thesis
      using sz len(1) fz by (simp add: eb file_data_def Let_def min_absorb1 flip: e_def)
  qed
  moreover have "abs_handles ?s2 = (abs_handles s)(k \<mapsto> (nm, unat off))"
    by (rule abs_handles_offset[OF inv fd(2,6)])
      (use used_less[OF fd(4)] e'_use in \<open>auto simp: fds_def nth_list_update\<close>)
  ultimately show ?thesis using run rep off by (simp add: abs_fs_def nm)
qed

lemma fs_truncate_sim:
  assumes inv: "fs_inv s" and len: "len < 2 ^ 32"
  shows "\<exists>r s'. fs_truncate fd len s = Some (r, s') \<and> fs_inv s' \<and>
    (r, abs_fs s') = a_truncate fd len (abs_fs s)"
proof (rule fd_cases[OF inv, of fd])
  assume "\<not> valid_fd fd s" "a_handle fd (abs_fs s) = None"
  then show ?thesis using inv by (simp add: fs_truncate_def a_truncate_def)
next
  fix k i
  assume a: "valid_fd fd s" "fd = int k" "k < FS_MAX_FILE_DESCRIPTORS"
    "i = unat (dir_entry_index (fd_table s ! k))" "used (root_directory s) i"
    "fd_entry fd s = Some (root_directory s ! i)"
    "abs_handles s k = Some (cstr (filename (root_directory s ! i)), unat (fd_offset (fd_table s ! k)))"
    "a_handle fd (abs_fs s) =
      Some (cstr (filename (root_directory s ! i)), unat (fd_offset (fd_table s ! k)))"
    "unat (fd_offset (fd_table s ! k)) \<le> DISK_BLOCKS * BLOCK_SIZE"
    "abs_files s (cstr (filename (root_directory s ! i))) = Some (file_data s i)"
  have m: "mounted s" by (rule fs_invD(1)[OF inv])
  show ?thesis
  proof (cases "len < 0 \<or> int (length (file_data s i)) < len")
    case True
    have "filesize (root_directory s ! i) < word_of_int len" if "0 \<le> len"
    proof -
      have "int (unat (word_of_int len :: u32)) = len" using that assms(2)
        by (simp add: unsigned_of_int take_bit_int_eq_self)
      then show ?thesis using True that length_file_data(1)[OF inv a(5)] by (simp add: word_less_def)
    qed
    then show ?thesis using True inv a m by (auto simp: fs_truncate_def a_truncate_def not_less)
  next
    case False
    define n where "n = nat len"
    have n: "len = int n" "n \<le> length (file_data s i)" using False by (auto simp: n_def)
    from fs_truncate_valid[OF inv _ a(3,4,5) _ a(7,9) refl n(2)] a(1,2,6) obtain s' where
      s': "fs_truncate (int k) (int n) s = Some (0, s')" "fs_inv s'"
        "abs_fs s' = \<lparr>afiles = (abs_files s)(cstr (filename (root_directory s ! i)) \<mapsto> take n (file_data s i)),
          ahandles = (abs_handles s)(k \<mapsto> (cstr (filename (root_directory s ! i)),
            min (unat (fd_offset (fd_table s ! k))) n))\<rparr>" by auto
    have "a_truncate fd len (abs_fs s) = (0, abs_fs s')"
      using a(2,8,10) n s'(3) by (simp add: a_truncate_def abs_fs_def)
    then show ?thesis using s'(1,2) a(2) n(1) by simp
  qed
qed

end
