(* ===== verification/FsStore.thy ===== *)
theory FsStore
  imports FsGrow FsTruncate
begin

text \<open>
  \<open>fs_write\<close> against its specification: the stages of the call (first block, gap, data, final
  update) one by one, then the call.
\<close>

section \<open>The file behind a descriptor\<close>

definition fd_file :: "fs \<Rightarrow> nat \<Rightarrow> nat \<Rightarrow> bool" where
  "fd_file s k i \<longleftrightarrow> fs_inv s \<and> k < FS_MAX_FILE_DESCRIPTORS \<and> fd_in_use (fd_table s ! k) \<noteq> 0 \<and>
     i = unat (dir_entry_index (fd_table s ! k))"

definition file_blocks :: "fs \<Rightarrow> nat \<Rightarrow> u32 list" where
  "file_blocks s i = entry_blocks (fat_table s) (root_directory s ! i)"

definition file_name :: "fs \<Rightarrow> nat \<Rightarrow> cstring" where
  "file_name s i = cstr (filename (root_directory s ! i))"

lemma fd_fileD:
  assumes "fd_file s k i"
  shows "fs_inv s" "k < FS_MAX_FILE_DESCRIPTORS" "i = unat (dir_entry_index (fd_table s ! k))"
    "used (root_directory s) i" "fd_entry (int k) s = Some (root_directory s ! i)" "valid_fd (int k) s"
    "abs_handles s k = Some (file_name s i, unat (fd_offset (fd_table s ! k)))"
    "abs_files s (file_name s i) = Some (file_data s i)"
    "unat (fd_offset (fd_table s ! k)) \<le> DISK_BLOCKS * BLOCK_SIZE"
proof -
  show a: "fs_inv s" "k < FS_MAX_FILE_DESCRIPTORS" "i = unat (dir_entry_index (fd_table s ! k))"
    using assms by (simp_all add: fd_file_def)
  show v: "valid_fd (int k) s" using assms by (simp add: fd_file_def valid_fd_def)
  obtain j where "valid_fd (int k) s" "j = unat (dir_entry_index (fd_table s ! k))"
    "used (root_directory s) j" "fd_entry (int k) s = Some (root_directory s ! j)"
    "abs_handles s k = Some (cstr (filename (root_directory s ! j)), unat (fd_offset (fd_table s ! k)))"
    "unat (fd_offset (fd_table s ! k)) \<le> DISK_BLOCKS * BLOCK_SIZE"
    "abs_files s (cstr (filename (root_directory s ! j))) = Some (file_data s j)"
    by (rule fd_cases[OF a(1), of "int k"]) (use v in auto)
  then show "used (root_directory s) i" "fd_entry (int k) s = Some (root_directory s ! i)"
    "abs_handles s k = Some (file_name s i, unat (fd_offset (fd_table s ! k)))"
    "abs_files s (file_name s i) = Some (file_data s i)"
    "unat (fd_offset (fd_table s ! k)) \<le> DISK_BLOCKS * BLOCK_SIZE"
    by (simp_all add: a(3) file_name_def)
qed

lemma file_blocksD:
  assumes "fs_inv s" "used (root_directory s) i"
  shows "chain (fat_table s) (first_block_index (root_directory s ! i)) (file_blocks s i)"
    and "\<And>b. b \<in> set (file_blocks s i) \<Longrightarrow> data_block b"
    and "unat (filesize (root_directory s ! i)) \<le> length (file_blocks s i) * BLOCK_SIZE"
    and "file_data s i = take (unat (filesize (root_directory s ! i)))
      (block_bytes (fs_disk s) (file_blocks s i))"
    and "length (file_data s i) = unat (filesize (root_directory s ! i))"
  using entry_okD[OF alloc_okD(1)[OF fs_invD(5)[OF assms(1)] assms(2)]] length_file_data(1)[OF assms]
  by (auto simp: file_blocks_def file_data_def Let_def)

text \<open>The state after the chain of a file has grown and its blocks were written.\<close>

definition grow_file :: "nat \<Rightarrow> u32 list \<Rightarrow> u32 \<Rightarrow> u32 \<Rightarrow> disk \<Rightarrow> fs \<Rightarrow> fs" where
  "grow_file i fat b n d s = s\<lparr>fat_table := fat, root_directory := (root_directory s)[i :=
     (root_directory s ! i)\<lparr>first_block_index := b, filesize := n\<rparr>], fs_disk := d\<rparr>"

lemma grow_file_spec:
  assumes fd: "fd_file s k i" and g: "grown (fat_table s) (file_blocks s i) fat b bs"
    and n: "unat n \<le> length bs * BLOCK_SIZE" and d: "disk_ready d"
    and frame: "\<forall>c < DISK_BLOCKS. c \<notin> unat ` set bs \<longrightarrow> blk d c = blk (fs_disk s) c"
  defines "s' \<equiv> grow_file i fat b n d s"
  shows "fd_file s' k i" and "file_blocks s' i = bs"
    and "abs_files s' = (abs_files s)(file_name s i \<mapsto> take (unat n) (block_bytes d bs))"
    and "abs_handles s' = abs_handles s" and "file_name s' i = file_name s i"
    and "root_directory s' ! i = (root_directory s ! i)\<lparr>first_block_index := b, filesize := n\<rparr>"
proof -
  note F = fd_fileD[OF fd] note I = fs_invD[OF F(1)] note B = file_blocksD[OF F(1,4)]
  let ?e = "root_directory s ! i" and ?bs = "file_blocks s i"
  define e' where "e' = ?e\<lparr>first_block_index := b, filesize := n\<rparr>"
  have il: "i < length (root_directory s)" using F(4) by (rule used_less)
  show ri: "root_directory s' ! i = ?e\<lparr>first_block_index := b, filesize := n\<rparr>"
    using il by (simp add: s'_def grow_file_def)
  have eb: "entry_blocks fat e' = bs" using grownD(2)[OF g] by (intro entry_blocks_eq) (simp add: e'_def)
  then show "file_blocks s' i = bs"
    using ri by (simp add: file_blocks_def s'_def grow_file_def e'_def)
  show nm: "file_name s' i = file_name s i" by (simp add: file_name_def ri)
  have db: "data_block x" if "x \<in> set bs" for x by (rule grown_data[OF g B(2) that])
  have ok: "entry_ok fat e'"
    using grownD(2)[OF g] db n entry_okD(4)[OF alloc_okD(1)[OF I(5) F(4)]]
    by (simp add: entry_ok_def eb) (simp add: e'_def)
  have fl: "length fat = DISK_BLOCKS" using grownD(1)[OF g] I(3) by simp
  have use: "in_use e' \<noteq> 0" "filename e' = filename ?e" using F(4) by (simp_all add: e'_def used_def)
  have fr: "fat ! unat x = fat_table s ! unat x \<and> blk d (unat x) = blk (fs_disk s) (unat x) \<and>
      x \<notin> set (entry_blocks fat e')"
    if "used (root_directory s) j" "j \<noteq> i" "x \<in> set (entry_blocks (fat_table s) (root_directory s ! j))" for j x
  proof -
    have okj: "entry_ok (fat_table s) (root_directory s ! j)" by (rule alloc_okD(1)[OF I(5) that(1)])
    have dx: "data_block x" using entry_okD(2)[OF okj that(3)] .
    have nf: "fat_table s ! unat x \<noteq> FAT_FREE"
      by (rule chain_nonfree[OF entry_okD(1)[OF okj] entry_okD(2)[OF okj] that(3)])
    have nb: "x \<notin> set ?bs"
      using alloc_okD(2)[OF I(5) F(4) that(1)] that(2,3) by (auto simp: file_blocks_def)
    have nbs: "x \<notin> set bs" using grownD(3)[OF g] nb nf by auto
    have xl: "unat x < DISK_BLOCKS" using dx by (simp add: data_block_def)
    show ?thesis using grownD(5)[OF g _ nf] nb nbs xl frame I(3) by (simp add: eb)
  qed
  have eq: "s\<lparr>fat_table := fat, root_directory := (root_directory s)[i := e'], fd_table := fd_table s,
      fs_disk := d\<rparr> = s'" by (simp add: s'_def grow_file_def e'_def)
  have rep: "fs_inv s'" "abs_files s' = (abs_files s)(file_name s i \<mapsto>
      take (unat (filesize e')) (block_bytes d (entry_blocks fat e')))"
    unfolding eq[symmetric] file_name_def
    by (rule replace_entry[OF F(1,4) use ok fl d I(7)], erule (2) fr)+
  show "fd_file s' k i" using rep(1) fd by (simp add: fd_file_def s'_def grow_file_def)
  show "abs_files s' = (abs_files s)(file_name s i \<mapsto> take (unat n) (block_bytes d bs))"
    unfolding rep(2) eb by (simp add: e'_def)
  show "abs_handles s' = abs_handles s"
  proof
    fix j
    have "filename (root_directory s' ! m) = filename (root_directory s ! m)" for m
      using ri by (cases "m = i") (simp_all add: s'_def grow_file_def)
    moreover have "fd_table s' = fd_table s" by (simp add: s'_def grow_file_def)
    ultimately show "abs_handles s' j = abs_handles s j" by (simp add: abs_handles_def)
  qed
qed

section \<open>The final update\<close>

lemma finish_at_spec:
  assumes fd: "fd_file s k i" and off: "unat off \<le> length (file_blocks s i) * BLOCK_SIZE"
  obtains s' where "finish_at (int k) off s = Some s'" "fs_inv s'"
    "abs_files s' = (abs_files s)(file_name s i \<mapsto>
      take (max (length (file_data s i)) (unat off)) (block_bytes (fs_disk s) (file_blocks s i)))"
    "abs_handles s' = (abs_handles s)(k \<mapsto> (file_name s i, unat off))"
    "fat_table s' = fat_table s"
proof -
  note F = fd_fileD[OF fd] note I = fs_invD[OF F(1)] note B = file_blocksD[OF F(1,4)]
  let ?e = "root_directory s ! i"
  define n where "n = (if filesize ?e < off then off else filesize ?e)"
  have un: "unat n = max (length (file_data s i)) (unat off)"
    by (auto simp: n_def B(5) word_less_nat_alt)
  define e' where "e' = ?e\<lparr>filesize := n\<rparr>"
  define fds where "fds = (fd_table s)[k := (fd_table s ! k)\<lparr>fd_offset := off\<rparr>]"
  let ?s1 = "s\<lparr>root_directory := (root_directory s)[i := e'], fd_table := fds\<rparr>"
  have st: "(if filesize ?e < off then set_fd_entry (int k) (?e\<lparr>filesize := off\<rparr>) (set_fd_offset (int k) off s)
      else set_fd_offset (int k) off s) = ?s1"
    using F(3) used_less[OF F(4)] I(7) F(2)
    by (auto simp: set_fd_entry_def set_fd_offset_def e'_def n_def fds_def fds_ok_def)
  have ok: "entry_ok (fat_table s) ?e" by (rule alloc_okD(1)[OF I(5) F(4)])
  have eb: "entry_blocks (fat_table s) e' = file_blocks s i"
    using B(1) by (intro entry_blocks_eq) (simp add: e'_def)
  have ok': "entry_ok (fat_table s) e'"
    using B off un entry_okD(4)[OF ok] by (simp add: entry_ok_def eb) (simp add: e'_def)
  have fl: "length (filename e') = FS_MAX_FILENAME_LENGTH"
    using I(4) used_less[OF F(4)] by (simp add: e'_def dir_shape_def)
  have "fs_static ?s1" using I(10) fl by (simp add: fs_static_def dir_shape_update)
  from write_metadata_frame[OF this] obtain d' where
    d': "write_metadata_to_disk ?s1 = Some (?s1\<lparr>fs_disk := d'\<rparr>)" "disk_ready d'"
      "\<And>b. data_block b \<Longrightarrow> blk d' (unat b) = blk (fs_disk s) (unat b)" by auto
  let ?s2 = "s\<lparr>fat_table := fat_table s, root_directory := (root_directory s)[i := e'], fd_table := fds,
      fs_disk := d'\<rparr>"
  have run: "finish_at (int k) off s = Some ?s2"
    using F(5) d'(1) by (simp add: finish_at_def st)
  have db: "length (file_blocks s i) * BLOCK_SIZE \<le> DISK_BLOCKS * BLOCK_SIZE"
    using chain_length[OF B(1)] I(3) by simp
  then have fds_ok: "fds_ok fds (root_directory s)"
    unfolding fds_def using off by (intro fds_ok_offset[OF I(7) F(2)]) linarith
  have use: "in_use e' \<noteq> 0" "filename e' = filename ?e" using F(4) by (simp_all add: e'_def used_def)
  have fr: "fat_table s ! unat b = fat_table s ! unat b \<and> blk d' (unat b) = blk (fs_disk s) (unat b) \<and>
      b \<notin> set (entry_blocks (fat_table s) e')"
    if "used (root_directory s) j" "j \<noteq> i" "b \<in> set (entry_blocks (fat_table s) (root_directory s ! j))" for j b
    using alloc_okD(2)[OF I(5) F(4) that(1)] that d'(3) entry_okD(2)[OF alloc_okD(1)[OF I(5) that(1)]]
    by (auto simp: eb file_blocks_def)
  have rep: "fs_inv ?s2" "abs_files ?s2 = (abs_files s)(file_name s i \<mapsto>
      take (unat (filesize e')) (block_bytes d' (entry_blocks (fat_table s) e')))"
    unfolding file_name_def by (rule replace_entry[OF F(1,4) use ok' I(3) d'(2) fds_ok], erule (2) fr)+
  have "block_bytes d' (file_blocks s i) = block_bytes (fs_disk s) (file_blocks s i)"
    by (rule block_bytes_cong) (use d'(3) B(2) in blast)
  moreover have "abs_handles ?s2 = (abs_handles s)(k \<mapsto> (file_name s i, unat off))"
    by (rule abs_handles_offset[OF F(1,2,7)])
      (use used_less[OF F(4)] use in \<open>auto simp: fds_def nth_list_update\<close>)
  moreover have "filesize e' = n" by (simp add: e'_def)
  ultimately show thesis using that[OF run rep(1)] rep(2) un by (simp add: eb)
qed

section \<open>The stages\<close>

lemma write_first_spec:
  assumes fd: "fd_file s k i"
  obtains (full) "write_first (int k) s = Some (False, s)" "disk_full (fat_table s)"
      "file_blocks s i = []"
  | (ok) s' where "write_first (int k) s = Some (True, s')" "fd_file s' k i" "abs_fs s' = abs_fs s"
      "file_blocks s' i \<noteq> []" "file_name s' i = file_name s i"
proof -
  note F = fd_fileD[OF fd] note I = fs_invD[OF F(1)] note B = file_blocksD[OF F(1,4)]
  let ?e = "root_directory s ! i"
  show thesis
  proof (cases "first_block_index ?e = FAT_EOF")
    case False
    then have "file_blocks s i \<noteq> []" using B(1) by auto
    then show thesis using ok[of s] fd False F(5) by (simp add: write_first_def)
  next
    case True
    then have e0: "file_blocks s i = []" using B(1) by simp
    show thesis
    proof (rule allocate_free_block_cases[OF I(3)])
      assume "disk_full (fat_table s)"
        "allocate_free_block std_superblock (fat_table s) = Some (FAT_FREE, fat_table s)"
      then show thesis using full True F(5) I(2) e0 by (simp add: write_first_def)
    next
      fix n assume n: "data_block n" "fat_table s ! unat n = FAT_FREE"
        "allocate_free_block std_superblock (fat_table s) = Some (n, (fat_table s)[unat n := FAT_EOF])"
      define s' where "s' = grow_file i ((fat_table s)[unat n := FAT_EOF]) n 0 (fs_disk s) s"
      have g: "grown (fat_table s) (file_blocks s i) ((fat_table s)[unat n := FAT_EOF]) n [n]"
        unfolding e0 by (rule grown_first[OF I(3) n(1,2)])
      have G: "fd_file s' k i" "file_blocks s' i = [n]"
        "abs_files s' = (abs_files s)(file_name s i \<mapsto> [])" "abs_handles s' = abs_handles s"
        "file_name s' i = file_name s i"
        unfolding s'_def using grow_file_spec[OF fd g _ I(8)] by simp_all
      have "abs_files s (file_name s i) = Some []" using F(8) B(3,5) e0 by simp
      then have "abs_fs s' = abs_fs s" using G(3,4) by (simp add: abs_fs_def fun_upd_idem)
      moreover have "write_first (int k) s = Some (True, s')"
        using True F(3,5) I(2) n(1,3) by (simp add: write_first_def s'_def grow_file_def set_fd_entry_def)
      ultimately show thesis using ok G(1,2,5) by simp
    qed
  qed
qed

text \<open>Finding the block of a position and running the copy loop from there.\<close>

lemma store_spec:
  assumes fd: "fd_file s k i" and ne: "file_blocks s i \<noteq> []"
    and off: "unat off \<le> length (file_blocks s i) * BLOCK_SIZE"
    and r: "unat r \<le> length buf" "length buf < 2 ^ 32"
  defines "b \<equiv> first_block_index (root_directory s ! i)"
  obtains (full) "seek_block (superblock s) b off (fat_table s) = Some (None, b, fat_table s)"
      "disk_full (fat_table s)"
  | (run) cur o' fat1 stop m fat' d' bs' where
      "seek_block (superblock s) b off (fat_table s) = Some (Some (cur, o'), b, fat1)"
      "write_loop (superblock s) buf (stack s) cur o' r 0 fat1 (fs_disk s) =
        Some (stop, of_nat m, fat', d')"
      "grown (fat_table s) (file_blocks s i) fat' b bs'" "disk_ready d'"
      "stop = Finished \<and> m = unat r \<or> stop = NoSpace \<and> m < unat r \<and> disk_full fat'"
      "unat off + m \<le> length bs' * BLOCK_SIZE" "unat off + m \<le> (DISK_BLOCKS - 4) * BLOCK_SIZE"
      "block_bytes d' bs' = patch (block_bytes (fs_disk s) bs') (unat off) (take m buf)"
      "\<forall>c < DISK_BLOCKS. c \<notin> unat ` set bs' \<longrightarrow> blk d' c = blk (fs_disk s) c"
proof -
  note F = fd_fileD[OF fd] note I = fs_invD[OF F(1)]
  note B = file_blocksD[OF F(1,4), folded b_def]
  show thesis
  proof (rule seek_block_spec[OF I(3) B(1) ne B(2) off])
    assume "seek_block std_superblock b off (fat_table s) = Some (None, b, fat_table s)"
      "disk_full (fat_table s)"
    then show thesis using full I(2) by simp
  next
    fix cur fat1 bs1
    let ?o = "of_nat (unat off mod BLOCK_SIZE) :: u32" and ?k = "unat off div BLOCK_SIZE"
    assume sk: "seek_block std_superblock b off (fat_table s) = Some (Some (cur, ?o), b, fat1)"
      "grown (fat_table s) (file_blocks s i) fat1 b bs1" "?k < length bs1" "cur = bs1 ! ?k"
    have uo: "unat ?o = unat off mod BLOCK_SIZE" "unat ?o < BLOCK_SIZE"
      using mod_less_divisor[OF BLOCK_SIZE_pos, of "unat off"]
      by (subst unat_of_nat_u32; simp add: BLOCK_SIZE_def)+
    have l1: "length fat1 = DISK_BLOCKS" using grownD(1)[OF sk(2)] I(3) by simp
    have db1: "data_block x" if "x \<in> set bs1" for x by (rule grown_data[OF sk(2) B(2) that])
    have r0: "unat (0::u32) + unat r \<le> length buf" using r(1) by simp
    have "loop_post buf b bs1 (?k * BLOCK_SIZE + unat ?o) (unat (0::u32)) (unat r) fat1 (fs_disk s)
        (write_loop std_superblock buf (stack s) cur ?o r 0 fat1 (fs_disk s))"
      by (rule write_loop_spec[OF l1 grownD(2)[OF sk(2)] db1 I(8,9) sk(3,4) uo(2) r0 r(2)])
    moreover have "?k * BLOCK_SIZE + unat ?o = unat off" unfolding uo(1) by simp
    ultimately have "loop_post buf b bs1 (unat off) 0 (unat r) fat1 (fs_disk s)
        (write_loop std_superblock buf (stack s) cur ?o r 0 fat1 (fs_disk s))" by simp
    then obtain stop m fat' d' bs' where p:
      "write_loop std_superblock buf (stack s) cur ?o r 0 fat1 (fs_disk s) = Some (stop, of_nat m, fat', d')"
      "grown fat1 bs1 fat' b bs'" "disk_ready d'"
      "stop = Finished \<and> m = unat r \<or> stop = NoSpace \<and> m < unat r \<and> disk_full fat'"
      "unat off + m \<le> length bs' * BLOCK_SIZE"
      "block_bytes d' bs' = patch (block_bytes (fs_disk s) bs') (unat off) (take m buf)"
      "\<forall>c < DISK_BLOCKS. c \<notin> unat ` set bs' \<longrightarrow> blk d' c = blk (fs_disk s) c"
      unfolding loop_post_def add_0 drop_0 by blast
    have g: "grown (fat_table s) (file_blocks s i) fat' b bs'" by (rule grown_trans[OF I(3) sk(2) p(2)])
    have "length bs' \<le> DISK_BLOCKS - 4"
      by (rule data_block_count[OF chain_distinct[OF grownD(2)[OF g]] grown_data[OF g B(2)]])
    then have "length bs' * BLOCK_SIZE \<le> (DISK_BLOCKS - 4) * BLOCK_SIZE" by simp
    with p(5) have "unat off + m \<le> (DISK_BLOCKS - 4) * BLOCK_SIZE" by linarith
    then show thesis using run[OF _ _ g p(3-5)] sk(1) p(1,6,7) I(2) by simp
  qed
qed

lemma grown_bytes:
  assumes "grown fat bs fat' b bs'" "n \<le> length bs * BLOCK_SIZE"
  shows "take n (block_bytes d bs') = take n (block_bytes d bs)"
  using grownD(3)[OF assms(1)] assms(2) by (auto simp: block_bytes_append)

lemma write_extend_spec:
  assumes fd: "fd_file s k i" and ne: "file_blocks s i \<noteq> []"
  defines "data \<equiv> file_data s i" and "nm \<equiv> file_name s i" and "off \<equiv> unat (fd_offset (fd_table s ! k))"
  obtains (ok) s' where "write_extend (int k) s = Some (None, s')" "fd_file s' k i"
      "file_blocks s' i \<noteq> []" "fd_table s' = fd_table s" "off \<le> length (file_data s' i)"
      "abs_files s' = (abs_files s)(nm \<mapsto> data @ replicate (off - length data) 0)"
      "abs_handles s' = abs_handles s" "file_name s' i = nm"
  | (stopped) x s' where "write_extend (int k) s = Some (Some (int x), s')" "fs_inv s'"
      "length data + x < off" "disk_full (fat_table s')"
      "abs_files s' = (abs_files s)(nm \<mapsto> data @ replicate x 0)"
      "abs_handles s' = (abs_handles s)(k \<mapsto> (nm, length data + x))"
proof -
  note F = fd_fileD[OF fd] note I = fs_invD[OF F(1)] note B = file_blocksD[OF F(1,4)]
  define e where "e = root_directory s ! i"
  define o32 where "o32 = fd_offset (fd_table s ! k)"
  define b where "b = first_block_index e"
  define r where "r = o32 - filesize e"
  have ld: "length data = unat (filesize e)" using B(5) by (simp add: data_def e_def)
  have idx: "unat (dir_entry_index (fd_table s ! k)) = i" using F(3) by simp
  show thesis
  proof (cases "filesize e < o32")
    case False
    then have w: "write_extend (int k) s = Some (None, s)"
      using F(5) by (simp add: write_extend_def e_def o32_def)
    have le: "off \<le> length data" using False ld by (simp add: off_def o32_def word_less_nat_alt)
    then have "abs_files s = (abs_files s)(nm \<mapsto> data @ replicate (off - length data) 0)"
      using F(8) by (simp add: fun_upd_idem flip: data_def nm_def)
    then show thesis by (rule ok[OF w fd ne refl le[unfolded data_def] _ refl meta_eq_to_obj_eq[OF nm_def, symmetric]])
  next
    case True
    have lt: "unat (filesize e) < off" using True by (simp add: off_def o32_def word_less_nat_alt)
    have ur: "unat r = off - length data"
      using lt ld by (simp add: r_def off_def o32_def unat_sub_u32)
    have o31: "off < 2 ^ 31" using F(9) by (simp add: off_def DISK_BYTES)
    let ?N = "unat r"
    have rN: "unat r \<le> length (replicate ?N (0::byte))" "length (replicate ?N (0::byte)) < 2 ^ 32"
      using ur o31 by simp_all
    have same: "grow_file i (fat_table s) b (filesize e) (fs_disk s) s =
        set_fd_entry (int k) (e\<lparr>first_block_index := b\<rparr>) (s\<lparr>fat_table := fat_table s\<rparr>)"
      by (simp add: grow_file_def set_fd_entry_def idx e_def)
    show thesis
    proof (rule store_spec[OF fd ne B(3) rN, folded e_def, folded b_def])
      assume sk: "seek_block (superblock s) b (filesize e) (fat_table s) = Some (None, b, fat_table s)"
        "disk_full (fat_table s)"
      obtain s2 where f: "finish_at (int k) (filesize e) s = Some s2" "fs_inv s2"
        "abs_files s2 = (abs_files s)(nm \<mapsto>
          take (max (length data) (unat (filesize e))) (block_bytes (fs_disk s) (file_blocks s i)))"
        "abs_handles s2 = (abs_handles s)(k \<mapsto> (nm, unat (filesize e)))" "fat_table s2 = fat_table s"
        unfolding data_def nm_def by (rule finish_at_spec[OF fd B(3)[folded e_def]])
      have "set_fd_entry (int k) (e\<lparr>first_block_index := b\<rparr>) (s\<lparr>fat_table := fat_table s\<rparr>) = s"
        using used_less[OF F(4)] by (simp add: set_fd_entry_def idx e_def b_def)
      then have "write_extend (int k) s = Some (Some (int 0), s2)"
        using True sk(1) f(1) F(5)
        by (simp add: write_extend_def flip: e_def o32_def b_def)
      then show thesis
        using stopped[of 0 s2] f sk(2) lt ld B(4) by (simp add: data_def e_def)
    next
      fix cur o' fat1 stop m fat' d' bs'
      assume sk: "seek_block (superblock s) b (filesize e) (fat_table s) = Some (Some (cur, o'), b, fat1)"
        and wl: "write_loop (superblock s) (replicate ?N 0) (stack s) cur o' r 0 fat1 (fs_disk s) =
          Some (stop, of_nat m, fat', d')"
        and g: "grown (fat_table s) (file_blocks s i) fat' b bs'" and d': "disk_ready d'"
        and st: "stop = Finished \<and> m = unat r \<or> stop = NoSpace \<and> m < unat r \<and> disk_full fat'"
        and cap: "unat (filesize e) + m \<le> length bs' * BLOCK_SIZE"
        and bytes: "block_bytes d' bs' =
          patch (block_bytes (fs_disk s) bs') (unat (filesize e)) (take m (replicate ?N 0))"
        and fr: "\<forall>c < DISK_BLOCKS. c \<notin> unat ` set bs' \<longrightarrow> blk d' c = blk (fs_disk s) c"
      have m: "m \<le> unat r" using st by auto
      have fl: "fill_loop (superblock s) (stack s) cur o' r 0 fat1 (fs_disk s) = Some (stop, of_nat m, fat', d')"
        using fill_loop_eq[of 0 r ?N] wl rN(2) by simp
      have tk: "take (unat (filesize e) + m) (block_bytes d' bs') = data @ replicate m 0"
      proof -
        have "take (unat (filesize e)) (block_bytes (fs_disk s) bs') = data"
          using grown_bytes[OF g B(3)[folded e_def]] B(4) by (simp add: data_def e_def)
        moreover have "take m (replicate ?N (0::byte)) = replicate m 0" using m by (simp add: min_absorb1)
        ultimately show ?thesis
          using take_patch_end[of "unat (filesize e)" "replicate m 0" "block_bytes (fs_disk s) bs'"] cap
          unfolding bytes by simp
      qed
      have tk0: "take (unat (filesize e)) (block_bytes d' bs') = data"
        using arg_cong[OF tk, of "take (unat (filesize e))"] ld by (simp add: min_absorb1)
      have um: "unat (filesize e + of_nat m) = unat (filesize e) + m"
        using m ur o31 lt ld by (subst unat_add_u32) simp_all
      show thesis
      proof (cases "stop = Finished")
        case fin: True
        then have mr: "m = unat r" using st by auto
        define s' where "s' = grow_file i fat' b (filesize e + r) d' s"
        have c': "unat (filesize e + r) \<le> length bs' * BLOCK_SIZE" using um cap mr by simp
        note G = grow_file_spec[OF fd g c' d' fr, folded s'_def]
        have "write_extend (int k) s = Some (None, s')"
          using True sk fl fin F(5)
          by (simp add: write_extend_def s'_def grow_file_def set_fd_entry_def idx flip: e_def o32_def b_def r_def)
        moreover have um': "unat (filesize e + r) = unat (filesize e) + unat r" using um mr by simp
        moreover have fdat: "file_data s' i = data @ replicate (unat r) 0"
          using fd_fileD(8)[OF G(1)] G(3,5) tk unfolding um' mr by simp
        moreover have "off \<le> length (file_data s' i)" using lt ld ur by (simp add: fdat)
        moreover have "bs' \<noteq> []" using grownD(3)[OF g] ne by auto
        moreover have "fd_table s' = fd_table s" by (simp add: s'_def grow_file_def)
        ultimately show thesis
          using ok[OF _ G(1)] G(2-5) tk ur mr by (simp add: nm_def)
      next
        case False
        then have sp: "stop = NoSpace" "m < unat r" "disk_full fat'" using st by auto
        define s1 where "s1 = grow_file i fat' b (filesize e) d' s"
        have c': "unat (filesize e) \<le> length bs' * BLOCK_SIZE" using cap by simp
        note G = grow_file_spec[OF fd g c' d' fr, folded s1_def]
        have c2: "unat (filesize e + of_nat m) \<le> length (file_blocks s1 i) * BLOCK_SIZE"
          using um cap G(2) by simp
        obtain s2 where f: "finish_at (int k) (filesize e + of_nat m) s1 = Some s2" "fs_inv s2"
          "abs_files s2 = (abs_files s1)(file_name s1 i \<mapsto>
            take (max (length (file_data s1 i)) (unat (filesize e + of_nat m)))
              (block_bytes (fs_disk s1) (file_blocks s1 i)))"
          "abs_handles s2 = (abs_handles s1)(k \<mapsto> (file_name s1 i, unat (filesize e + of_nat m)))"
          "fat_table s2 = fat_table s1"
          by (rule finish_at_spec[OF G(1) c2])
        have l1: "length (file_data s1 i) = length data"
          using fd_fileD(8)[OF G(1)] G(3,5) tk0 by auto
        have dk: "fs_disk s1 = d'" "fat_table s1 = fat'" by (simp_all add: s1_def grow_file_def)
        have sm: "sint (of_nat m :: u32) = int m"
          using m ur o31 by (subst sint_small) simp_all
        have s1: "s1 = s\<lparr>root_directory := (root_directory s)[i := e\<lparr>first_block_index := b\<rparr>],
            fat_table := fat', fs_disk := d'\<rparr>"
          by (simp add: s1_def grow_file_def e_def)
        have "write_extend (int k) s = Some (Some (int m), s2)"
          using True sk fl sp(1) F(5) f(1)[unfolded s1] sm
          by (simp add: write_extend_def set_fd_entry_def idx flip: e_def o32_def b_def r_def)
        then show thesis
          using stopped[OF _ f(2)] f(3-5) l1 dk G um tk sp ur ld by (simp add: nm_def)
      qed
    qed
  qed
qed

text \<open>The bytes of a file after the loop, cut at the larger of the old and the new end.\<close>

lemma patched_file:
  assumes "off \<le> length data" "take (length data) bytes = data" "off + length ys \<le> length bytes"
    and "length data \<le> length bytes"
  shows "take (max (length data) (off + length ys)) (patch bytes off ys) = write_at data off ys"
proof -
  have t: "take off bytes = take off data"
    using assms(1,2) by (metis min.absorb1 take_take)
  have d: "take (max (length data) (off + length ys) - (off + length ys)) (drop (off + length ys) bytes)
      = drop (off + length ys) data"
  proof (cases "off + length ys \<le> length data")
    case True
    then have "take (length data - (off + length ys)) (drop (off + length ys) bytes) =
        drop (off + length ys) (take (length data) bytes)" by (simp add: drop_take)
    then show ?thesis using True assms(2) by (simp add: max_def)
  qed simp
  have "take (max (length data) (off + length ys)) (patch bytes off ys) =
      take off bytes @ ys @ take (max (length data) (off + length ys) - (off + length ys))
        (drop (off + length ys) bytes)"
    using assms(3) by (simp add: patch_def add.commute)
  then show ?thesis using assms(1) by (simp add: write_at_def t d)
qed

lemma write_data_spec:
  assumes fd: "fd_file s k i" and ne: "file_blocks s i \<noteq> []"
    and buf: "nbyte \<le> length buf" "length buf < 2 ^ 32"
  defines "data \<equiv> file_data s i" and "nm \<equiv> file_name s i" and "off \<equiv> unat (fd_offset (fd_table s ! k))"
  assumes off: "off \<le> length data"
  shows "\<exists>m s'. write_data (int k) buf nbyte s = Some (int m, s') \<and> fs_inv s' \<and> m \<le> nbyte \<and>
    (m < nbyte \<longrightarrow> disk_full (fat_table s')) \<and>
    abs_files s' = (abs_files s)(nm \<mapsto> write_at data off (take m buf)) \<and>
    abs_handles s' = (abs_handles s)(k \<mapsto> (nm, off + m))"
proof -
  note F = fd_fileD[OF fd] note I = fs_invD[OF F(1)] note B = file_blocksD[OF F(1,4)]
  define e where "e = root_directory s ! i"
  define o32 where "o32 = fd_offset (fd_table s ! k)"
  define b where "b = first_block_index e"
  have ld: "length data = unat (filesize e)" using B(5) by (simp add: data_def e_def)
  have idx: "unat (dir_entry_index (fd_table s ! k)) = i" using F(3) by simp
  have cap0: "unat o32 \<le> length (file_blocks s i) * BLOCK_SIZE"
    using off ld B(3) by (simp add: off_def o32_def e_def)
  have un: "unat (of_nat nbyte :: u32) = nbyte" using buf by simp
  have rb: "unat (of_nat nbyte :: u32) \<le> length buf" using un buf by simp
  show ?thesis
  proof (rule store_spec[OF fd ne cap0 rb buf(2), folded e_def, folded b_def])
    assume sk: "seek_block (superblock s) b o32 (fat_table s) = Some (None, b, fat_table s)"
      "disk_full (fat_table s)"
    obtain s2 where f: "finish_at (int k) o32 s = Some s2" "fs_inv s2"
      "abs_files s2 = (abs_files s)(nm \<mapsto>
        take (max (length data) (unat o32)) (block_bytes (fs_disk s) (file_blocks s i)))"
      "abs_handles s2 = (abs_handles s)(k \<mapsto> (nm, unat o32))" "fat_table s2 = fat_table s"
      unfolding data_def nm_def by (rule finish_at_spec[OF fd cap0])
    have "set_fd_entry (int k) (e\<lparr>first_block_index := b\<rparr>) (s\<lparr>fat_table := fat_table s\<rparr>) = s"
      using used_less[OF F(4)] by (simp add: set_fd_entry_def idx e_def b_def)
    then have "write_data (int k) buf nbyte s = Some (int 0, s2)"
      using sk(1) f(1) F(5) by (simp add: write_data_def flip: e_def o32_def b_def)
    moreover have "take (max (length data) (unat o32)) (block_bytes (fs_disk s) (file_blocks s i)) =
        write_at data off (take 0 buf)"
      using off B(4) ld append_take_drop_id[of off data, symmetric]
      by (simp add: write_at_def max_absorb1 flip: e_def data_def) (simp add: o32_def off_def)
    ultimately show ?thesis using f sk(2) by (intro exI[of _ 0] exI[of _ s2]) (simp add: off_def o32_def)
  next
    fix cur o' fat1 stop m fat' d' bs'
    assume sk: "seek_block (superblock s) b o32 (fat_table s) = Some (Some (cur, o'), b, fat1)"
      and wl: "write_loop (superblock s) buf (stack s) cur o' (of_nat nbyte) 0 fat1 (fs_disk s) =
        Some (stop, of_nat m, fat', d')"
      and g: "grown (fat_table s) (file_blocks s i) fat' b bs'" and d': "disk_ready d'"
      and st: "stop = Finished \<and> m = unat (of_nat nbyte :: u32) \<or>
        stop = NoSpace \<and> m < unat (of_nat nbyte :: u32) \<and> disk_full fat'"
      and cap: "unat o32 + m \<le> length bs' * BLOCK_SIZE" "unat o32 + m \<le> (DISK_BLOCKS - 4) * BLOCK_SIZE"
      and bytes: "block_bytes d' bs' = patch (block_bytes (fs_disk s) bs') (unat o32) (take m buf)"
      and fr: "\<forall>c < DISK_BLOCKS. c \<notin> unat ` set bs' \<longrightarrow> blk d' c = blk (fs_disk s) c"
    have m: "m \<le> nbyte" using st un by auto
    then have lm: "length (take m buf) = m" using buf by simp
    have um: "unat (o32 + of_nat m) = off + m"
    proof -
      have "unat (of_nat m :: u32) = m" using m buf by (intro unat_of_nat_u32) linarith
      then show ?thesis using cap(2) by (subst unat_add_u32) (simp_all add: off_def o32_def DISK_BYTES)
    qed
    define s1 where "s1 = grow_file i fat' b (filesize e) d' s"
    have sz: "unat (filesize e) \<le> length (file_blocks s i) * BLOCK_SIZE" using B(3) by (simp add: e_def)
    have "length (file_blocks s i) \<le> length bs'" using grownD(3)[OF g] by auto
    then have "length (file_blocks s i) * BLOCK_SIZE \<le> length bs' * BLOCK_SIZE" by simp
    with sz have c': "unat (filesize e) \<le> length bs' * BLOCK_SIZE" by linarith
    note G = grow_file_spec[OF fd g c' d' fr, folded s1_def]
    have c2: "unat (o32 + of_nat m) \<le> length (file_blocks s1 i) * BLOCK_SIZE"
      using um cap(1) G(2) by (simp add: off_def o32_def)
    obtain s2 where f: "finish_at (int k) (o32 + of_nat m) s1 = Some s2" "fs_inv s2"
      "abs_files s2 = (abs_files s1)(file_name s1 i \<mapsto>
        take (max (length (file_data s1 i)) (unat (o32 + of_nat m)))
          (block_bytes (fs_disk s1) (file_blocks s1 i)))"
      "abs_handles s2 = (abs_handles s1)(k \<mapsto> (file_name s1 i, unat (o32 + of_nat m)))"
      "fat_table s2 = fat_table s1"
      by (rule finish_at_spec[OF G(1) c2])
    have dk: "fs_disk s1 = d'" "fat_table s1 = fat'" by (simp_all add: s1_def grow_file_def)
    have "file_data s1 i = take (unat (filesize e)) (block_bytes d' bs')"
      using fd_fileD(8)[OF G(1)] G(3,5) by simp
    then have l1: "length (file_data s1 i) = length data" using ld c' by (simp add: min_absorb2)
    have "take (length data) (block_bytes (fs_disk s) bs') = data"
      using grown_bytes[OF g sz] B(4) ld by (simp add: data_def e_def)
    then have tk: "take (max (length data) (off + m)) (block_bytes d' bs') = write_at data off (take m buf)"
      using patched_file[OF off, of "block_bytes (fs_disk s) bs'" "take m buf"] lm cap(1) ld c'
      unfolding bytes by (simp add: off_def o32_def)
    have "sint (of_nat m :: u32) = int m"
      using cap(2) by (subst sint_small) (simp_all add: DISK_BYTES)
    moreover have s1: "s1 = s\<lparr>root_directory := (root_directory s)[i := e\<lparr>first_block_index := b\<rparr>],
        fat_table := fat', fs_disk := d'\<rparr>"
      by (simp add: s1_def grow_file_def e_def)
    ultimately have "write_data (int k) buf nbyte s = Some (int m, s2)"
      using sk wl st F(5) f(1)[unfolded s1]
      by (auto simp: write_data_def set_fd_entry_def idx simp flip: e_def o32_def b_def)
    then show ?thesis
      using f(2-5) l1 dk G um tk m st un by (intro exI[of _ m] exI[of _ s2]) (auto simp: nm_def)
  qed
qed

section \<open>The call\<close>

text \<open>
  A write never goes wrong, keeps the invariant and does what the specification allows; it
  stores less than asked for only when no block is free.
\<close>

lemma write_at_gap:
  assumes "bytes = data @ replicate (off - length data) 0"
  shows "write_at bytes off ys = write_at data off ys"
  using assms by (simp add: write_at_def)

lemma fs_write_sim:
  assumes inv: "fs_inv s" and buf: "nbyte \<le> length buf" "length buf < 2 ^ 32"
  shows "\<exists>r s'. fs_write fd buf nbyte s = Some (r, s') \<and> fs_inv s' \<and>
    a_write fd (take nbyte buf) (abs_fs s) r (abs_fs s') \<and>
    (r \<noteq> -1 \<and> r < int nbyte \<longrightarrow> disk_full (fat_table s'))"
proof (rule fd_cases[OF inv, of fd])
  assume "\<not> valid_fd fd s" "a_handle fd (abs_fs s) = None"
  then show ?thesis using inv by (simp add: fs_write_def a_write_def)
next
  fix k i
  assume a: "valid_fd fd s" "fd = int k" "k < FS_MAX_FILE_DESCRIPTORS"
    "i = unat (dir_entry_index (fd_table s ! k))"
    "a_handle fd (abs_fs s) =
      Some (cstr (filename (root_directory s ! i)), unat (fd_offset (fd_table s ! k)))"
  define nm where "nm = file_name s i"
  define off where "off = unat (fd_offset (fd_table s ! k))"
  define data where "data = file_data s i"
  have fd: "fd_file s k i" using inv a(1-4) by (simp add: fd_file_def valid_fd_def)
  note F = fd_fileD[OF fd]
  have ah: "a_handle (int k) (abs_fs s) = Some (nm, off)"
    using a(2,5) by (simp add: nm_def off_def file_name_def)
  have dat: "abs_files s nm = Some data" using F(8) by (simp add: nm_def data_def)
  have m: "mounted s" by (rule fs_invD(1)[OF inv])
  show ?thesis
  proof (cases "nbyte = 0")
    case True
    then show ?thesis using inv m a(1,2) ah by (simp add: fs_write_def a_write_def)
  next
    case n: False
    then have tb: "take nbyte buf \<noteq> []" using buf by auto
    have len: "length (take nbyte buf) = nbyte" using buf by simp
    have spec0: "data = [] \<Longrightarrow> a_write fd (take nbyte buf) (abs_fs s) 0 (abs_fs s)"
      unfolding a_write_def a(2) ah using tb dat by simp
    have spec1: "a_write fd (take nbyte buf) (abs_fs s) (int x) (abs_fs s')"
      if "x \<le> nbyte" "abs_files s' = (abs_files s)(nm \<mapsto> write_at data off (take x buf))"
        "abs_handles s' = (abs_handles s)(k \<mapsto> (nm, off + x))" for x s'
    proof -
      have "take x (take nbyte buf) = take x buf" using that(1) by (simp add: min_absorb1)
      then show ?thesis unfolding a_write_def a(2) ah using tb that dat len
        by (auto simp: abs_fs_def intro!: exI[of _ x])
    qed
    have spec2: "a_write fd (take nbyte buf) (abs_fs s) (int x) (abs_fs s')"
      if "length data + x < off" "abs_files s' = (abs_files s)(nm \<mapsto> data @ replicate x 0)"
        "abs_handles s' = (abs_handles s)(k \<mapsto> (nm, length data + x))" for x s'
      unfolding a_write_def a(2) ah using that dat tb by (auto simp: abs_fs_def)
    show ?thesis
    proof (rule write_first_spec[OF fd])
      assume w: "write_first (int k) s = Some (False, s)" "disk_full (fat_table s)" "file_blocks s i = []"
      have "data = []" using file_blocksD(3,5)[OF F(1,4)] w(3) by (simp add: data_def)
      moreover have "fs_write fd buf nbyte s = Some (0, s)"
        using a(1,2) m n w(1) by (simp add: fs_write_def)
      ultimately show ?thesis using spec0 inv w(2) by auto
    next
      fix s1 assume w: "write_first (int k) s = Some (True, s1)" "fd_file s1 k i" "abs_fs s1 = abs_fs s"
        "file_blocks s1 i \<noteq> []" "file_name s1 i = file_name s i"
      have abs1: "abs_files s1 = abs_files s" "abs_handles s1 = abs_handles s"
        using w(3) by (simp_all add: abs_fs_def)
      have d1: "file_data s1 i = data"
        using fd_fileD(8)[OF w(2)] dat w(5) abs1 by (simp add: nm_def)
      have o1: "unat (fd_offset (fd_table s1 ! k)) = off"
        using fd_fileD(7)[OF w(2)] F(7) abs1 by (simp add: off_def)
      show ?thesis
      proof (rule write_extend_spec[OF w(2,4), unfolded d1 o1 w(5) abs1, folded nm_def])
        fix x s2
        assume x: "write_extend (int k) s1 = Some (Some (int x), s2)" "fs_inv s2" "length data + x < off"
          "disk_full (fat_table s2)" "abs_files s2 = (abs_files s)(nm \<mapsto> data @ replicate x 0)"
          "abs_handles s2 = (abs_handles s)(k \<mapsto> (nm, length data + x))"
        then have "fs_write fd buf nbyte s = Some (int x, s2)"
          using a(1,2) m n w(1) by (simp add: fs_write_def)
        then show ?thesis using spec2[OF x(3,5,6)] x(2,4) by blast
      next
        fix s2
        assume x: "write_extend (int k) s1 = Some (None, s2)" "fd_file s2 k i" "file_blocks s2 i \<noteq> []"
          "fd_table s2 = fd_table s1" "off \<le> length (file_data s2 i)"
          "abs_files s2 = (abs_files s)(nm \<mapsto> data @ replicate (off - length data) 0)"
          "abs_handles s2 = abs_handles s" "file_name s2 i = nm"
        have d2: "file_data s2 i = data @ replicate (off - length data) 0"
          using fd_fileD(8)[OF x(2)] x(6,8) by simp
        have o2: "unat (fd_offset (fd_table s2 ! k)) = off" using x(4) o1 by simp
        have "\<exists>x s'. write_data (int k) buf nbyte s2 = Some (int x, s') \<and> fs_inv s' \<and> x \<le> nbyte \<and>
            (x < nbyte \<longrightarrow> disk_full (fat_table s')) \<and>
            abs_files s' = (abs_files s2)(nm \<mapsto> write_at (file_data s2 i) off (take x buf)) \<and>
            abs_handles s' = (abs_handles s2)(k \<mapsto> (nm, off + x))"
          using write_data_spec[OF x(2,3) buf] x(5) unfolding x(8) o2 by blast
        then obtain x' s' where y: "write_data (int k) buf nbyte s2 = Some (int x', s')" "fs_inv s'" "x' \<le> nbyte"
          "x' < nbyte \<longrightarrow> disk_full (fat_table s')"
          "abs_files s' = (abs_files s2)(nm \<mapsto> write_at (file_data s2 i) off (take x' buf))"
          "abs_handles s' = (abs_handles s2)(k \<mapsto> (nm, off + x'))" by blast
        have "fs_write fd buf nbyte s = Some (int x', s')"
          using a(1,2) m n w(1) x(1) y(1) by (simp add: fs_write_def)
        moreover have "abs_files s' = (abs_files s)(nm \<mapsto> write_at data off (take x' buf))"
          using y(5) x(6) write_at_gap[OF d2] by simp
        ultimately show ?thesis using spec1[OF y(3)] y(2,4,6) x(7) by auto
      qed
    qed
  qed
qed

end
