(* ===== verification/FsSystem.thy ===== *)
theory FsSystem
  imports FsMount FsStore
begin

text \<open>
  The mounted file system as one state machine: the calls a program can make, their execution
  by the model of \<^verbatim>\<open>fs.c\<close>, and the specification of each call.  The locale \<open>simulation\<close> is
  interpreted on them, so that every sequence of calls behaves as the specification says.
\<close>

section \<open>Listing\<close>

lemma list_names_all:
  assumes "\<And>k. ok k" "\<And>k. length (fresh k) = FS_MAX_FILENAME_LENGTH"
    and "\<And>e. e \<in> set es \<Longrightarrow> in_use e \<noteq> 0 \<Longrightarrow> length (cstr (filename e)) < FS_MAX_FILENAME_LENGTH"
  shows "\<exists>ns. list_names ok fresh idx es = Some ns \<and>
    map cstr ns = map (\<lambda>e. cstr (filename e)) (filter (\<lambda>e. in_use e \<noteq> 0) es)"
  using assms(3)
proof (induction es arbitrary: idx)
  case (Cons e es)
  from Cons.IH[of "if in_use e = 0 then idx else Suc idx"] Cons.prems show ?case
    using assms(1,2) by (auto simp: cstr_name_field)
qed simp

lemma filter_nth_map: "map f (filter P xs) = map (\<lambda>i. f (xs ! i)) (filter (\<lambda>i. P (xs ! i)) [0..<length xs])"
proof -
  have "filter P (map ((!) xs) [0..<length xs]) = map ((!) xs) (filter (P \<circ> (!) xs) [0..<length xs])"
    by (rule filter_map)
  then show ?thesis unfolding map_nth by (simp add: o_def)
qed

lemma fs_listfiles_sim:
  assumes inv: "fs_inv s" and ok: "\<And>k. ok k" "\<And>k. length (fresh k) = FS_MAX_FILENAME_LENGTH"
  shows "\<exists>ns. fs_listfiles True ok fresh s = (0, Some ns) \<and> distinct (map cstr ns) \<and>
    set (map cstr ns) = dom (abs_files s)"
proof -
  let ?es = "root_directory s"
  have short: "length (cstr (filename e)) < FS_MAX_FILENAME_LENGTH"
    if "e \<in> set ?es" "in_use e \<noteq> 0" for e
    using that used_name_short[OF inv] by (auto simp: in_set_conv_nth used_def)
  from list_names_all[where ok = ok and fresh = fresh and es = ?es and idx = 0, OF ok short]
  obtain ns where ns: "list_names ok fresh 0 ?es = Some ns"
    "map cstr ns = map (\<lambda>e. cstr (filename e)) (filter (\<lambda>e. in_use e \<noteq> 0) ?es)" by blast
  let ?f = "\<lambda>i. cstr (filename (?es ! i))" and ?is = "filter (used ?es) [0..<length ?es]"
  have "filter (\<lambda>i. in_use (?es ! i) \<noteq> 0) [0..<length ?es] = ?is"
    by (rule filter_cong) (auto simp: used_def)
  then have m: "map cstr ns = map ?f ?is"
    unfolding ns(2) by (simp add: filter_nth_map[of "\<lambda>e. cstr (filename e)"])
  have "inj_on ?f (set ?is)"
    using fs_invD(6)[OF inv] by (auto simp: inj_on_def unique_names_def used_def)
  then have "distinct (map cstr ns)" unfolding m by (simp add: distinct_map)
  moreover have "set (map cstr ns) = dom (abs_files s)"
    unfolding m dom_abs_files[OF inv] by (auto simp: used_def)
  ultimately show ?thesis using fs_invD(1)[OF inv] ok ns(1) by (simp add: fs_listfiles_def)
qed

section \<open>Calls\<close>

datatype fs_call =
    Create cstring | OpenFile cstring | CloseFile int | Delete "cstring option" | GetSize int
  | ListFiles "nat \<Rightarrow> byte list" | Seek_to int int | Truncate int int
  | ReadFile int "byte list" nat | WriteFile int "byte list" nat

datatype fs_reply = Ret int | Data int "byte list" | Names int "byte list list"

definition fs_exec :: "fs_call \<Rightarrow> fs \<Rightarrow> (fs_reply \<times> fs) option" where
  "fs_exec c s = (case c of
     Create nm \<Rightarrow> (let (r, s') = fs_create nm s in Some (Ret r, s'))
   | OpenFile nm \<Rightarrow> (let (r, s') = fs_open nm s in Some (Ret r, s'))
   | CloseFile fd \<Rightarrow> (let (r, s') = fs_close fd s in Some (Ret r, s'))
   | Delete nm \<Rightarrow> map_option (\<lambda>(r, s'). (Ret r, s')) (fs_delete nm s)
   | GetSize fd \<Rightarrow> map_option (\<lambda>r. (Ret r, s)) (fs_get_filesize fd s)
   | ListFiles fresh \<Rightarrow> (let (r, ns) = fs_listfiles True (\<lambda>_. True) fresh s in
       Some (Names r (case ns of None \<Rightarrow> [] | Some ns \<Rightarrow> ns), s))
   | Seek_to fd off \<Rightarrow> map_option (\<lambda>(r, s'). (Ret r, s')) (fs_lseek fd off s)
   | Truncate fd len \<Rightarrow> map_option (\<lambda>(r, s'). (Ret r, s')) (fs_truncate fd len s)
   | ReadFile fd buf n \<Rightarrow> map_option (\<lambda>(r, buf', s'). (Data r buf', s')) (fs_read fd buf n s)
   | WriteFile fd buf n \<Rightarrow> map_option (\<lambda>(r, s'). (Ret r, s')) (fs_write fd buf n s))"

text \<open>
  What a C caller guarantees: names are strings, buffers are as long as the count says, and
  the length given to \<open>fs_truncate\<close> fits 32 bits.
\<close>

fun fs_allowed :: "fs_call \<Rightarrow> bool" where
  "fs_allowed (Create nm) = is_cstr nm"
| "fs_allowed (OpenFile nm) = is_cstr nm"
| "fs_allowed (Delete nm) = (case nm of None \<Rightarrow> True | Some nm \<Rightarrow> is_cstr nm)"
| "fs_allowed (ListFiles fresh) = (\<forall>k. length (fresh k) = FS_MAX_FILENAME_LENGTH)"
| "fs_allowed (Truncate fd len) = (len < 2 ^ 32)"
| "fs_allowed (ReadFile fd buf n) = (n \<le> length buf)"
| "fs_allowed (WriteFile fd buf n) = (n \<le> length buf \<and> length buf < 2 ^ 32)"
| "fs_allowed _ = True"

fun fs_spec :: "fs_call \<Rightarrow> afs \<Rightarrow> fs_reply \<Rightarrow> afs \<Rightarrow> bool" where
  "fs_spec (Create nm) a r a' = (let (n, b) = a_create nm a in r = Ret n \<and> a' = b)"
| "fs_spec (OpenFile nm) a r a' = (let (n, b) = a_open nm a in r = Ret n \<and> a' = b)"
| "fs_spec (CloseFile fd) a r a' = (let (n, b) = a_close fd a in r = Ret n \<and> a' = b)"
| "fs_spec (Delete nm) a r a' = (case nm of None \<Rightarrow> r = Ret (-1) \<and> a' = a
     | Some nm \<Rightarrow> let (n, b) = a_delete nm a in r = Ret n \<and> a' = b)"
| "fs_spec (GetSize fd) a r a' = (r = Ret (a_size fd a) \<and> a' = a)"
| "fs_spec (ListFiles fresh) a r a' = (\<exists>ns. r = Names 0 ns \<and> distinct (map cstr ns) \<and>
     set (map cstr ns) = dom (afiles a) \<and> a' = a)"
| "fs_spec (Seek_to fd off) a r a' = (let (n, b) = a_lseek fd off a in r = Ret n \<and> a' = b)"
| "fs_spec (Truncate fd len) a r a' = (let (n, b) = a_truncate fd len a in r = Ret n \<and> a' = b)"
| "fs_spec (ReadFile fd buf n) a r a' =
     (let (m, bytes, b) = a_read fd n a in r = Data m (patch buf 0 bytes) \<and> a' = b)"
| "fs_spec (WriteFile fd buf n) a r a' = (\<exists>m. r = Ret m \<and> a_write fd (take n buf) a m a')"

lemma fs_step:
  assumes inv: "fs_inv s" and c: "fs_allowed c"
  shows "\<exists>r s'. fs_exec c s = Some (r, s') \<and> fs_inv s' \<and> fs_spec c (abs_fs s) r (abs_fs s')"
proof (cases c)
  case (Create nm)
  then show ?thesis using fs_create_sim[OF inv, of nm] c
    by (auto simp: fs_exec_def split: prod.splits)
next
  case (OpenFile nm)
  then show ?thesis using fs_open_sim[OF inv, of nm] c
    by (auto simp: fs_exec_def split: prod.splits)
next
  case (CloseFile fd)
  then show ?thesis using fs_close_sim[OF inv, of fd]
    by (auto simp: fs_exec_def split: prod.splits)
next
  case (Delete nm)
  show ?thesis
  proof (cases nm)
    case None
    then show ?thesis using Delete inv by (simp add: fs_exec_def fs_delete_def)
  next
    case (Some n)
    then obtain r s' where "fs_delete nm s = Some (r, s')" "fs_inv s'" "(r, abs_fs s') = a_delete n (abs_fs s)"
      using fs_delete_sim[OF inv, of n] Delete c by auto
    then show ?thesis using Delete Some by (auto simp: fs_exec_def split: prod.splits)
  qed
next
  case (GetSize fd)
  then show ?thesis using fs_get_filesize_sim[OF inv, of fd] inv by (simp add: fs_exec_def)
next
  case (ListFiles fresh)
  then show ?thesis using fs_listfiles_sim[OF inv, of "\<lambda>_. True" fresh] c inv
    by (auto simp: fs_exec_def)
next
  case (Seek_to fd off)
  obtain r s' where "fs_lseek fd off s = Some (r, s')" "fs_inv s'" "(r, abs_fs s') = a_lseek fd off (abs_fs s)"
    using fs_lseek_sim[OF inv, of fd off] by auto
  then show ?thesis using Seek_to by (auto simp: fs_exec_def split: prod.splits)
next
  case (Truncate fd len)
  then obtain r s' where "fs_truncate fd len s = Some (r, s')" "fs_inv s'"
    "(r, abs_fs s') = a_truncate fd len (abs_fs s)"
    using fs_truncate_sim[OF inv, of len fd] c by auto
  then show ?thesis using Truncate by (auto simp: fs_exec_def split: prod.splits)
next
  case (ReadFile fd buf n)
  then obtain r bytes s' where "fs_read fd buf n s = Some (r, patch buf 0 bytes, s')" "fs_inv s'"
    "(r, bytes, abs_fs s') = a_read fd n (abs_fs s)"
    using fs_read_sim[OF inv, of n buf fd] c by auto
  then show ?thesis using ReadFile by (auto simp: fs_exec_def split: prod.splits)
next
  case (WriteFile fd buf n)
  then obtain r s' where "fs_write fd buf n s = Some (r, s')" "fs_inv s'"
    "a_write fd (take n buf) (abs_fs s) r (abs_fs s')"
    using fs_write_sim[OF inv, of n buf fd] c by auto
  then show ?thesis using WriteFile by (auto simp: fs_exec_def)
qed

interpretation mounted_fs: simulation fs_inv abs_fs fs_allowed fs_exec fs_spec
  by unfold_locales (rule fs_step)

section \<open>A booted system\<close>

text \<open>A program at its start on a host without files, and the state after making and mounting.\<close>

definition idle_host :: host where
  "idle_host = \<lparr>files = Map.empty, may_open = (\<lambda>_. True), may_create = (\<lambda>_. True),
     io_fails = (\<lambda>_ _. False), moves = (\<lambda>_ _. BLOCK_SIZE)\<rparr>"

definition idle_fs :: fs where
  "idle_fs = \<lparr>superblock = dec_superblock (replicate BLOCK_SIZE 0), fat_table = [],
     root_directory = replicate FS_MAX_FILES zero_dirent,
     fd_table = replicate FS_MAX_FILE_DESCRIPTORS zero_fdesc, mounted = False,
     fs_disk = \<lparr>active = False, handle = None, host = idle_host\<rparr>, stack = replicate BLOCK_SIZE 0\<rparr>"

definition boot :: "cstring \<Rightarrow> fs option" where
  "boot n = do {
     (r1, s1) \<leftarrow> make_fs True (Some n) idle_fs;
     (r2, s2) \<leftarrow> mount_fs True (\<lambda>_. 0) (Some n) s1;
     if r1 = 0 \<and> r2 = 0 then Some s2 else None
   }"

lemma boot_ok:
  "\<exists>s. boot n = Some s \<and> fs_inv s \<and> abs_fs s = \<lparr>afiles = (\<lambda>_. None), ahandles = (\<lambda>_. None)\<rparr> \<and>
     handle (fs_disk s) = Some n \<and> may_open (host (fs_disk s)) n"
proof -
  have "\<not> active (fs_disk idle_fs)" "healthy (host (fs_disk idle_fs))" "may_create (host (fs_disk idle_fs)) n"
    "may_open (host (fs_disk idle_fs)) n" "\<not> mounted idle_fs" "length (stack idle_fs) = BLOCK_SIZE"
    by (simp_all add: idle_fs_def idle_host_def healthy_def)
  from make_mount[OF this, of "\<lambda>_. 0"] show ?thesis by (auto simp: boot_def)
qed

definition booted :: fs where "booted = the (boot [100])"

lemma booted_inv: "fs_inv booted" "abs_fs booted = \<lparr>afiles = (\<lambda>_. None), ahandles = (\<lambda>_. None)\<rparr>"
  "handle (fs_disk booted) = Some [100]" "may_open (host (fs_disk booted)) [100]"
  using boot_ok[of "[100]"] by (auto simp: booted_def)

text \<open>One file, open at its start on descriptor 0.\<close>

definition demo :: fs where "demo = snd (fs_open [97] (snd (fs_create [97] booted)))"

lemma demo_ok:
  "fs_inv demo" "abs_files demo = [[97] \<mapsto> []]" "abs_handles demo = [0 \<mapsto> ([97], 0)]"
proof -
  let ?s1 = "snd (fs_create [97] booted)"
  have nm: "is_cstr [97]" by (simp add: is_cstr_def)
  have 1: "fs_inv ?s1" "abs_fs ?s1 = \<lparr>afiles = [[97] \<mapsto> []], ahandles = (\<lambda>_. None)\<rparr>"
    using fs_create_sim[OF booted_inv(1) nm] booted_inv(2)
    by (auto simp: a_create_def FS_MAX_FILENAME_LENGTH_def FS_MAX_FILES_def)
  have "[0..<FS_MAX_FILE_DESCRIPTORS] = 0 # [1..<FS_MAX_FILE_DESCRIPTORS]"
    by (simp add: FS_MAX_FILE_DESCRIPTORS_def upt_conv_Cons)
  then have 2: "fs_inv demo" "abs_fs demo = \<lparr>afiles = [[97] \<mapsto> []], ahandles = [0 \<mapsto> ([97], 0)]\<rparr>"
    using fs_open_sim[OF 1(1) nm] 1(2) by (auto simp: a_open_def demo_def)
  then show "fs_inv demo" "abs_files demo = [[97] \<mapsto> []]" "abs_handles demo = [0 \<mapsto> ([97], 0)]"
    by (simp_all add: abs_fs_def)
qed

section \<open>Properties\<close>

text \<open>C1: every sequence of calls on a mounted file system is defined, keeps the invariant, and
  replies and changes files and handles as the specification of named byte sequences allows.\<close>

theorem fs_implements_spec:
  assumes "fs_inv s" "\<forall>c \<in> set cs. fs_allowed c"
  shows "\<exists>rs t. run fs_exec cs s = Some (rs, t) \<and> fs_inv t \<and> allows fs_spec cs (abs_fs s) rs (abs_fs t)"
  by (rule mounted_fs.sim_run[OF assms])

lemma fs_implements_spec_witness:
  "\<exists>rs t. run fs_exec [Create [97], OpenFile [97], WriteFile 0 [1, 2, 3] 3, Seek_to 0 0,
      ReadFile 0 [0, 0, 0] 3, Truncate 0 1, CloseFile 0, Delete (Some [97])] booted = Some (rs, t) \<and> fs_inv t \<and>
    allows fs_spec [Create [97], OpenFile [97], WriteFile 0 [1, 2, 3] 3, Seek_to 0 0,
      ReadFile 0 [0, 0, 0] 3, Truncate 0 1, CloseFile 0, Delete (Some [97])] (abs_fs booted) rs (abs_fs t)"
  by (rule fs_implements_spec[OF booted_inv(1)]) (simp add: is_cstr_def)

lemma take_drop_write_at:
  "off \<le> length data \<Longrightarrow> take (length ys) (drop off (write_at data off ys)) = ys"
  by (simp add: write_at_def)

lemma length_write_at: "off \<le> length data \<Longrightarrow> off + length ys \<le> length (write_at data off ys)"
  by (simp add: write_at_def)

text \<open>What a write at an offset inside the file or at its end leaves behind.\<close>

lemma fs_write_inside:
  assumes inv: "fs_inv s" and h: "a_handle fd (abs_fs s) = Some (nm, off)"
    and off: "off \<le> length (the (abs_files s nm))" and buf: "n \<le> length buf" "length buf < 2 ^ 32"
  obtains m s1 where "fs_write fd buf n s = Some (int m, s1)" "m \<le> n" "m < n \<longrightarrow> disk_full (fat_table s1)"
    "fs_inv s1" "abs_files s1 nm = Some (write_at (the (abs_files s nm)) off (take m buf))"
    "a_handle fd (abs_fs s1) = Some (nm, off + m)"
proof -
  have "a_handle fd (abs_fs s) \<noteq> None" using h by simp
  then obtain data where dat: "abs_files s nm = Some data" and fd: "0 \<le> fd"
    using h by (rule_tac fd_cases[OF inv, of fd]) auto
  from fs_write_sim[OF inv buf, of fd] obtain r s1 where w: "fs_write fd buf n s = Some (r, s1)" "fs_inv s1"
    "a_write fd (take n buf) (abs_fs s) r (abs_fs s1)" "r \<noteq> -1 \<and> r < int n \<longrightarrow> disk_full (fat_table s1)"
    by blast
  have le: "off \<le> length data" using off dat by simp
  have keep: "abs_files s nm = Some (write_at data off (take 0 buf))"
    using dat le by (simp add: write_at_def)
  consider "r = 0" "abs_fs s1 = abs_fs s" | m where "m \<le> n" "r = int m"
      "abs_files s1 = (abs_files s)(nm \<mapsto> write_at data off (take m (take n buf)))"
      "abs_handles s1 = (abs_handles s)(nat fd \<mapsto> (nm, off + m))"
    using w(3) h dat le buf(1) by (auto simp: a_write_def abs_fs_def split: if_splits)
  then show thesis
  proof cases
    case 1
    then have "abs_files s1 = abs_files s" by (simp add: abs_fs_def)
    then show thesis using that[of 0 s1] w 1 h dat keep by auto
  next
    case 2
    then show thesis using that[of m s1] w(1,2,4) dat fd
      by (auto simp: a_handle_def min_absorb1)
  qed
qed

text \<open>C2: the bytes a write reports as stored are read back from the same offset; a write is
  short only when no block is left.\<close>

theorem fs_write_then_read:
  assumes "fs_inv s" "a_handle fd (abs_fs s) = Some (nm, off)" "off \<le> length (the (abs_files s nm))"
    and "n \<le> length buf" "length buf < 2 ^ 32" "n \<le> length buf'"
  shows "\<exists>m s1 s2 s3. fs_write fd buf n s = Some (int m, s1) \<and> m \<le> n \<and>
    (m < n \<longrightarrow> disk_full (fat_table s1)) \<and> fs_lseek fd (int off) s1 = Some (0, s2) \<and>
    fs_read fd buf' m s2 = Some (int m, patch buf' 0 (take m buf), s3)"
proof -
  let ?data = "the (abs_files s nm)"
  obtain m s1 where w: "fs_write fd buf n s = Some (int m, s1)" "m \<le> n" "m < n \<longrightarrow> disk_full (fat_table s1)"
    "fs_inv s1" "abs_files s1 nm = Some (write_at ?data off (take m buf))"
    "a_handle fd (abs_fs s1) = Some (nm, off + m)"
    by (rule fs_write_inside[OF assms(1-5)])
  have lm: "length (take m buf) = m" using w(2) assms(4) by simp
  from fs_lseek_sim[OF w(4), of fd "int off"] obtain r s2 where
    l: "fs_lseek fd (int off) s1 = Some (r, s2)" "fs_inv s2" "(r, abs_fs s2) = a_lseek fd (int off) (abs_fs s1)"
    by blast
  have r0: "r = 0" "abs_files s2 = abs_files s1" "a_handle fd (abs_fs s2) = Some (nm, off)"
    using l(3) w(5,6) length_write_at[OF assms(3), of "take m buf"] lm
    by (auto simp: a_lseek_def abs_fs_def a_handle_def split: if_splits)
  have "m \<le> length buf'" using w(2) assms(6) by simp
  from fs_read_sim[OF l(2) this, of fd] obtain q bytes s3 where
    "fs_read fd buf' m s2 = Some (q, patch buf' 0 bytes, s3)" "(q, bytes, abs_fs s3) = a_read fd m (abs_fs s2)"
    by blast
  then have "fs_read fd buf' m s2 = Some (int m, patch buf' 0 (take m buf), s3)"
    using r0(2,3) w(5) take_drop_write_at[OF assms(3), of "take m buf"]
      length_write_at[OF assms(3), of "take m buf"] lm
    by (simp add: a_read_def Let_def min_absorb2)
  with w(1-3) l(1) r0(1) show ?thesis by blast
qed

lemma fs_write_then_read_witness:
  "\<exists>m s1 s2 s3. fs_write 0 [7, 8, 9] 3 demo = Some (int m, s1) \<and> m \<le> 3 \<and>
    (m < 3 \<longrightarrow> disk_full (fat_table s1)) \<and> fs_lseek 0 (int 0) s1 = Some (0, s2) \<and>
    fs_read 0 [0, 0, 0] m s2 = Some (int m, patch [0, 0, 0] 0 (take m [7, 8, 9]), s3)"
  by (rule fs_write_then_read[OF demo_ok(1), of _ "[97]"]) (simp_all add: a_handle_def demo_ok)

text \<open>The file a call works on.\<close>

fun touches :: "fs_call \<Rightarrow> afs \<Rightarrow> cstring \<Rightarrow> bool" where
  "touches (Create nm) a x = (x = nm)"
| "touches (Delete nm) a x = (nm = Some x)"
| "touches (Truncate fd len) a x = (\<exists>off. a_handle fd a = Some (x, off))"
| "touches (WriteFile fd buf n) a x = (\<exists>off. a_handle fd a = Some (x, off))"
| "touches _ a x = False"

lemma fs_spec_frame: "fs_spec c a r a' \<Longrightarrow> \<not> touches c a x \<Longrightarrow> afiles a' x = afiles a x"
  by (cases c) (auto simp: a_create_def a_open_def a_close_def a_delete_def a_lseek_def a_truncate_def
      a_read_def a_write_def Let_def split: if_splits option.splits)

text \<open>C5: a call changes the contents of at most the file it names; all other files keep every
  byte, although they share the table and the disk.\<close>

theorem fs_call_frame:
  assumes "fs_inv s" "fs_allowed c" "fs_exec c s = Some (r, s')" "\<not> touches c (abs_fs s) x"
  shows "abs_files s' x = abs_files s x"
  using fs_step[OF assms(1,2)] assms(3) fs_spec_frame[OF _ assms(4)] by fastforce

lemma fs_call_frame_witness:
  "\<exists>r s'. fs_exec (WriteFile 0 [1, 2, 3] 3) demo = Some (r, s') \<and> abs_files s' [98] = abs_files demo [98]"
proof -
  have a: "fs_allowed (WriteFile 0 [1, 2, 3] 3)" by simp
  obtain r s' where e: "fs_exec (WriteFile 0 [1, 2, 3] 3) demo = Some (r, s')"
    using fs_step[OF demo_ok(1) a] by auto
  have "\<not> touches (WriteFile 0 [1, 2, 3] 3) (abs_fs demo) [98]" by (simp add: a_handle_def demo_ok)
  from fs_call_frame[OF demo_ok(1) a e this] e show ?thesis by blast
qed

text \<open>C7: a file system made by \<open>make_fs\<close> mounts, satisfies the invariant and has no files and no
  open descriptors, whatever the fresh table memory holds.\<close>

theorem make_then_mount:
  assumes "\<not> active (fs_disk s)" "healthy (host (fs_disk s))" "may_create (host (fs_disk s)) n"
    "may_open (host (fs_disk s)) n" "\<not> mounted s" "length (stack s) = BLOCK_SIZE"
  shows "\<exists>s1 s2. make_fs True (Some n) s = Some (0, s1) \<and> mount_fs True heap (Some n) s1 = Some (0, s2) \<and>
    fs_inv s2 \<and> abs_fs s2 = \<lparr>afiles = (\<lambda>_. None), ahandles = (\<lambda>_. None)\<rparr>"
  using make_mount[OF assms, of heap] by blast

lemma make_then_mount_witness:
  "\<exists>s1 s2. make_fs True (Some [100]) idle_fs = Some (0, s1) \<and> mount_fs True (\<lambda>i. of_nat i) (Some [100]) s1 = Some (0, s2) \<and>
    fs_inv s2 \<and> abs_fs s2 = \<lparr>afiles = (\<lambda>_. None), ahandles = (\<lambda>_. None)\<rparr>"
  by (rule make_then_mount) (simp_all add: idle_fs_def idle_host_def healthy_def)

text \<open>C8: after unmounting and mounting again every file has its contents, provided no file uses a
  block whose table entry lies beyond the two table blocks.\<close>

theorem remount_keeps_files:
  assumes "fs_inv s" "handle (fs_disk s) = Some n" "may_open (host (fs_disk s)) n"
    "stored_only (fat_table s) (root_directory s)"
  shows "\<exists>s1 s2. umount_fs s = Some (0, s1) \<and> mount_fs True heap (Some n) s1 = Some (0, s2) \<and>
    fs_inv s2 \<and> abs_files s2 = abs_files s \<and> abs_handles s2 = (\<lambda>_. None)"
  using remount[OF assms(1-3), of heap] assms(4) by blast

lemma remount_keeps_files_witness:
  "\<exists>s1 s2. umount_fs booted = Some (0, s1) \<and> mount_fs True (\<lambda>_. 5) (Some [100]) s1 = Some (0, s2) \<and>
    fs_inv s2 \<and> abs_files s2 = abs_files booted \<and> abs_handles s2 = (\<lambda>_. None)"
proof (rule remount_keeps_files[OF booted_inv(1,3,4)])
  have "abs_files booted = (\<lambda>_. None)" using booted_inv(2) by (simp add: abs_fs_def)
  then have "\<not> used (root_directory booted) i" for i using abs_files_used[OF booted_inv(1), of i] by auto
  then show "stored_only (fat_table booted) (root_directory booted)" by (simp add: stored_only_def)
qed

text \<open>C9: the table has 8192 entries but two blocks hold 2048 of them: after unmounting and mounting
  again every entry from 2048 on is what the fresh allocation happened to hold.\<close>

theorem remount_loses_table:
  assumes "fs_inv s" "handle (fs_disk s) = Some n" "may_open (host (fs_disk s)) n"
    "2048 \<le> i" "i < DISK_BLOCKS"
  shows "\<exists>s1 s2. umount_fs s = Some (0, s1) \<and> mount_fs True heap (Some n) s1 = Some (0, s2) \<and>
    fat_table s2 ! i = heap i"
  using remount[OF assms(1-3), of heap] remounted_nth[OF fs_invD(3)[OF assms(1)] assms(5)] assms(4)
  by (fastforce simp: STORED_eq)

lemma remount_loses_table_witness:
  "\<exists>s1 s2. umount_fs booted = Some (0, s1) \<and> mount_fs True (\<lambda>_. 5) (Some [100]) s1 = Some (0, s2) \<and>
    fat_table s2 ! 5000 = (\<lambda>_. 5) 5000"
  by (rule remount_loses_table[OF booted_inv(1,3,4)]) (simp_all add: DISK_BLOCKS_def)

text \<open>C10: \<open>fs_truncate\<close> cuts its length argument to 32 bits before it compares it with the size, so
  adding a multiple of 4 GiB to the argument changes nothing.\<close>

theorem fs_truncate_wraps:
  assumes "0 \<le> len"
  shows "fs_truncate fd (len + int k * 2 ^ 32) s = fs_truncate fd len s"
proof -
  have "(word_of_int (len + int k * 2 ^ 32) :: u32) = word_of_int len"
    by (subst word_of_int_eq_iff) (simp add: take_bit_eq_mod)
  then show ?thesis using assms unfolding fs_truncate_def by simp
qed

lemma fs_truncate_wraps_witness:
  "fs_truncate 0 (0 + int 1 * 2 ^ 32) demo = fs_truncate 0 0 demo"
  by (rule fs_truncate_wraps) simp

end
