(* ===== verification/FsErrors.thy ===== *)
theory FsErrors
  imports FsSystem
begin

text \<open>
  What the calls of \<^verbatim>\<open>fs.c\<close> leave behind when they fail, on every host: one that answers all calls, and
  one on which reads and writes of the disk file fail.  \<open>fs_inv_io\<close> is the invariant of a mounted file
  system without its assumption that the host answers.
\<close>

section \<open>A host that answers\<close>





section \<open>A host that may refuse\<close>

text \<open>The same state on a host that answers.\<close>

definition answering :: "fs \<Rightarrow> fs" where
  "answering s = s\<lparr>fs_disk := (fs_disk s)\<lparr>host := (host (fs_disk s))
     \<lparr>io_fails := (\<lambda>_ _. False), moves := (\<lambda>_ _. BLOCK_SIZE)\<rparr>\<rparr>\<rparr>"

definition fs_inv_io :: "fs \<Rightarrow> bool" where
  "fs_inv_io s \<longleftrightarrow> fs_inv (answering s)"

lemma answering_simps [simp]:
  "superblock (answering s) = superblock s" "fat_table (answering s) = fat_table s"
  "root_directory (answering s) = root_directory s" "fd_table (answering s) = fd_table s"
  "mounted (answering s) = mounted s" "stack (answering s) = stack s"
  by (simp_all add: answering_def)


lemma fs_inv_inv_io: "fs_inv s \<Longrightarrow> fs_inv_io s"
  by (auto simp: fs_inv_io_def fs_inv_def answering_def disk_ready_def healthy_def split: option.splits)

lemma valid_fd_answering [simp]: "valid_fd fd (answering s) = valid_fd fd s"
  by (simp add: valid_fd_def)

lemma fd_entry_answering [simp]: "fd_entry fd (answering s) = fd_entry fd s"
  by (simp add: fd_entry_def)


section \<open>Reading\<close>



section \<open>Writing\<close>













lemma set_fd_entry_fd [simp]: "fd_table (set_fd_entry fd e s) = fd_table s"
  by (simp add: set_fd_entry_def)







section \<open>A disk file that cannot be read\<close>

definition flaky_fs :: fs where
  "flaky_fs = \<lparr>superblock = std_superblock, fat_table = replicate DISK_BLOCKS FAT_FREE,
     root_directory = (replicate FS_MAX_FILES zero_dirent)[0 := new_entry [97] zero_dirent],
     fd_table = (replicate FS_MAX_FILE_DESCRIPTORS zero_fdesc)[0 := \<lparr>fd_in_use = 1, dir_entry_index = 0, fd_offset = 0\<rparr>],
     mounted = True, fs_disk = small_disk\<lparr>host := (host small_disk)\<lparr>io_fails := (\<lambda>c _. c = Read)\<rparr>\<rparr>,
     stack = replicate BLOCK_SIZE 0\<rparr>"

lemma flaky_simps [simp]:
  "superblock flaky_fs = std_superblock" "fat_table flaky_fs = replicate DISK_BLOCKS FAT_FREE" "mounted flaky_fs"
  "root_directory flaky_fs = (replicate FS_MAX_FILES zero_dirent)[0 := new_entry [97] zero_dirent]"
  "fd_table flaky_fs ! 0 = \<lparr>fd_in_use = 1, dir_entry_index = 0, fd_offset = 0\<rparr>" "valid_fd 0 flaky_fs"
  "fd_entry 0 flaky_fs = Some (new_entry [97] zero_dirent)" "stack flaky_fs = replicate BLOCK_SIZE 0"
  by (simp_all add: flaky_fs_def valid_fd_def fd_entry_def FS_MAX_FILES_def FS_MAX_FILE_DESCRIPTORS_def)





end
