(* ===== verification/Context.thy ===== *)
theory Context
  imports Prelude
begin

text \<open>
  Processor contexts for the two thread libraries: the pointer mangling and the start thunk of
  \<^verbatim>\<open>ec440threads.h\<close>, what \<^verbatim>\<open>setjmp\<close> stores in a \<^verbatim>\<open>jmp_buf\<close> and \<^verbatim>\<open>longjmp\<close> loads from it, and the
  hand-made context of a new thread.  A \<^verbatim>\<open>jmp_buf\<close> is the list of its eight words in the order
  of the \<^verbatim>\<open>JB_\<close> macros; memory is a function from addresses to bytes.
\<close>

section \<open>Memory words\<close>

type_synonym memory = "u64 \<Rightarrow> byte"

definition store64 :: "u64 \<Rightarrow> u64 \<Rightarrow> memory \<Rightarrow> memory" where
  "store64 a w m = (\<lambda>x. if unat (x - a) < 8 then ucast (drop_bit (8 * unat (x - a)) w) else m x)"

fun load_bytes :: "nat \<Rightarrow> memory \<Rightarrow> u64 \<Rightarrow> u64" where
  "load_bytes 0 m a = 0"
| "load_bytes (Suc n) m a = ucast (m a) OR push_bit 8 (load_bytes n m (a + 1))"

definition load64 :: "memory \<Rightarrow> u64 \<Rightarrow> u64" where
  "load64 m a = load_bytes 8 m a"

lemma load_bytes_cong:
  "(\<And>i. i < n \<Longrightarrow> m (a + of_nat i) = m' (a + of_nat i)) \<Longrightarrow> load_bytes n m a = load_bytes n m' a"
proof (induction n arbitrary: a)
  case (Suc n)
  have "m a = m' a" using Suc.prems[of 0] by simp
  moreover have "load_bytes n m (a + 1) = load_bytes n m' (a + 1)"
    using Suc.prems[of "Suc i" for i] by (intro Suc.IH) (simp add: add.assoc)
  ultimately show ?case by simp
qed simp

lemma load_bytes_word:
  "(\<And>i. i < n \<Longrightarrow> m (a + of_nat i) = ucast (drop_bit (8 * i) v)) \<Longrightarrow>
   load_bytes n m a = take_bit (8 * n) v"
proof (induction n arbitrary: a v)
  case (Suc n)
  have "m a = ucast v" using Suc.prems[of 0] by simp
  moreover have "load_bytes n m (a + 1) = take_bit (8 * n) (drop_bit 8 v)"
    using Suc.prems[of "Suc i" for i] by (intro Suc.IH) (simp add: add.assoc add.commute[of "8::nat" "8 * j" for j])
  ultimately show ?case
    by (simp, intro bit_word_eqI) (auto simp: bit_simps)
qed simp

lemma load_store_same [simp]: "load64 (store64 a w m) a = w"
proof -
  have "load_bytes 8 (store64 a w m) a = take_bit (8 * 8) w"
    by (rule load_bytes_word) (simp add: store64_def unat_of_nat take_bit_nat_eq_self)
  then show ?thesis by (simp add: load64_def take_bit_word_eq_self)
qed

text \<open>Words at least eight bytes apart in both directions do not overlap.\<close>

lemma load_store_other:
  assumes "8 \<le> unat (b - a)" "8 \<le> unat (a - b)"
  shows "load64 (store64 a w m) b = load64 m b"
proof -
  have "\<not> unat (b + of_nat i - a) < 8" if "i < 8" for i
  proof
    assume lt: "unat (b + of_nat i - a) < 8"
    have e: "b + of_nat i - a = (b - a) + of_nat i" by simp
    have i: "unat (of_nat i :: u64) = i" using that by (simp add: unat_of_nat take_bit_nat_eq_self)
    have ne: "b \<noteq> a" using assms(1) by auto
    have "unat a < 2 ^ 64" "unat b < 2 ^ 64" using unsigned_less[of a] unsigned_less[of b] by simp_all
    then have neg: "unat (a - b) = 2 ^ 64 - unat (b - a)"
      using unat_sub_if_size[of a b] unat_sub_if_size[of b a] ne by (auto simp: word_size)
    show False
    proof (cases "unat (b - a) + i < 2 ^ 64")
      case True
      then have "unat ((b - a) + of_nat i) = unat (b - a) + i"
        by (subst unat_word_ariths) (simp add: i)
      then show False using lt assms(1) unfolding e by linarith
    next
      case False
      then show False using neg assms(2) that by linarith
    qed
  qed
  then show ?thesis unfolding load64_def by (intro load_bytes_cong) (simp add: store64_def)
qed

section \<open>Pointer mangling\<close>

text \<open>\<open>guard\<close> is the word at \<^verbatim>\<open>%fs:0x30\<close>; the rotation count is \<^verbatim>\<open>0x11\<close>.\<close>

definition ptr_mangle :: "u64 \<Rightarrow> u64 \<Rightarrow> u64" where
  "ptr_mangle guard p = word_rotl 17 (p XOR guard)"

definition ptr_demangle :: "u64 \<Rightarrow> u64 \<Rightarrow> u64" where
  "ptr_demangle guard p = word_rotr 17 p XOR guard"

lemma demangle_mangle [simp]: "ptr_demangle guard (ptr_mangle guard p) = p"
  by (simp add: ptr_mangle_def ptr_demangle_def xor.assoc)

lemma mangle_demangle [simp]: "ptr_mangle guard (ptr_demangle guard p) = p"
  by (simp add: ptr_mangle_def ptr_demangle_def xor.assoc)

section \<open>The processor\<close>

record cpu =
  rax :: u64
  rdi :: u64
  rbx :: u64
  rbp :: u64
  r12 :: u64
  r13 :: u64
  r14 :: u64
  r15 :: u64
  rsp :: u64
  rip :: u64
  mem :: memory

definition push :: "u64 \<Rightarrow> cpu \<Rightarrow> cpu" where
  "push w c = c\<lparr>rsp := rsp c - 8, mem := store64 (rsp c - 8) w (mem c)\<rparr>"

definition top :: "cpu \<Rightarrow> u64" where
  "top c = load64 (mem c) (rsp c)"

definition drop_top :: "cpu \<Rightarrow> cpu" where
  "drop_top c = c\<lparr>rsp := rsp c + 8\<rparr>"

definition retq :: "cpu \<Rightarrow> cpu" where
  "retq c = (drop_top c)\<lparr>rip := top c\<rparr>"

text \<open>
  \<open>start_thunk\<close>: the prologue the compiler puts before the assembly pushes \<^verbatim>\<open>%rbp\<close>; the assembly
  pops it, moves the argument, and returns to the start routine.
\<close>

definition start_thunk :: "cpu \<Rightarrow> cpu" where
  "start_thunk c =
     (let c = push (rbp c) c;
          c = (drop_top c)\<lparr>rbp := top c\<rparr>;
          c = c\<lparr>rdi := r13 c\<rparr>;
          c = push (r12 c) c
      in retq c)"

section \<open>setjmp and longjmp\<close>

type_synonym jmp_buf = "u64 list"

definition JB_RBX :: nat where "JB_RBX = 0"
definition JB_RBP :: nat where "JB_RBP = 1"
definition JB_R12 :: nat where "JB_R12 = 2"
definition JB_R13 :: nat where "JB_R13 = 3"
definition JB_R14 :: nat where "JB_R14 = 4"
definition JB_R15 :: nat where "JB_R15 = 5"
definition JB_RSP :: nat where "JB_RSP = 6"
definition JB_PC :: nat where "JB_PC = 7"

lemmas JB_defs = JB_RBX_def JB_RBP_def JB_R12_def JB_R13_def JB_R14_def JB_R15_def JB_RSP_def JB_PC_def

definition setjmp :: "u64 \<Rightarrow> cpu \<Rightarrow> jmp_buf" where
  "setjmp guard c =
     [rbx c, rbp c, r12 c, r13 c, r14 c, r15 c, ptr_mangle guard (rsp c), ptr_mangle guard (rip c)]"

definition longjmp :: "u64 \<Rightarrow> jmp_buf \<Rightarrow> u64 \<Rightarrow> cpu \<Rightarrow> cpu" where
  "longjmp guard buf v c = c\<lparr>rax := (if v = 0 then 1 else v), rbx := buf ! JB_RBX, rbp := buf ! JB_RBP,
     r12 := buf ! JB_R12, r13 := buf ! JB_R13, r14 := buf ! JB_R14, r15 := buf ! JB_R15,
     rsp := ptr_demangle guard (buf ! JB_RSP), rip := ptr_demangle guard (buf ! JB_PC)\<rparr>"

lemma length_setjmp [simp]: "length (setjmp guard c) = 8"
  by (simp add: setjmp_def)

section \<open>The context of a new thread\<close>

text \<open>
  What \<open>pthread_create\<close> does to the buffer \<^verbatim>\<open>setjmp\<close> filled and to the new stack: \<open>base\<close> is the
  address \<^verbatim>\<open>malloc\<close> returned, \<open>ret\<close> the function a finished thread returns to.
\<close>

definition STACK_SIZE :: nat where "STACK_SIZE = 32767"

definition stack_top :: "u64 \<Rightarrow> u64" where
  "stack_top base = base + of_nat STACK_SIZE - 8"

definition fresh_context :: "u64 \<Rightarrow> u64 \<Rightarrow> u64 \<Rightarrow> u64 \<Rightarrow> u64 \<Rightarrow> jmp_buf \<Rightarrow> jmp_buf" where
  "fresh_context guard thunk base start arg buf =
     buf[JB_RSP := ptr_mangle guard (stack_top base), JB_PC := ptr_mangle guard thunk,
         JB_R12 := start, JB_R13 := arg]"

definition fresh_stack :: "u64 \<Rightarrow> u64 \<Rightarrow> memory \<Rightarrow> memory" where
  "fresh_stack base ret m = store64 (stack_top base) ret m"

section \<open>Properties\<close>

text \<open>
  Switching to the context of a new thread while the word at the top of its stack is still the
  return address \<open>pthread_create\<close> put there.
\<close>

lemma thunk_start_at:
  assumes "load64 (mem c1) (stack_top base) = ret"
    and "c1 = longjmp guard (fresh_context guard thunk base start arg (setjmp guard c)) v c'"
  shows "rip c1 = thunk" "rip (start_thunk c1) = start" "rdi (start_thunk c1) = arg"
    "rsp (start_thunk c1) = stack_top base" "top (start_thunk c1) = ret"
proof -
  show "rip c1 = thunk" "rip (start_thunk c1) = start" "rdi (start_thunk c1) = arg"
    "rsp (start_thunk c1) = stack_top base"
    unfolding assms(2)
    by (simp_all add: start_thunk_def retq_def drop_top_def push_def top_def Let_def longjmp_def
        fresh_context_def setjmp_def JB_defs)
  have "load64 (store64 (s - 8) w m') s = load64 m' s" for s w m'
    by (rule load_store_other) simp_all
  then show "top (start_thunk c1) = ret"
    using assms(1) unfolding assms(2)
    by (simp add: start_thunk_def retq_def drop_top_def push_def top_def Let_def longjmp_def
        fresh_context_def setjmp_def JB_defs)
qed

lemma thunk_start:
  assumes "mem c' = fresh_stack base ret m"
    and "c1 = longjmp guard (fresh_context guard thunk base start arg (setjmp guard c)) v c'"
  shows "rip c1 = thunk" "rip (start_thunk c1) = start" "rdi (start_thunk c1) = arg"
    "rsp (start_thunk c1) = stack_top base" "top (start_thunk c1) = ret"
proof -
  have "load64 (mem c1) (stack_top base) = ret"
    unfolding assms(2) by (simp add: longjmp_def assms(1) fresh_stack_def)
  note thunk_start_at[OF this assms(2)]
  then show "rip c1 = thunk" "rip (start_thunk c1) = start" "rdi (start_thunk c1) = arg"
    "rsp (start_thunk c1) = stack_top base" "top (start_thunk c1) = ret" by blast+
qed

text \<open>C39: switching to the hand-made context of a new thread and running the thunk enters the start
  routine with its argument in the first argument register, the stack pointer at the top of the new
  stack, and the exit function there as return address.\<close>

theorem fresh_context_starts:
  assumes "mem c' = fresh_stack base ret m"
    and "c1 = longjmp guard (fresh_context guard thunk base start arg (setjmp guard c)) v c'"
  shows "rip c1 = thunk \<and> rip (start_thunk c1) = start \<and> rdi (start_thunk c1) = arg \<and>
    rsp (start_thunk c1) = stack_top base \<and> top (start_thunk c1) = ret"
  using thunk_start[OF assms] by blast

definition idle_cpu :: cpu where
  "idle_cpu = \<lparr>rax = 0, rdi = 0, rbx = 0, rbp = 0, r12 = 0, r13 = 0, r14 = 0, r15 = 0, rsp = 0x7000,
     rip = 0x400, mem = (\<lambda>_. 0)\<rparr>"

lemma fresh_context_starts_witness:
  "let c' = idle_cpu\<lparr>mem := fresh_stack 0x9000 0x500 (\<lambda>_. 0)\<rparr>;
       c1 = longjmp 0xABC (fresh_context 0xABC 0x600 0x9000 0x700 42 (setjmp 0xABC idle_cpu)) 1 c'
   in rip c1 = 0x600 \<and> rip (start_thunk c1) = 0x700 \<and> rdi (start_thunk c1) = 42 \<and>
      rsp (start_thunk c1) = stack_top 0x9000 \<and> top (start_thunk c1) = 0x500"
  unfolding Let_def by (rule fresh_context_starts[OF _ refl]) simp

text \<open>C40: the return address of a new thread lies inside the stack that was allocated for it, but the
  stack size is odd, so on a stack that \<^verbatim>\<open>malloc\<close> aligned to 16 bytes the stack pointer the thread
  starts with is never aligned, not even to 2 bytes.\<close>

theorem fresh_stack_misaligned:
  assumes "unat base + STACK_SIZE < 2 ^ 64" "unat base mod 16 = 0"
  shows "unat base \<le> unat (stack_top base) \<and> unat (stack_top base) + 8 \<le> unat base + STACK_SIZE \<and>
    unat (stack_top base) mod 16 = 7"
proof -
  have "unat (base + of_nat STACK_SIZE) = unat base + STACK_SIZE"
    using assms(1) by (subst unat_word_ariths) (simp add: STACK_SIZE_def)
  then have u: "unat (stack_top base) = unat base + 32759"
    unfolding stack_top_def by (subst unat_sub) (simp_all add: word_le_nat_alt STACK_SIZE_def)
  have "(unat base + 32759) mod 16 = 7" using assms(2) by presburger
  then show ?thesis using u by (simp add: STACK_SIZE_def)
qed

lemma fresh_stack_misaligned_witness:
  "unat (0x9000 :: u64) \<le> unat (stack_top 0x9000) \<and>
    unat (stack_top 0x9000) + 8 \<le> unat (0x9000 :: u64) + STACK_SIZE \<and> unat (stack_top 0x9000) mod 16 = 7"
  by (rule fresh_stack_misaligned) (simp_all add: STACK_SIZE_def)

end
