(* ===== verification/RoundRobin.thy ===== *)
theory RoundRobin
  imports Prelude
begin

text \<open>
  The round-robin search that both thread libraries perform in \<^verbatim>\<open>schedule\<close>, and the contract of
  a scheduler built on it: a locale whose lemmas say which thread runs next and that every ready
  thread runs within one round.
\<close>

section \<open>The search\<close>

text \<open>
  The \<^verbatim>\<open>do ... while\<close> loop: advance cyclically until a ready thread or thread 0 is reached.
  \<open>None\<close> is the division by a thread count of 0.
\<close>

function pick :: "(nat \<Rightarrow> bool) \<Rightarrow> nat \<Rightarrow> nat \<Rightarrow> nat option" where
  "pick ready n c =
     (if n = 0 then None
      else let c' = (c + 1) mod n in
        if \<not> ready c' \<and> c' \<noteq> 0 then pick ready n c' else Some c')"
  by pat_completeness auto
termination
proof (relation "measure (\<lambda>(ready, n, c). if c < n then n - c else Suc n)")
  fix ready :: "nat \<Rightarrow> bool" and n c x :: nat
  assume a: "\<not> n = 0" "x = (c + 1) mod n" "\<not> ready x \<and> x \<noteq> 0"
  then have "x < n" by simp
  moreover have "x = c + 1" if "c < n"
    using that a(2,3) by (cases "c + 1 = n") auto
  ultimately show "((ready, n, x), (ready, n, c)) \<in> measure (\<lambda>(ready, n, c). if c < n then n - c else Suc n)"
    by auto
qed simp

declare pick.simps [simp del]

lemma pick_eq:
  "c < n \<Longrightarrow> pick ready n c = Some (case find ready [Suc c..<n] of None \<Rightarrow> 0 | Some i \<Rightarrow> i)"
proof (induction ready n c rule: pick.induct)
  case (1 ready n c)
  show ?case
  proof (cases "Suc c < n")
    case True
    then have m: "(c + 1) mod n = Suc c" and u: "[Suc c..<n] = Suc c # [Suc (Suc c)..<n]"
      by (simp_all add: upt_conv_Cons)
    show ?thesis
      using "1.IH"[OF _ refl] "1.prems" True m u
      by (cases "ready (Suc c)") (simp_all add: pick.simps[of ready n c])
  next
    case False
    then have "Suc c = n" using "1.prems" by simp
    then show ?thesis by (simp add: pick.simps[of ready n c])
  qed
qed

text \<open>The thread chosen: ready or thread 0, and no ready thread between the current one and it.\<close>

lemma pick_cases:
  assumes "c < n"
  obtains (later) i where "pick ready n c = Some i" "c < i" "i < n" "ready i"
      "\<And>j. c < j \<Longrightarrow> j < i \<Longrightarrow> \<not> ready j"
  | (wrap) "pick ready n c = Some 0" "\<And>j. c < j \<Longrightarrow> j < n \<Longrightarrow> \<not> ready j"
proof (cases "find ready [Suc c..<n]")
  case None
  then have "pick ready n c = Some 0" using pick_eq[OF assms, of ready] by simp
  moreover have "\<not> ready j" if "c < j" "j < n" for j using None that by (auto simp: find_None_iff)
  ultimately show thesis by (rule wrap)
next
  case (Some i)
  then obtain k where k: "k < n - Suc c" "ready (Suc c + k)" "i = Suc c + k"
    "\<forall>j < k. \<not> ready (Suc c + j)" by (auto simp: find_Some_iff)
  have "\<not> ready j" if "c < j" "j < i" for j
    using k(3,4) that by (auto dest!: spec[of _ "j - Suc c"])
  then show thesis using later[of i] pick_eq[OF assms, of ready] Some k by simp
qed

primrec iter :: "nat \<Rightarrow> ('s \<Rightarrow> 's option) \<Rightarrow> 's \<Rightarrow> 's option" where
  "iter 0 f s = Some s"
| "iter (Suc k) f s = Option.bind (f s) (iter k f)"

lemma iter_add: "iter (j + k) f s = Option.bind (iter j f s) (iter k f)"
  by (induction j arbitrary: s) (auto split: Option.bind_split)

section \<open>The contract of a scheduler\<close>

locale round_robin =
  fixes inv :: "'s \<Rightarrow> bool"
    and cur :: "'s \<Rightarrow> nat"
    and total_threads :: "'s \<Rightarrow> nat"
    and ready :: "'s \<Rightarrow> nat \<Rightarrow> bool"
    and sched :: "'s \<Rightarrow> 's option"
  assumes cur_less: "inv s \<Longrightarrow> cur s < total_threads s"
    and sched_step: "inv s \<Longrightarrow> \<exists>s'. sched s = Some s' \<and> inv s' \<and>
      pick (ready s) (total_threads s) (cur s) = Some (cur s') \<and>
      total_threads s' = total_threads s \<and> ready s' = ready s"
begin

lemma sched_ready:
  assumes "inv s" "sched s = Some s'"
  shows "cur s' = 0 \<or> ready s (cur s')"
  using sched_step[OF assms(1)] assms(2) pick_cases[OF cur_less[OF assms(1)], of "ready s"]
  by (metis option.inject)

text \<open>From a thread below \<open>t\<close>, thread \<open>t\<close> is reached in at most \<open>t - cur\<close> switches.\<close>

lemma reach_up:
  assumes "inv s" "cur s < t" "t < total_threads s" "ready s t"
  shows "\<exists>k s'. 0 < k \<and> k \<le> t - cur s \<and> iter k sched s = Some s' \<and> inv s' \<and> cur s' = t \<and>
    total_threads s' = total_threads s \<and> ready s' = ready s"
  using assms
proof (induction "t - cur s" arbitrary: s rule: less_induct)
  case less
  obtain s1 where s1: "sched s = Some s1" "inv s1"
    "pick (ready s) (total_threads s) (cur s) = Some (cur s1)"
    "total_threads s1 = total_threads s" "ready s1 = ready s"
    using sched_step[OF less.prems(1)] by auto
  have le: "cur s < cur s1 \<and> cur s1 \<le> t"
  proof (rule pick_cases[OF cur_less[OF less.prems(1)], of "ready s"])
    fix i assume "pick (ready s) (total_threads s) (cur s) = Some i" "cur s < i"
      "\<And>j. cur s < j \<Longrightarrow> j < i \<Longrightarrow> \<not> ready s j"
    with s1(3) less.prems(2,4) show ?thesis by (metis not_le option.inject)
  next
    assume "\<And>j. cur s < j \<Longrightarrow> j < total_threads s \<Longrightarrow> \<not> ready s j"
    with less.prems show ?thesis by blast
  qed
  show ?case
  proof (cases "cur s1 = t")
    case True
    then show ?thesis using s1 less.prems(2) by (intro exI[of _ 1] exI[of _ s1]) simp
  next
    case False
    with le have "cur s1 < t" by simp
    from less.hyps[OF _ s1(2) this] less.prems(3,4) s1(4,5) le less.prems(2) obtain k s' where
      k: "0 < k" "k \<le> t - cur s1" "iter k sched s1 = Some s'" "inv s'" "cur s' = t"
        "total_threads s' = total_threads s" "ready s' = ready s" by fastforce
    have "Suc k \<le> t - cur s" using k(2) le False by linarith
    then show ?thesis using k s1(1) by (intro exI[of _ "Suc k"] exI[of _ s']) simp
  qed
qed

lemma reach_zero:
  assumes "inv s"
  shows "\<exists>k s'. 0 < k \<and> k \<le> total_threads s - cur s \<and> iter k sched s = Some s' \<and> inv s' \<and> cur s' = 0 \<and>
    total_threads s' = total_threads s \<and> ready s' = ready s"
  using assms
proof (induction "total_threads s - cur s" arbitrary: s rule: less_induct)
  case less
  note c = cur_less[OF less.prems]
  obtain s1 where s1: "sched s = Some s1" "inv s1"
    "pick (ready s) (total_threads s) (cur s) = Some (cur s1)"
    "total_threads s1 = total_threads s" "ready s1 = ready s"
    using sched_step[OF less.prems] by auto
  show ?case
  proof (cases "cur s1 = 0")
    case True
    then show ?thesis using s1 c by (intro exI[of _ 1] exI[of _ s1]) simp
  next
    case False
    have le: "cur s < cur s1 \<and> cur s1 < total_threads s"
      by (rule pick_cases[OF c, of "ready s"]) (use s1(3) False in auto)
    then have "total_threads s1 - cur s1 < total_threads s - cur s" using s1(4) by arith
    from less.hyps[OF this s1(2)] s1(4,5) obtain k s' where
      k: "0 < k" "k \<le> total_threads s - cur s1" "iter k sched s1 = Some s'" "inv s'" "cur s' = 0"
        "total_threads s' = total_threads s" "ready s' = ready s" by auto
    have "Suc k \<le> total_threads s - cur s" using k(2) le by linarith
    then show ?thesis using k s1(1) by (intro exI[of _ "Suc k"] exI[of _ s']) simp
  qed
qed

text \<open>Fairness: a ready thread, and thread 0 in any state, runs within one round.\<close>

lemma fair:
  assumes "inv s" "t < total_threads s" "ready s t \<or> t = 0"
  shows "\<exists>k s'. 0 < k \<and> k \<le> total_threads s \<and> iter k sched s = Some s' \<and> cur s' = t"
proof (cases "t = 0")
  case True
  then show ?thesis using reach_zero[OF assms(1)] by (metis diff_le_self le_trans)
next
  case False
  then have r: "ready s t" using assms(3) by simp
  show ?thesis
  proof (cases "cur s < t")
    case True
    from reach_up[OF assms(1) True assms(2) r] assms(2) show ?thesis by (metis diff_le_self le_trans less_imp_le)
  next
    case False
    from reach_zero[OF assms(1)] obtain k s1 where
      k: "0 < k" "k \<le> total_threads s - cur s" "iter k sched s = Some s1" "inv s1" "cur s1 = 0"
        "total_threads s1 = total_threads s" "ready s1 = ready s" by auto
    have "cur s1 < t" using k(5) \<open>t \<noteq> 0\<close> by simp
    from reach_up[OF k(4) this] k(6,7) assms(2) r obtain j s2 where
      j: "0 < j" "j \<le> t - cur s1" "iter j sched s1 = Some s2" "cur s2 = t" by auto
    have "k + j \<le> total_threads s" using k(2,5) j(2) False cur_less[OF assms(1)] by linarith
    then show ?thesis using k(1,3) j(3,4) by (intro exI[of _ "k + j"] exI[of _ s2]) (simp add: iter_add)
  qed
qed

end

end
