(* ===== verification/Threads2.thy ===== *)
theory Threads2
  imports Context RoundRobin
begin

text \<open>
  The thread library of \<^verbatim>\<open>EC440_HW2/threads.c\<close>.  The state \<open>lib\<close> holds the static variables, the
  processor of the running thread, whether \<^verbatim>\<open>SIGALRM\<close> is blocked, and where in the library or in
  user code the running thread stands: \<open>at\<close>.  A saved context is its \<^verbatim>\<open>jmp_buf\<close> together with the
  point its stack returns to (\<open>resume_at\<close>).  Calls of one thread run to their end or to their call
  of \<open>schedule\<close> without a signal in between; signals arrive in user code and in the endless loop of
  \<open>pthread_exit\<close>.
\<close>

section \<open>State\<close>

definition MAX_THREADS :: nat where "MAX_THREADS = 128"
definition READY :: int where "READY = 0"
definition RUNNING :: int where "RUNNING = 1"
definition EXITED :: int where "EXITED = 2"

lemma state_codes2 [simp]: "READY \<noteq> RUNNING" "READY \<noteq> EXITED" "RUNNING \<noteq> READY" "RUNNING \<noteq> EXITED"
  "EXITED \<noteq> READY" "EXITED \<noteq> RUNNING"
  by (simp_all add: READY_def RUNNING_def EXITED_def)

text \<open>
  Points of control: user code, a signal handler interrupting another point, behind the call of
  \<open>schedule\<close> in \<open>pthread_create\<close> and in \<open>pthread_exit\<close>, and the entry of \<open>start_thunk\<close>.
\<close>

datatype point = In_user | Preempted point | After_create | After_exit | In_thunk

record thread_control_block =
  tid :: nat
  ctx :: jmp_buf
  resume_at :: point
  stk :: u64
  state :: int
  start_routine :: u64
  arg :: u64

record lib =
  tcb :: "thread_control_block list"
  thread_count :: nat
  current_thread :: nat
  next_thread :: nat
  cpu :: cpu
  at :: point
  masked :: bool
  alarm :: "nat option"
  guard :: u64
  thunk_addr :: u64
  exit_addr :: u64
  ended :: bool

section \<open>Operations\<close>

definition set_tcb :: "nat \<Rightarrow> thread_control_block \<Rightarrow> lib \<Rightarrow> lib" where
  "set_tcb i t s = s\<lparr>tcb := (tcb s)[i := t]\<rparr>"

definition is_ready :: "lib \<Rightarrow> nat \<Rightarrow> bool" where
  "is_ready s i \<longleftrightarrow> i < length (tcb s) \<and> state (tcb s ! i) = READY"

definition schedule :: "point \<Rightarrow> lib \<Rightarrow> lib option" where
  "schedule p s = do {
     t \<leftarrow> arr_get (tcb s) (current_thread s);
     let s1 = set_tcb (current_thread s) (t\<lparr>ctx := setjmp (guard s) (cpu s), resume_at := p\<rparr>) s;
     c \<leftarrow> pick (is_ready s1) (thread_count s1) (current_thread s1);
     t' \<leftarrow> arr_get (tcb s1) c;
     Some (s1\<lparr>next_thread := c, current_thread := c,
              cpu := longjmp (guard s1) (ctx t') 1 (cpu s1), at := resume_at t'\<rparr>)
   }"

fun any_alive :: "thread_control_block list \<Rightarrow> bool" where
  "any_alive [] = False"
| "any_alive (t # ts) = (if state t \<noteq> EXITED then True else any_alive ts)"

definition pthread_exit :: "lib \<Rightarrow> lib option" where
  "pthread_exit s = do {
     t \<leftarrow> arr_get (tcb s) (current_thread s);
     let s1 = set_tcb (current_thread s) (t\<lparr>state := EXITED\<rparr>) s;
     if \<not> any_alive (take (thread_count s1) (tcb s1)) then Some (s1\<lparr>ended := True\<rparr>)
     else schedule After_exit s1
   }"

definition pthread_self :: "lib \<Rightarrow> nat option" where
  "pthread_self s = map_option tid (arr_get (tcb s) (current_thread s))"

text \<open>\<open>Switched\<close>: the call has not returned, another context runs.\<close>

datatype outcome = Returned int | Switched

text \<open>\<open>malloc\<close> is the address of the new stack; the middle component is what \<^verbatim>\<open>*thread\<close> receives.\<close>

definition pthread_create :: "u64 option \<Rightarrow> u64 \<Rightarrow> u64 \<Rightarrow> lib \<Rightarrow> (outcome \<times> nat option \<times> lib) option" where
  "pthread_create malloc start a s =
     (let n = thread_count s in
      if MAX_THREADS \<le> n then Some (Returned (-1), None, s)
      else do {
        t0 \<leftarrow> arr_get (tcb s) n;
        let t = t0\<lparr>tid := n\<rparr>;
        (case malloc of
           None \<Rightarrow> Some (Returned (-1), Some n, set_tcb n (t\<lparr>stk := 0\<rparr>) s)
         | Some base \<Rightarrow> do {
             let buf = fresh_context (guard s) (thunk_addr s) base start a (setjmp (guard s) (cpu s));
             let t = t\<lparr>stk := base, start_routine := start, arg := a, state := READY,
                       ctx := buf, resume_at := In_thunk\<rparr>;
             let c = (cpu s)\<lparr>mem := fresh_stack base (exit_addr s) (mem (cpu s))\<rparr>;
             s' \<leftarrow> schedule After_create ((set_tcb n t s)\<lparr>cpu := c, thread_count := n + 1\<rparr>);
             Some (Switched, Some n, s')
           })
      })"

text \<open>\<^verbatim>\<open>initialize_scheduler\<close> installs the handler and a timer of 50000 microseconds.\<close>

definition initialize_scheduler :: "lib \<Rightarrow> lib" where
  "initialize_scheduler s = s\<lparr>alarm := Some 50000\<rparr>"

definition init :: "lib \<Rightarrow> lib option" where
  "init s = do {
     t \<leftarrow> arr_get (tcb s) 0;
     Some (initialize_scheduler (set_tcb 0 (t\<lparr>tid := 0, state := RUNNING\<rparr>) s))
   }"

text \<open>The static variables before any constructor ran, on a given processor.\<close>

definition zero_tcb :: thread_control_block where
  "zero_tcb = \<lparr>tid = 0, ctx = replicate 8 0, resume_at = In_user, stk = 0, state = 0,
     start_routine = 0, arg = 0\<rparr>"

definition loaded :: "cpu \<Rightarrow> u64 \<Rightarrow> u64 \<Rightarrow> u64 \<Rightarrow> lib" where
  "loaded c g th ex = \<lparr>tcb = replicate MAX_THREADS zero_tcb, thread_count = 1, current_thread = 0,
     next_thread = 0, cpu = c, at = In_user, masked = False, alarm = None, guard = g, thunk_addr = th,
     exit_addr = ex, ended = False\<rparr>"

text \<open>
  The signal: delivered when it is not blocked, in user code and in the endless loop of
  \<open>pthread_exit\<close> (the code does not block it inside library calls either; a signal there is not
  modelled), and blocked while the handler \<open>schedule\<close> runs.
  \<^verbatim>\<open>setjmp\<close> and \<^verbatim>\<open>longjmp\<close> do not save or restore the mask, so it stays blocked in the thread the
  handler jumps to, until a handler returns.
\<close>

definition can_tick :: "lib \<Rightarrow> bool" where
  "can_tick s \<longleftrightarrow> alarm s \<noteq> None \<and> \<not> masked s \<and> \<not> ended s \<and> (at s = In_user \<or> at s = After_exit)"

definition tick :: "lib \<Rightarrow> lib option" where
  "tick s = schedule (Preempted (at s)) (s\<lparr>masked := True\<rparr>)"

text \<open>What runs between the switch to a context and user code.\<close>

definition resume :: "lib \<Rightarrow> lib" where
  "resume s = (case at s of
     Preempted p \<Rightarrow> s\<lparr>at := p, masked := False\<rparr>
   | After_create \<Rightarrow> s\<lparr>at := In_user, cpu := (cpu s)\<lparr>rax := 0\<rparr>\<rparr>
   | In_thunk \<Rightarrow> s\<lparr>at := In_user, cpu := start_thunk (cpu s)\<rparr>
   | In_user \<Rightarrow> s
   | After_exit \<Rightarrow> s)"

section \<open>Steps\<close>

inductive step :: "lib \<Rightarrow> lib \<Rightarrow> bool" where
  step_user: "at s = In_user \<Longrightarrow> \<not> ended s \<Longrightarrow> step s (s\<lparr>cpu := c\<rparr>)"
| step_alarm: "can_tick s \<Longrightarrow> tick s = Some s' \<Longrightarrow> step s s'"
| step_create: "at s = In_user \<Longrightarrow> \<not> ended s \<Longrightarrow> pthread_create m f a s = Some (r, n, s') \<Longrightarrow> step s s'"
| step_exit: "at s = In_user \<Longrightarrow> \<not> ended s \<Longrightarrow> pthread_exit s = Some s' \<Longrightarrow> step s s'"
| step_resume: "\<not> ended s \<Longrightarrow> step s (resume s)"

inductive reachable :: "lib \<Rightarrow> bool" where
  reach_init: "init (loaded c g th ex) = Some s \<Longrightarrow> reachable s"
| reach_step: "reachable s \<Longrightarrow> step s s' \<Longrightarrow> reachable s'"

inductive_cases stepE: "step s s'"

section \<open>The invariant\<close>

text \<open>A point from which user code is never reached: the loop behind \<open>pthread_exit\<close>.\<close>

fun dead :: "point \<Rightarrow> bool" where
  "dead After_exit = True"
| "dead (Preempted p) = dead p"
| "dead _ = False"

definition lib_inv :: "lib \<Rightarrow> bool" where
  "lib_inv s \<longleftrightarrow> length (tcb s) = MAX_THREADS \<and> 0 < thread_count s \<and> thread_count s \<le> MAX_THREADS \<and>
     current_thread s < thread_count s \<and>
     (\<forall>i < thread_count s. tid (tcb s ! i) = i) \<and> state (tcb s ! 0) \<in> {RUNNING, EXITED} \<and>
     (\<forall>i < thread_count s. 0 < i \<longrightarrow> state (tcb s ! i) \<in> {READY, EXITED}) \<and>
     (if ended s then \<forall>i < thread_count s. state (tcb s ! i) = EXITED
      else (current_thread s \<noteq> 0 \<longrightarrow> state (tcb s ! current_thread s) = READY) \<and>
        (state (tcb s ! current_thread s) = EXITED \<longrightarrow> dead (at s)) \<and>
        (\<forall>i < thread_count s. i \<noteq> current_thread s \<longrightarrow> state (tcb s ! i) = EXITED \<longrightarrow>
           dead (resume_at (tcb s ! i))))"

lemma any_alive_iff: "any_alive ts \<longleftrightarrow> (\<exists>t \<in> set ts. state t \<noteq> EXITED)"
  by (induction ts) auto

text \<open>The weaker condition \<open>schedule\<close> needs: the invariant without the state of the current thread.\<close>

definition sched_pre :: "lib \<Rightarrow> point \<Rightarrow> bool" where
  "sched_pre s p \<longleftrightarrow> length (tcb s) = MAX_THREADS \<and> 0 < thread_count s \<and> thread_count s \<le> MAX_THREADS \<and>
     current_thread s < thread_count s \<and> \<not> ended s \<and>
     (\<forall>i < thread_count s. tid (tcb s ! i) = i) \<and> state (tcb s ! 0) \<in> {RUNNING, EXITED} \<and>
     (\<forall>i < thread_count s. 0 < i \<longrightarrow> state (tcb s ! i) \<in> {READY, EXITED}) \<and>
     (state (tcb s ! current_thread s) = EXITED \<longrightarrow> dead p) \<and>
     (\<forall>i < thread_count s. i \<noteq> current_thread s \<longrightarrow> state (tcb s ! i) = EXITED \<longrightarrow>
        dead (resume_at (tcb s ! i)))"

lemma schedule_spec2:
  assumes "sched_pre s p"
  obtains c s' where "schedule p s = Some s'" "lib_inv s'"
    "pick (is_ready s) (thread_count s) (current_thread s) = Some c" "current_thread s' = c"
    "c < thread_count s" "thread_count s' = thread_count s" "masked s' = masked s"
    "tcb s' = (tcb s)[current_thread s :=
       (tcb s ! current_thread s)\<lparr>ctx := setjmp (guard s) (cpu s), resume_at := p\<rparr>]"
    "cpu s' = longjmp (guard s) (ctx (tcb s' ! c)) 1 (cpu s)" "at s' = resume_at (tcb s' ! c)"
    "is_ready s' = is_ready s" "c = 0 \<or> is_ready s c"
proof -
  let ?cur = "current_thread s"
  let ?t = "(tcb s ! ?cur)\<lparr>ctx := setjmp (guard s) (cpu s), resume_at := p\<rparr>"
  let ?tcb = "(tcb s)[?cur := ?t]"
  have a: "length (tcb s) = MAX_THREADS" "0 < thread_count s" "thread_count s \<le> MAX_THREADS"
    "?cur < thread_count s" "\<not> ended s"
    using assms by (simp_all add: sched_pre_def)
  have cl: "?cur < length (tcb s)" using a by simp
  have rd: "is_ready (set_tcb ?cur ?t s) = is_ready s"
    using cl by (auto simp: is_ready_def set_tcb_def nth_list_update fun_eq_iff)
  obtain c where c: "pick (is_ready s) (thread_count s) ?cur = Some c" "c < thread_count s" "c = 0 \<or> is_ready s c"
    by (rule pick_cases[OF a(4), of "is_ready s"]) (use a(2) that in auto)
  let ?s = "(set_tcb ?cur ?t s)\<lparr>next_thread := c, current_thread := c,
      cpu := longjmp (guard s) (ctx (?tcb ! c)) 1 (cpu s), at := resume_at (?tcb ! c)\<rparr>"
  have run: "schedule p s = Some ?s"
    using cl a(1,3) c(1,2) by (simp add: schedule_def Let_def rd[unfolded set_tcb_def] set_tcb_def)
  have st: "tid (?tcb ! i) = tid (tcb s ! i)" "state (?tcb ! i) = state (tcb s ! i)" for i
    using cl by (simp_all add: nth_list_update)
  have ra: "resume_at (?tcb ! i) = (if i = ?cur then p else resume_at (tcb s ! i))" for i
    using cl by (simp add: nth_list_update)
  have "lib_inv ?s"
    using assms c(2,3) unfolding lib_inv_def sched_pre_def
    by (auto simp: set_tcb_def st ra is_ready_def)
  moreover have "is_ready ?s = is_ready s" using rd by (auto simp: is_ready_def fun_eq_iff)
  ultimately show thesis using that[OF run _ c(1)] c(2,3) by (simp add: set_tcb_def)
qed

text \<open>Every operation keeps the invariant.\<close>

lemma init_inv2: "init (loaded c g th ex) = Some s \<Longrightarrow> lib_inv s"
  by (auto simp: init_def loaded_def initialize_scheduler_def set_tcb_def lib_inv_def MAX_THREADS_def
      zero_tcb_def)

lemma tick_pre: "lib_inv s \<Longrightarrow> can_tick s \<Longrightarrow> sched_pre (s\<lparr>masked := True\<rparr>) (Preempted (at s))"
  by (auto simp: lib_inv_def can_tick_def sched_pre_def)

lemma tick_inv2: "lib_inv s \<Longrightarrow> can_tick s \<Longrightarrow> \<exists>s'. tick s = Some s' \<and> lib_inv s'"
  using schedule_spec2[OF tick_pre] unfolding tick_def by metis

text \<open>The state in which \<open>pthread_create\<close> calls \<open>schedule\<close>.\<close>

definition created :: "u64 \<Rightarrow> u64 \<Rightarrow> u64 \<Rightarrow> lib \<Rightarrow> lib" where
  "created base start a s = (let n = thread_count s in
     (set_tcb n ((tcb s ! n)\<lparr>tid := n, stk := base, start_routine := start, arg := a, state := READY,
        ctx := fresh_context (guard s) (thunk_addr s) base start a (setjmp (guard s) (cpu s)),
        resume_at := In_thunk\<rparr>) s)
     \<lparr>cpu := (cpu s)\<lparr>mem := fresh_stack base (exit_addr s) (mem (cpu s))\<rparr>, thread_count := n + 1\<rparr>)"

lemma create_run2:
  assumes "lib_inv s" "thread_count s < MAX_THREADS"
  shows "pthread_create (Some base) start a s =
    map_option (\<lambda>s'. (Switched, Some (thread_count s), s')) (schedule After_create (created base start a s))"
  using assms
  by (simp add: pthread_create_def created_def lib_inv_def Let_def map_option_case bind_eq_Some_conv
      split: option.splits)

lemma create_pre2:
  assumes "lib_inv s" "thread_count s < MAX_THREADS" "at s = In_user" "\<not> ended s"
  shows "sched_pre (created base start a s) After_create"
proof -
  let ?n = "thread_count s"
  have l: "?n < length (tcb s)" using assms by (simp add: lib_inv_def)
  have ne: "state (tcb s ! current_thread s) \<noteq> EXITED"
    using assms(1,3,4) unfolding lib_inv_def by (metis dead.simps(3))
  show ?thesis
    using assms l ne unfolding sched_pre_def created_def Let_def lib_inv_def
    by (auto simp: set_tcb_def nth_list_update less_Suc_eq)
qed

lemma create_inv2:
  assumes "lib_inv s" "at s = In_user" "\<not> ended s"
  shows "\<exists>r n s'. pthread_create m start a s = Some (r, n, s') \<and> lib_inv s'"
proof (cases "MAX_THREADS \<le> thread_count s")
  case True
  then show ?thesis using assms(1) by (simp add: pthread_create_def)
next
  case False
  then have n: "thread_count s < MAX_THREADS" by simp
  show ?thesis
  proof (cases m)
    case None
    let ?s = "set_tcb (thread_count s) ((tcb s ! thread_count s)\<lparr>tid := thread_count s, stk := 0\<rparr>) s"
    have "lib_inv ?s" using assms(1) by (auto simp: lib_inv_def set_tcb_def split: if_splits)
    moreover have "thread_count s < length (tcb s)" using n assms(1) by (simp add: lib_inv_def)
    then have "pthread_create m start a s = Some (Returned (-1), Some (thread_count s), ?s)"
      using None False by (simp add: pthread_create_def Let_def)
    ultimately show ?thesis by blast
  next
    case (Some base)
    obtain s' where "schedule After_create (created base start a s) = Some s'" "lib_inv s'"
      by (rule schedule_spec2[OF create_pre2[OF assms(1) n assms(2,3)]]) (rule that)
    then show ?thesis using Some create_run2[OF assms(1) n] by simp
  qed
qed

lemma exit_inv2:
  assumes "lib_inv s" "\<not> ended s"
  shows "\<exists>s'. pthread_exit s = Some s' \<and> lib_inv s' \<and>
    (ended s' \<longleftrightarrow> (\<forall>i < thread_count s. i \<noteq> current_thread s \<longrightarrow> state (tcb s ! i) = EXITED))"
proof -
  let ?cur = "current_thread s"
  let ?s1 = "set_tcb ?cur ((tcb s ! ?cur)\<lparr>state := EXITED\<rparr>) s"
  have a: "length (tcb s) = MAX_THREADS" "0 < thread_count s" "thread_count s \<le> MAX_THREADS" "?cur < thread_count s"
    using assms(1) by (simp_all add: lib_inv_def)
  then have cl: "?cur < length (tcb s)" by simp
  have st: "state (tcb ?s1 ! i) = (if i = ?cur then EXITED else state (tcb s ! i))" for i
    using cl by (simp add: set_tcb_def nth_list_update)
  have al: "any_alive (take (thread_count s) (tcb ?s1)) \<longleftrightarrow> (\<exists>i < thread_count s. state (tcb ?s1 ! i) \<noteq> EXITED)"
    using a(1,3) unfolding any_alive_iff by (intro bex_take_nth) (simp add: set_tcb_def)
  show ?thesis
  proof (cases "any_alive (take (thread_count s) (tcb ?s1))")
    case False
    then have all: "\<forall>i < thread_count s. state (tcb ?s1 ! i) = EXITED" using al by simp
    then have "lib_inv (?s1\<lparr>ended := True\<rparr>)"
      using assms(1) cl by (auto simp: lib_inv_def set_tcb_def nth_list_update split: if_splits)
    moreover have "pthread_exit s = Some (?s1\<lparr>ended := True\<rparr>)"
      using False cl by (simp add: pthread_exit_def set_tcb_def)
    ultimately show ?thesis using all st by auto
  next
    case True
    have "sched_pre ?s1 After_exit"
      using assms cl unfolding sched_pre_def lib_inv_def
      by (auto simp: set_tcb_def nth_list_update split: if_splits)
    then obtain s' where "schedule After_exit ?s1 = Some s'" "lib_inv s'" "ended s' = ended ?s1"
      by (rule schedule_spec2) (auto simp: schedule_def Let_def bind_eq_Some_conv set_tcb_def intro: that)
    moreover have "pthread_exit s = schedule After_exit ?s1"
      using True cl by (simp add: pthread_exit_def set_tcb_def)
    moreover have "\<exists>i < thread_count s. i \<noteq> ?cur \<and> state (tcb s ! i) \<noteq> EXITED"
      using True al st by metis
    ultimately show ?thesis using assms(2) by (auto simp: set_tcb_def)
  qed
qed

lemma resume_inv2:
  assumes "lib_inv s" "\<not> ended s"
  shows "lib_inv (resume s)"
proof -
  have "state (tcb s ! current_thread s) = EXITED \<Longrightarrow> dead (at s)"
    using assms unfolding lib_inv_def by metis
  then show ?thesis
    using assms by (cases "at s") (auto simp: resume_def lib_inv_def split: if_splits)
qed

lemma step_inv2: "step s s' \<Longrightarrow> lib_inv s \<Longrightarrow> lib_inv s'"
proof (induction rule: step.induct)
  case (step_user s c)
  then show ?case by (simp add: lib_inv_def)
next
  case (step_alarm s s')
  then show ?case using tick_inv2[of s] by auto
next
  case (step_create s m f a r n s')
  then show ?case using create_inv2[of s m f a] by auto
next
  case (step_exit s s')
  then show ?case using exit_inv2[of s] by auto
next
  case (step_resume s)
  then show ?case by (simp add: resume_inv2)
qed

lemma reachable_inv2: "reachable s \<Longrightarrow> lib_inv s"
  by (induction rule: reachable.induct) (auto intro: init_inv2 step_inv2)

section \<open>The scheduler contract\<close>

text \<open>Switching from user code: the contract of \<open>round_robin\<close> on states with the invariant.\<close>

definition yield_inv :: "lib \<Rightarrow> bool" where
  "yield_inv s \<longleftrightarrow> lib_inv s \<and> \<not> ended s"

definition yield :: "lib \<Rightarrow> lib option" where
  "yield s = schedule (if state (tcb s ! current_thread s) = EXITED then After_exit else In_user) s"

interpretation rr: round_robin yield_inv current_thread thread_count is_ready yield
proof
  fix s assume s: "yield_inv s"
  then show "current_thread s < thread_count s" by (simp add: yield_inv_def lib_inv_def)
  let ?p = "if state (tcb s ! current_thread s) = EXITED then After_exit else In_user"
  have "sched_pre s ?p" using s by (auto simp: yield_inv_def lib_inv_def sched_pre_def)
  then obtain c s' where "schedule ?p s = Some s'" "lib_inv s'"
    "pick (is_ready s) (thread_count s) (current_thread s) = Some c" "current_thread s' = c"
    "thread_count s' = thread_count s" "is_ready s' = is_ready s"
    by (rule schedule_spec2) (rule that)
  moreover from this(1) have "ended s' = ended s"
    by (auto simp: schedule_def Let_def bind_eq_Some_conv set_tcb_def)
  ultimately show "\<exists>s'. yield s = Some s' \<and> yield_inv s' \<and>
      pick (is_ready s) (thread_count s) (current_thread s) = Some (current_thread s') \<and>
      thread_count s' = thread_count s \<and> is_ready s' = is_ready s"
    using s by (auto simp: yield_def yield_inv_def)
qed

section \<open>Properties\<close>

lemma init_loaded:
  "init (loaded c g th ex) = Some (initialize_scheduler (set_tcb 0 (zero_tcb\<lparr>state := RUNNING\<rparr>) (loaded c g th ex)))"
  by (simp add: init_def loaded_def MAX_THREADS_def zero_tcb_def)

definition booted2 :: lib where
  "booted2 = initialize_scheduler (set_tcb 0 (zero_tcb\<lparr>state := RUNNING\<rparr>) (loaded idle_cpu 0xABC 0x600 0x500))"

lemma booted2_reachable: "reachable booted2" "\<not> ended booted2" "at booted2 = In_user"
  using reach_init[OF init_loaded]
  by (simp_all add: booted2_def initialize_scheduler_def set_tcb_def loaded_def)

text \<open>C16: in every state the library reaches, the thread table is well formed (ids are indices, at most
  128 threads, the running thread is ready or the main thread), and no call and no signal runs into
  undefined behaviour.\<close>

theorem threads2_safe:
  assumes "reachable s" "\<not> ended s"
  shows "lib_inv s \<and> pthread_self s = Some (current_thread s) \<and>
    (can_tick s \<longrightarrow> tick s \<noteq> None) \<and>
    (at s = In_user \<longrightarrow> (\<forall>m f a. pthread_create m f a s \<noteq> None) \<and> pthread_exit s \<noteq> None)"
proof -
  have inv: "lib_inv s" by (rule reachable_inv2[OF assms(1)])
  then have "pthread_self s = Some (current_thread s)" by (simp add: pthread_self_def lib_inv_def)
  moreover have "can_tick s \<longrightarrow> tick s \<noteq> None" using tick_inv2[OF inv] by auto
  moreover have "at s = In_user \<longrightarrow> (\<forall>m f a. pthread_create m f a s \<noteq> None)"
    using create_inv2[OF inv _ assms(2)] by (metis option.distinct(1))
  moreover have "pthread_exit s \<noteq> None" using exit_inv2[OF inv assms(2)] by auto
  ultimately show ?thesis using inv by blast
qed

lemma threads2_safe_witness:
  "lib_inv booted2 \<and> pthread_self booted2 = Some (current_thread booted2) \<and> tick booted2 \<noteq> None \<and>
    pthread_create (Some 0x9000) 0x700 1 booted2 \<noteq> None \<and> pthread_exit booted2 \<noteq> None"
proof -
  have "can_tick booted2"
    by (simp add: can_tick_def booted2_def initialize_scheduler_def set_tcb_def loaded_def)
  then show ?thesis using threads2_safe[OF booted2_reachable(1,2)] booted2_reachable(3) by simp
qed

text \<open>
  Two threads: thread 0 in state \<open>st\<close>, saved at \<open>p\<close>; thread 1 ready, in user code on the processor.
\<close>

definition two_threads :: "int \<Rightarrow> point \<Rightarrow> lib" where
  "two_threads st p = booted2\<lparr>tcb := [zero_tcb\<lparr>state := st, resume_at := p\<rparr>, zero_tcb\<lparr>tid := 1\<rparr>] @
     replicate 126 zero_tcb, thread_count := 2, current_thread := 1\<rparr>"

lemma two_threads_simps [simp]:
  "tcb (two_threads st p) ! 0 = zero_tcb\<lparr>state := st, resume_at := p\<rparr>"
  "tcb (two_threads st p) ! Suc 0 = zero_tcb\<lparr>tid := 1\<rparr>"
  "length (tcb (two_threads st p)) = MAX_THREADS" "thread_count (two_threads st p) = 2"
  "current_thread (two_threads st p) = 1" "at (two_threads st p) = In_user" "\<not> ended (two_threads st p)"
  "\<not> masked (two_threads st p)" "alarm (two_threads st p) = Some 50000"
  by (simp_all add: two_threads_def booted2_def initialize_scheduler_def set_tcb_def loaded_def MAX_THREADS_def)

lemma two_threads_inv: "st = RUNNING \<or> st = EXITED \<and> dead p \<Longrightarrow> lib_inv (two_threads st p)"
  unfolding lib_inv_def by (auto simp: MAX_THREADS_def less_2_cases_iff zero_tcb_def READY_def RUNNING_def EXITED_def)

text \<open>A step keeps exited threads exited.\<close>

lemma schedule_state:
  assumes "schedule p s = Some s'"
  shows "state (tcb s' ! i) = state (tcb s ! i)" "thread_count s' = thread_count s" "ended s' = ended s"
    "masked s' = masked s"
  using assms
  by (auto simp: schedule_def Let_def bind_eq_Some_conv set_tcb_def arr_get_Some_iff nth_list_update)

lemma step_exited:
  assumes "step s s'" "lib_inv s" "t < thread_count s" "state (tcb s ! t) = EXITED"
  shows "t < thread_count s' \<and> state (tcb s' ! t) = EXITED"
  using assms(1)
proof cases
  case step_alarm
  then show ?thesis using assms(3,4) by (auto simp: tick_def schedule_state)
next
  case (step_create m f a r n)
  then show ?thesis using assms(2-4)
    by (auto simp: pthread_create_def Let_def bind_eq_Some_conv schedule_state set_tcb_def lib_inv_def
        split: if_splits option.splits)
next
  case step_exit
  then show ?thesis using assms(2-4)
    by (auto simp: pthread_exit_def Let_def bind_eq_Some_conv schedule_state set_tcb_def
        arr_get_Some_iff nth_list_update split: if_splits)
next
  case step_resume
  then show ?thesis using assms(3,4) by (simp add: resume_def split: point.splits)
qed (use assms(3,4) in simp)

text \<open>C24: a thread that has called \<open>pthread_exit\<close> stays exited and executes no user code in any later
  state, although thread 0 keeps being chosen by the scheduler after its exit.\<close>

theorem exited_thread_is_dead:
  assumes "lib_inv s" "t < thread_count s" "state (tcb s ! t) = EXITED" "step\<^sup>*\<^sup>* s s'"
  shows "state (tcb s' ! t) = EXITED \<and> (current_thread s' = t \<and> \<not> ended s' \<longrightarrow> t = 0 \<and> dead (at s'))"
proof -
  have "lib_inv s' \<and> t < thread_count s' \<and> state (tcb s' ! t) = EXITED"
    using assms(4) by (induction rule: rtranclp_induct) (use assms(1-3) step_inv2 step_exited in blast)+
  then show ?thesis unfolding lib_inv_def by (metis state_codes2(5))
qed

lemma exited_thread_is_dead_witness:
  "\<exists>s'. step (two_threads EXITED After_exit) s' \<and> state (tcb s' ! 0) = EXITED \<and>
    (current_thread s' = 0 \<and> \<not> ended s' \<longrightarrow> (0::nat) = 0 \<and> dead (at s'))"
proof -
  let ?s = "two_threads EXITED After_exit"
  have inv: "lib_inv ?s" by (rule two_threads_inv) simp
  have t: "can_tick ?s" by (simp add: can_tick_def)
  obtain s' where s': "tick ?s = Some s'" using tick_inv2[OF inv t] by blast
  then have st: "step ?s s'" by (rule step_alarm[OF t])
  have "state (tcb s' ! 0) = EXITED \<and> (current_thread s' = 0 \<and> \<not> ended s' \<longrightarrow> (0::nat) = 0 \<and> dead (at s'))"
    by (rule exited_thread_is_dead[OF inv _ _ r_into_rtranclp[of step, OF st]]) simp_all
  then show ?thesis using st by blast
qed

text \<open>C32: round robin is fair: as long as threads only yield, every ready thread runs within as many
  switches as there are threads.\<close>

theorem schedule_fair:
  assumes "reachable s" "\<not> ended s" "t < thread_count s" "is_ready s t \<or> t = 0"
  shows "\<exists>k s'. 0 < k \<and> k \<le> thread_count s \<and> iter k yield s = Some s' \<and> current_thread s' = t"
  using rr.fair[of s t] reachable_inv2[OF assms(1)] assms(2-4) by (simp add: yield_inv_def)

lemma schedule_fair_witness:
  "\<exists>k s'. 0 < k \<and> k \<le> thread_count booted2 \<and> iter k yield booted2 = Some s' \<and> current_thread s' = 0"
  using schedule_fair[OF booted2_reachable(1,2), of 0] reachable_inv2[OF booted2_reachable(1)]
  by (simp add: lib_inv_def)

text \<open>
  Thread \<open>n\<close> has not run: its entry holds the context \<open>buf\<close> it was made with, and when it is the current
  thread, that context has just been loaded.
\<close>

definition fresh_thread :: "nat \<Rightarrow> u64 \<Rightarrow> jmp_buf \<Rightarrow> lib \<Rightarrow> bool" where
  "fresh_thread n g buf s \<longleftrightarrow> n < thread_count s \<and> guard s = g \<and> resume_at (tcb s ! n) = In_thunk \<and>
     ctx (tcb s ! n) = buf \<and>
     (current_thread s = n \<longrightarrow> at s = In_thunk \<and> (\<exists>c. cpu s = longjmp g buf 1 c))"

lemma schedule_fresh:
  assumes "schedule p s = Some s'" "current_thread s \<noteq> n" "fresh_thread n g buf s"
  shows "fresh_thread n g buf s'"
  using assms
  by (auto simp: schedule_def Let_def bind_eq_Some_conv arr_get_Some_iff fresh_thread_def set_tcb_def)

text \<open>A step of the process while another thread than \<open>n\<close> is current.\<close>

definition other_step :: "nat \<Rightarrow> lib \<Rightarrow> lib \<Rightarrow> bool" where
  "other_step n s s' \<longleftrightarrow> step s s' \<and> current_thread s \<noteq> n"

lemma other_step_fresh:
  assumes "other_step n s s'" "fresh_thread n g buf s"
  shows "fresh_thread n g buf s'"
proof -
  have c: "current_thread s \<noteq> n" and st: "step s s'" using assms(1) by (simp_all add: other_step_def)
  from st show ?thesis
  proof cases
    case step_alarm
    then show ?thesis
      using schedule_fresh[of "Preempted (at s)" "s\<lparr>masked := True\<rparr>" s' n g buf] c assms(2)
      by (simp add: tick_def fresh_thread_def)
  next
    case (step_create m f a r k)
    have ne: "fresh_thread n g buf (set_tcb (thread_count s) t s)" for t
      using assms(2) by (simp add: fresh_thread_def set_tcb_def)
    have "fresh_thread n g buf ((set_tcb (thread_count s) t s)\<lparr>cpu := x, thread_count := thread_count s + 1\<rparr>)" for t x
      using assms(2) c by (simp add: fresh_thread_def set_tcb_def)
    then show ?thesis
      using step_create(3) ne assms(2) schedule_fresh[of After_create _ s' n g buf] c
      by (auto simp: pthread_create_def Let_def bind_eq_Some_conv set_tcb_def split: if_splits option.splits)
  next
    case step_exit
    have "fresh_thread n g buf (set_tcb (current_thread s) t s)" for t
      using assms(2) c by (simp add: fresh_thread_def set_tcb_def)
    then show ?thesis
      using step_exit(3) assms(2) schedule_fresh[of After_exit _ s' n g buf] c
      by (auto simp: pthread_exit_def Let_def bind_eq_Some_conv fresh_thread_def set_tcb_def split: if_splits)
  qed (use c assms(2) in \<open>auto simp: fresh_thread_def resume_def split: point.splits\<close>)
qed

text \<open>C25: a thread made by \<open>pthread_create\<close> enters its start routine with its argument, on its own stack and
  with \<open>pthread_exit\<close> as return address, when it is scheduled for the first time: by \<open>pthread_create\<close> itself
  or after any number of steps and switches of the other threads, as long as none of them overwrote the
  word at the top of the new stack.\<close>

theorem created_thread_starts:
  assumes "lib_inv s" "at s = In_user" "\<not> ended s"
    and "pthread_create (Some base) f a s = Some (Switched, Some n, s1)"
    and "(other_step n)\<^sup>*\<^sup>* s1 s2" "current_thread s2 = n"
    and "load64 (mem (cpu s2)) (stack_top base) = exit_addr s"
  shows "at s2 = In_thunk \<and> at (resume s2) = In_user \<and> rip (cpu (resume s2)) = f \<and>
    rdi (cpu (resume s2)) = a \<and> rsp (cpu (resume s2)) = stack_top base \<and> top (cpu (resume s2)) = exit_addr s"
proof -
  have lt: "thread_count s < MAX_THREADS"
    using assms(4) by (auto simp: pthread_create_def Let_def split: if_splits)
  let ?c = "created base f a s"
  let ?buf = "fresh_context (guard s) (thunk_addr s) base f a (setjmp (guard s) (cpu s))"
  have n: "n = thread_count s" and run: "schedule After_create ?c = Some s1"
    using assms(4) create_run2[OF assms(1) lt, of base f a] by auto
  have l: "n < length (tcb s)" "current_thread s \<noteq> n"
    using assms(1) lt n by (simp_all add: lib_inv_def)
  have "fresh_thread n (guard s) ?buf ?c"
    using l by (simp add: fresh_thread_def created_def Let_def set_tcb_def n)
  moreover have "current_thread ?c \<noteq> n" using l(2) by (simp add: created_def Let_def set_tcb_def)
  ultimately have f1: "fresh_thread n (guard s) ?buf s1" by (intro schedule_fresh[OF run])
  from assms(5) have "fresh_thread n (guard s) ?buf s2"
    by (induction rule: rtranclp_induct) (use f1 other_step_fresh in blast)+
  then obtain c where c: "at s2 = In_thunk" "cpu s2 = longjmp (guard s) ?buf 1 c"
    using assms(6) by (auto simp: fresh_thread_def)
  show ?thesis using thunk_start_at[OF assms(7) c(2)] c(1) by (simp add: resume_def)
qed

text \<open>The main thread on the processor while thread 1 is ready: a new thread is not the next to run.\<close>

definition main_and_ready :: lib where
  "main_and_ready = (two_threads RUNNING In_user)\<lparr>current_thread := 0\<rparr>"

lemma main_and_ready_simps [simp]:
  "thread_count main_and_ready = 2" "current_thread main_and_ready = 0" "at main_and_ready = In_user"
  "\<not> ended main_and_ready" "\<not> masked main_and_ready" "alarm main_and_ready = Some 50000"
  "tcb main_and_ready = tcb (two_threads RUNNING In_user)"
  by (simp_all add: main_and_ready_def)

lemma main_and_ready_inv: "lib_inv main_and_ready"
  using two_threads_inv[of RUNNING In_user] unfolding lib_inv_def
  by (auto simp: less_2_cases_iff zero_tcb_def READY_def RUNNING_def EXITED_def)

lemma schedule_alarm: "schedule p s = Some s' \<Longrightarrow> alarm s' = alarm s"
  by (auto simp: schedule_def Let_def bind_eq_Some_conv set_tcb_def)

lemma created_thread_starts_witness:
  "\<exists>s1 s2. pthread_create (Some 0x9000) 0x700 42 main_and_ready = Some (Switched, Some 2, s1) \<and>
    current_thread s1 = 1 \<and> tick s1 = Some s2 \<and> current_thread s2 = 2 \<and> at (resume s2) = In_user \<and>
    rip (cpu (resume s2)) = 0x700 \<and> rdi (cpu (resume s2)) = 42 \<and>
    rsp (cpu (resume s2)) = stack_top 0x9000 \<and> top (cpu (resume s2)) = exit_addr main_and_ready"
proof -
  let ?s = main_and_ready
  let ?c = "created 0x9000 0x700 42 ?s"
  have lt: "thread_count ?s < MAX_THREADS" by (simp add: MAX_THREADS_def)
  have c: "thread_count ?c = 3" "current_thread ?c = 0" "is_ready ?c 1" "is_ready ?c 2"
    by (simp_all add: created_def Let_def is_ready_def set_tcb_def MAX_THREADS_def nth_list_update zero_tcb_def READY_def)
  obtain k s1 where s1: "schedule After_create ?c = Some s1" "lib_inv s1"
    "pick (is_ready ?c) (thread_count ?c) (current_thread ?c) = Some k" "current_thread s1 = k"
    "thread_count s1 = thread_count ?c" "masked s1 = masked ?c"
    "tcb s1 = (tcb ?c)[current_thread ?c := (tcb ?c ! current_thread ?c)\<lparr>ctx := setjmp (guard ?c) (cpu ?c), resume_at := After_create\<rparr>]"
    "cpu s1 = longjmp (guard ?c) (ctx (tcb s1 ! k)) 1 (cpu ?c)" "at s1 = resume_at (tcb s1 ! k)" "is_ready s1 = is_ready ?c"
    by (rule schedule_spec2[OF create_pre2[OF main_and_ready_inv lt]]) (simp, simp, rule that)
  have k: "k = 1" using s1(3) c pick_eq[of 0 3 "is_ready ?c"] by (simp add: upt_rec)
  have at1: "at s1 = In_user" using s1(7,9) k c by (simp add: created_def Let_def set_tcb_def zero_tcb_def)
  have off: "\<not> masked s1" "\<not> ended s1" "alarm s1 = Some 50000"
    using s1(6) schedule_state(3)[OF s1(1)] schedule_alarm[OF s1(1)] by (simp_all add: created_def Let_def set_tcb_def)
  then have t1: "can_tick s1" using at1 by (simp add: can_tick_def)
  let ?m = "s1\<lparr>masked := True\<rparr>"
  obtain k2 s2 where s2: "schedule (Preempted (at s1)) ?m = Some s2"
    "pick (is_ready ?m) (thread_count ?m) (current_thread ?m) = Some k2" "current_thread s2 = k2"
    "cpu s2 = longjmp (guard ?m) (ctx (tcb s2 ! k2)) 1 (cpu ?m)"
    by (rule schedule_spec2[OF tick_pre[OF s1(2) t1]]) (rule that)
  have "is_ready ?m 2 = is_ready s1 2" by (simp add: is_ready_def)
  then have "is_ready ?m 2" using s1(10) c(4) by simp
  then have k2: "k2 = 2" using s2(2) s1(4,5) k c pick_eq[of 1 3 "is_ready ?m"] by (simp add: upt_rec numeral_2_eq_2)
  have tk: "tick s1 = Some s2" using s2(1) by (simp add: tick_def)
  have p: "pthread_create (Some 0x9000) 0x700 42 ?s = Some (Switched, Some 2, s1)"
    using create_run2[OF main_and_ready_inv lt, of "0x9000" "0x700" 42] s1(1) by simp
  have path: "(other_step 2)\<^sup>*\<^sup>* s1 s2"
    using step_alarm[OF t1 tk] s1(4) k by (intro r_into_rtranclp) (simp add: other_step_def)
  have "mem (cpu s2) = mem (cpu ?c)" using s2(4) s1(8) by (simp add: longjmp_def)
  then have m: "load64 (mem (cpu s2)) (stack_top 0x9000) = exit_addr ?s"
    by (simp add: created_def Let_def fresh_stack_def)
  show ?thesis
    using created_thread_starts[OF main_and_ready_inv _ _ p path _ m] s2(3) k2 s1(4) k p tk by auto
qed

text \<open>C26: \<open>pthread_exit\<close> ends the process exactly when every other thread has exited before.\<close>

theorem exit_ends_process:
  assumes "reachable s" "\<not> ended s"
  shows "\<exists>s'. pthread_exit s = Some s' \<and>
    (ended s' \<longleftrightarrow> (\<forall>i < thread_count s. i \<noteq> current_thread s \<longrightarrow> state (tcb s ! i) = EXITED))"
  using exit_inv2[OF reachable_inv2[OF assms(1)] assms(2)] by blast

lemma exit_ends_process_witness:
  "\<exists>s'. pthread_exit booted2 = Some s' \<and>
    (ended s' \<longleftrightarrow> (\<forall>i < thread_count booted2. i \<noteq> current_thread booted2 \<longrightarrow> state (tcb booted2 ! i) = EXITED))"
  by (rule exit_ends_process[OF booted2_reachable(1,2)])

text \<open>C33: preemption is lost: when the timer switches to a thread that was not itself interrupted by
  the timer, the signal stays blocked, and no further signal interrupts that thread.\<close>

theorem preemption_lost:
  assumes "lib_inv s" "can_tick s" "tick s = Some s'" "\<forall>p. at s' \<noteq> Preempted p"
  shows "masked (resume s') \<and> \<not> can_tick (resume s')"
proof -
  have "masked s'" using assms(3) by (simp add: tick_def schedule_state(4))
  then show ?thesis using assms(4) by (cases "at s'") (auto simp: resume_def can_tick_def)
qed

lemma preemption_lost_witness:
  "\<exists>s'. tick (two_threads RUNNING After_create) = Some s' \<and> at (resume s') = In_user \<and>
    masked (resume s') \<and> \<not> can_tick (resume s')"
proof -
  let ?s = "two_threads RUNNING After_create"
  have inv: "lib_inv ?s" by (rule two_threads_inv) simp
  have t: "can_tick ?s" by (simp add: can_tick_def)
  obtain c s' where s': "schedule (Preempted (at ?s)) (?s\<lparr>masked := True\<rparr>) = Some s'" "current_thread s' = c"
    "pick (is_ready (?s\<lparr>masked := True\<rparr>)) (thread_count (?s\<lparr>masked := True\<rparr>)) (current_thread (?s\<lparr>masked := True\<rparr>)) = Some c"
    "tcb s' = (tcb (?s\<lparr>masked := True\<rparr>))[current_thread (?s\<lparr>masked := True\<rparr>) :=
       (tcb (?s\<lparr>masked := True\<rparr>) ! current_thread (?s\<lparr>masked := True\<rparr>))
         \<lparr>ctx := setjmp (guard (?s\<lparr>masked := True\<rparr>)) (cpu (?s\<lparr>masked := True\<rparr>)), resume_at := Preempted (at ?s)\<rparr>]"
    "at s' = resume_at (tcb s' ! c)"
    by (rule schedule_spec2[OF tick_pre[OF inv t]]) (rule that)
  have "c = 0" using s'(3) pick_eq[of 1 2 "is_ready (?s\<lparr>masked := True\<rparr>)"] by simp
  then have a: "at s' = After_create" using s'(4,5) by simp
  have tk: "tick ?s = Some s'" using s'(1) by (simp add: tick_def)
  have "\<forall>p. at s' \<noteq> Preempted p" using a by simp
  from preemption_lost[OF inv t tk this] have "masked (resume s') \<and> \<not> can_tick (resume s')" .
  moreover have "at (resume s') = In_user" using a by (simp add: resume_def)
  ultimately show ?thesis using tk by blast
qed

end
