(* ===== verification/Threads3.thy ===== *)
theory Threads3
  imports Context RoundRobin
begin

text \<open>
  The thread library of \<^verbatim>\<open>EC440_HW3/threads.c\<close>: threads with exit values and \<open>pthread_join\<close>,
  counting semaphores, and a lock that blocks the timer signal.  The conventions are those of
  \<open>Threads2\<close>: \<open>at\<close> is the point of control of the running thread, a saved context is a \<^verbatim>\<open>jmp_buf\<close>
  with the point its stack returns to, and signals arrive in user code and in the endless loop of
  \<open>pthread_exit\<close>.  The code itself also leaves the signal unblocked in \<open>pthread_create\<close> and between
  \<open>unlock\<close> and the switch in \<open>pthread_exit\<close> and \<open>pthread_join\<close>; a signal at those places is not modelled.
\<close>

section \<open>State\<close>

definition MAX_THREADS :: nat where "MAX_THREADS = 128"
definition MAX_SEMAPHORES :: nat where "MAX_SEMAPHORES = 128"
definition READY :: int where "READY = 0"
definition RUNNING :: int where "RUNNING = 1"
definition EXITED :: int where "EXITED = 2"
definition BLOCKED :: int where "BLOCKED = 3"

lemma state_codes3 [simp]: "READY \<noteq> RUNNING" "READY \<noteq> EXITED" "READY \<noteq> BLOCKED" "RUNNING \<noteq> READY"
  "RUNNING \<noteq> EXITED" "RUNNING \<noteq> BLOCKED" "EXITED \<noteq> READY" "EXITED \<noteq> RUNNING" "EXITED \<noteq> BLOCKED"
  "BLOCKED \<noteq> READY" "BLOCKED \<noteq> RUNNING" "BLOCKED \<noteq> EXITED"
  by (simp_all add: READY_def RUNNING_def EXITED_def BLOCKED_def)

text \<open>\<open>In_join t v\<close>: inside the loop of \<open>pthread_join\<close> on slot \<open>t\<close>; \<open>v\<close>: \<^verbatim>\<open>value_ptr\<close> is not null.\<close>

datatype point = In_user | Preempted point | After_create | After_exit | In_thunk
  | In_join nat bool | In_sem_wait

record thread_control_block =
  tid :: nat
  ctx :: jmp_buf
  resume_at :: point
  stk :: u64
  state :: int
  start_routine :: u64
  arg :: u64
  exit_value :: u64

record custom_semaphore =
  val :: int
  initialized :: int
  waiting_threads :: "nat list"
  wait_count :: nat

text \<open>\<open>out\<close> is what the last finished \<open>pthread_join\<close> stored through its \<^verbatim>\<open>value_ptr\<close>.\<close>

record lib =
  tcb :: "thread_control_block list"
  thread_count :: nat
  current_thread :: nat
  next_thread :: nat
  semaphore_array :: "custom_semaphore option list"
  next_semaphore_id :: nat
  cpu :: cpu
  at :: point
  masked :: bool
  alarm :: "nat option"
  guard :: u64
  thunk_addr :: u64
  wrapper_addr :: u64
  out :: "u64 option"

definition set_tcb :: "nat \<Rightarrow> thread_control_block \<Rightarrow> lib \<Rightarrow> lib" where
  "set_tcb i t s = s\<lparr>tcb := (tcb s)[i := t]\<rparr>"

definition set_sem :: "nat \<Rightarrow> custom_semaphore option \<Rightarrow> lib \<Rightarrow> lib" where
  "set_sem i c s = s\<lparr>semaphore_array := (semaphore_array s)[i := c]\<rparr>"

definition lock :: "lib \<Rightarrow> lib" where "lock s = s\<lparr>masked := True\<rparr>"
definition unlock :: "lib \<Rightarrow> lib" where "unlock s = s\<lparr>masked := False\<rparr>"

section \<open>Threads\<close>

definition is_ready :: "lib \<Rightarrow> nat \<Rightarrow> bool" where
  "is_ready s i \<longleftrightarrow> i < length (tcb s) \<and> state (tcb s ! i) = READY"

definition schedule :: "point \<Rightarrow> lib \<Rightarrow> lib option" where
  "schedule p s = do {
     t \<leftarrow> arr_get (tcb s) (current_thread s);
     let s1 = set_tcb (current_thread s) (t\<lparr>ctx := setjmp (guard s) (cpu s), resume_at := p\<rparr>) s;
     c \<leftarrow> pick (is_ready s1) (thread_count s1) (current_thread s1);
     t' \<leftarrow> arr_get (tcb s1) c;
     Some (s1\<lparr>next_thread := c, current_thread := c,
              cpu := longjmp (guard s1) (ctx t') 1 (cpu s1), at := resume_at t'\<rparr>)
   }"

text \<open>The loop of \<open>pthread_exit\<close> over the first \<open>n\<close> entries.\<close>

fun unblock_waiters :: "nat \<Rightarrow> nat \<Rightarrow> thread_control_block list \<Rightarrow> thread_control_block list" where
  "unblock_waiters 0 c ts = ts"
| "unblock_waiters (Suc n) c [] = []"
| "unblock_waiters (Suc n) c (t # ts) =
     (if state t = BLOCKED \<and> tid t = c then t\<lparr>state := READY\<rparr> else t) # unblock_waiters n c ts"

definition pthread_exit :: "u64 \<Rightarrow> lib \<Rightarrow> lib option" where
  "pthread_exit v s = do {
     let s = lock s;
     t \<leftarrow> arr_get (tcb s) (current_thread s);
     let s = set_tcb (current_thread s) (t\<lparr>exit_value := v, state := EXITED\<rparr>) s;
     let s = s\<lparr>tcb := unblock_waiters (thread_count s) (current_thread s) (tcb s)\<rparr>;
     schedule After_exit (unlock s)
   }"

definition pthread_exit_wrapper :: "lib \<Rightarrow> lib option" where
  "pthread_exit_wrapper s = pthread_exit (rax (cpu s)) s"

definition pthread_self :: "lib \<Rightarrow> nat option" where
  "pthread_self s = map_option tid (arr_get (tcb s) (current_thread s))"

datatype outcome = Returned int | Switched

definition pthread_create :: "u64 option \<Rightarrow> u64 \<Rightarrow> u64 \<Rightarrow> lib \<Rightarrow> (outcome \<times> nat option \<times> lib) option" where
  "pthread_create malloc start a s =
     (let n = thread_count s in
      if MAX_THREADS \<le> n then Some (Returned (-1), None, s)
      else do {
        t0 \<leftarrow> arr_get (tcb s) n;
        let t = t0\<lparr>tid := n\<rparr>;
        (case malloc of
           None \<Rightarrow> Some (Returned (-1), Some n, set_tcb n (t\<lparr>stk := 0\<rparr>) s)
         | Some base \<Rightarrow> do {
             let buf = fresh_context (guard s) (thunk_addr s) base start a (setjmp (guard s) (cpu s));
             let t = t\<lparr>stk := base, start_routine := start, arg := a, state := READY,
                       ctx := buf, resume_at := In_thunk\<rparr>;
             let c = (cpu s)\<lparr>mem := fresh_stack base (wrapper_addr s) (mem (cpu s))\<rparr>;
             s' \<leftarrow> schedule After_create ((set_tcb n t s)\<lparr>cpu := c, thread_count := n + 1\<rparr>);
             Some (Switched, Some n, s')
           })
      })"

fun target_from :: "nat \<Rightarrow> nat \<Rightarrow> thread_control_block list \<Rightarrow> int" where
  "target_from i th [] = -1"
| "target_from i th (t # ts) = (if tid t = th then int i else target_from (Suc i) th ts)"

text \<open>One pass of the waiting loop, entered with the lock held.\<close>

definition join_loop :: "nat \<Rightarrow> bool \<Rightarrow> lib \<Rightarrow> (outcome \<times> lib) option" where
  "join_loop target vp s = do {
     t \<leftarrow> arr_get (tcb s) target;
     if state t \<noteq> EXITED then do {
       c \<leftarrow> arr_get (tcb s) (current_thread s);
       s' \<leftarrow> schedule (In_join target vp) (unlock (set_tcb (current_thread s) (c\<lparr>state := BLOCKED\<rparr>) s));
       Some (Switched, s')
     } else Some (Returned 0, unlock (if vp then s\<lparr>out := Some (exit_value t)\<rparr> else s))
   }"

definition pthread_join :: "nat \<Rightarrow> bool \<Rightarrow> lib \<Rightarrow> (outcome \<times> lib) option" where
  "pthread_join thread vp s =
     (let s = lock s; target = target_from 0 thread (take (thread_count s) (tcb s)) in
      if target = -1 then Some (Returned (-1), unlock s)
      else join_loop (nat target) vp s)"

section \<open>Semaphores\<close>

text \<open>
  A \<^verbatim>\<open>sem_t\<close> holds an index as a machine word; \<open>find_sem\<close> is the check at the start of the
  semaphore calls, \<open>None\<close> when they return \<open>-1\<close>.
\<close>

definition sem_index :: "u64 \<Rightarrow> int" where
  "sem_index h = sint (ucast h :: u32)"

definition find_sem :: "u64 \<Rightarrow> lib \<Rightarrow> (nat \<times> custom_semaphore) option" where
  "find_sem h s =
     (let i = sem_index h in
      if i < 0 \<or> int MAX_SEMAPHORES \<le> i then None
      else case semaphore_array s ! nat i of
        None \<Rightarrow> None
      | Some c \<Rightarrow> if initialized c = 0 then None else Some (nat i, c))"

text \<open>
  \<open>heap\<close> is what \<^verbatim>\<open>malloc\<close> returned: \<open>None\<close>, or the old contents of the waiting array; the second
  component of the result is the new value of the caller's \<^verbatim>\<open>sem_t\<close>.
\<close>

definition sem_init :: "nat list option \<Rightarrow> u64 \<Rightarrow> u32 \<Rightarrow> lib \<Rightarrow> int \<times> u64 \<times> lib" where
  "sem_init heap h value s =
     (if MAX_SEMAPHORES \<le> next_semaphore_id s then (-1, h, s)
      else case heap of None \<Rightarrow> (-1, h, s)
      | Some w \<Rightarrow>
          let csem = \<lparr>val = sint value, initialized = 1, waiting_threads = w, wait_count = 0\<rparr>;
              i = next_semaphore_id s
          in (0, of_nat i, (set_sem i (Some csem) s)\<lparr>next_semaphore_id := i + 1\<rparr>))"

definition sem_wait :: "u64 \<Rightarrow> lib \<Rightarrow> (outcome \<times> lib) option" where
  "sem_wait h s =
     (case find_sem h s of None \<Rightarrow> Some (Returned (-1), s)
      | Some (i, c) \<Rightarrow>
          let s = lock s in
          if 0 < val c then Some (Returned 0, unlock (set_sem i (Some (c\<lparr>val := val c - 1\<rparr>)) s))
          else do {
            w \<leftarrow> arr_set (waiting_threads c) (wait_count c) (current_thread s);
            let s = set_sem i (Some (c\<lparr>waiting_threads := w, wait_count := wait_count c + 1\<rparr>)) s;
            t \<leftarrow> arr_get (tcb s) (current_thread s);
            s' \<leftarrow> schedule In_sem_wait (set_tcb (current_thread s) (t\<lparr>state := BLOCKED\<rparr>) s);
            Some (Switched, s')
          })"

text \<open>Incrementing \<^verbatim>\<open>INT_MAX\<close> is undefined.\<close>

definition sem_post :: "u64 \<Rightarrow> lib \<Rightarrow> (int \<times> lib) option" where
  "sem_post h s =
     (case find_sem h s of None \<Rightarrow> Some (-1, s)
      | Some (i, c) \<Rightarrow>
          let s = lock s in
          if 0 < wait_count c then do {
            let k = wait_count c - 1;
            n \<leftarrow> arr_get (waiting_threads c) k;
            let s = set_sem i (Some (c\<lparr>wait_count := k\<rparr>)) s;
            t \<leftarrow> arr_get (tcb s) n;
            Some (0, unlock (set_tcb n (t\<lparr>state := READY\<rparr>) s))
          }
          else if val c = 2 ^ 31 - 1 then None
          else Some (0, unlock (set_sem i (Some (c\<lparr>val := val c + 1\<rparr>)) s)))"

definition sem_destroy :: "u64 \<Rightarrow> lib \<Rightarrow> int \<times> u64 \<times> lib" where
  "sem_destroy h s =
     (case find_sem h s of None \<Rightarrow> (-1, h, s)
      | Some (i, c) \<Rightarrow> (0, -1, set_sem i None s))"

section \<open>Start and signals\<close>

definition initialize_scheduler :: "lib \<Rightarrow> lib" where
  "initialize_scheduler s = s\<lparr>alarm := Some 50000\<rparr>"

definition init :: "lib \<Rightarrow> lib option" where
  "init s = do {
     t \<leftarrow> arr_get (tcb s) 0;
     Some (initialize_scheduler (set_tcb 0 (t\<lparr>tid := 0, state := RUNNING\<rparr>) s))
   }"

definition zero_tcb :: thread_control_block where
  "zero_tcb = \<lparr>tid = 0, ctx = replicate 8 0, resume_at = In_user, stk = 0, state = 0,
     start_routine = 0, arg = 0, exit_value = 0\<rparr>"

definition loaded :: "cpu \<Rightarrow> u64 \<Rightarrow> u64 \<Rightarrow> u64 \<Rightarrow> lib" where
  "loaded c g th wr = \<lparr>tcb = replicate MAX_THREADS zero_tcb, thread_count = 1, current_thread = 0,
     next_thread = 0, semaphore_array = replicate MAX_SEMAPHORES None, next_semaphore_id = 0, cpu = c,
     at = In_user, masked = False, alarm = None, guard = g, thunk_addr = th, wrapper_addr = wr, out = None\<rparr>"

text \<open>
  When the signal is delivered, and what it does.  The handler is the whole of \<open>schedule\<close>, entered with
  the signal blocked.
\<close>

definition can_tick :: "lib \<Rightarrow> bool" where
  "can_tick s \<longleftrightarrow> alarm s \<noteq> None \<and> \<not> masked s \<and> (at s = In_user \<or> at s = After_exit)"

definition tick :: "lib \<Rightarrow> lib option" where
  "tick s = schedule (Preempted (at s)) (s\<lparr>masked := True\<rparr>)"

definition return_to_user :: "lib \<Rightarrow> lib" where
  "return_to_user s = s\<lparr>at := In_user, cpu := (cpu s)\<lparr>rax := 0\<rparr>\<rparr>"

text \<open>
  What runs between the switch to a context and user code; a thread inside \<open>pthread_join\<close> takes
  the lock and looks at its target again.
\<close>

definition resume :: "lib \<Rightarrow> lib option" where
  "resume s = (case at s of
     Preempted p \<Rightarrow> Some (s\<lparr>at := p, masked := False\<rparr>)
   | After_create \<Rightarrow> Some (return_to_user s)
   | In_thunk \<Rightarrow> Some (s\<lparr>at := In_user, cpu := start_thunk (cpu s)\<rparr>)
   | In_user \<Rightarrow> Some s
   | After_exit \<Rightarrow> Some s
   | In_sem_wait \<Rightarrow> Some (return_to_user (unlock s))
   | In_join target vp \<Rightarrow>
       (case join_loop target vp (lock s) of None \<Rightarrow> None
        | Some (Returned r, s') \<Rightarrow> Some (return_to_user s')
        | Some (Switched, s') \<Rightarrow> Some s'))"

section \<open>Steps\<close>

inductive step :: "lib \<Rightarrow> lib \<Rightarrow> bool" where
  step_user: "at s = In_user \<Longrightarrow> step s (s\<lparr>cpu := c\<rparr>)"
| step_alarm: "can_tick s \<Longrightarrow> tick s = Some s' \<Longrightarrow> step s s'"
| step_create: "at s = In_user \<Longrightarrow> pthread_create m f a s = Some (r, n, s') \<Longrightarrow> step s s'"
| step_exit: "at s = In_user \<Longrightarrow> pthread_exit v s = Some s' \<Longrightarrow> step s s'"
| step_join: "at s = In_user \<Longrightarrow> pthread_join th vp s = Some (r, s') \<Longrightarrow> step s s'"
| step_sem_init: "at s = In_user \<Longrightarrow> (\<forall>w. heap = Some w \<longrightarrow> length w = MAX_THREADS) \<Longrightarrow>
    sem_init heap h v s = (r, h', s') \<Longrightarrow> step s s'"
| step_sem_wait: "at s = In_user \<Longrightarrow> sem_wait h s = Some (r, s') \<Longrightarrow> step s s'"
| step_sem_post: "at s = In_user \<Longrightarrow> sem_post h s = Some (r', s') \<Longrightarrow> step s s'"
| step_sem_destroy: "at s = In_user \<Longrightarrow> sem_destroy h s = (r, h', s') \<Longrightarrow> step s s'"
| step_resume: "resume s = Some s' \<Longrightarrow> step s s'"

inductive reachable :: "lib \<Rightarrow> bool" where
  reach_init: "init (loaded c g th wr) = Some s \<Longrightarrow> reachable s"
| reach_step: "reachable s \<Longrightarrow> step s s' \<Longrightarrow> reachable s'"

section \<open>The invariant\<close>

fun point_ok :: "nat \<Rightarrow> point \<Rightarrow> bool" where
  "point_ok n (In_join t vp) = (t < n)"
| "point_ok n (Preempted p) = point_ok n p"
| "point_ok n _ = True"

text \<open>A point from which user code is never reached: the loop behind \<open>pthread_exit\<close>.\<close>

fun dead :: "point \<Rightarrow> bool" where
  "dead After_exit = True"
| "dead (Preempted p) = dead p"
| "dead _ = False"

definition sem_ok :: "nat \<Rightarrow> custom_semaphore \<Rightarrow> bool" where
  "sem_ok n c \<longleftrightarrow> initialized c = 1 \<and> - (2 ^ 31) \<le> val c \<and> val c < 2 ^ 31 \<and>
     length (waiting_threads c) = MAX_THREADS \<and> wait_count c \<le> MAX_THREADS \<and>
     (\<forall>k < wait_count c. waiting_threads c ! k < n) \<and> (0 < wait_count c \<longrightarrow> val c \<le> 0)"

definition threads_ok :: "lib \<Rightarrow> bool" where
  "threads_ok s \<longleftrightarrow> length (tcb s) = MAX_THREADS \<and> 0 < thread_count s \<and> thread_count s \<le> MAX_THREADS \<and>
     current_thread s < thread_count s \<and>
     (\<forall>i < thread_count s. tid (tcb s ! i) = i \<and> point_ok (thread_count s) (resume_at (tcb s ! i)))"

definition sems_ok :: "lib \<Rightarrow> bool" where
  "sems_ok s \<longleftrightarrow> length (semaphore_array s) = MAX_SEMAPHORES \<and> next_semaphore_id s \<le> MAX_SEMAPHORES \<and>
     (\<forall>i c. i < MAX_SEMAPHORES \<and> semaphore_array s ! i = Some c \<longrightarrow>
        i < next_semaphore_id s \<and> sem_ok (thread_count s) c)"

definition lib_inv :: "lib \<Rightarrow> bool" where
  "lib_inv s \<longleftrightarrow> threads_ok s \<and> sems_ok s \<and> point_ok (thread_count s) (at s) \<and>
     (current_thread s \<noteq> 0 \<longrightarrow> state (tcb s ! current_thread s) = READY)"

lemma point_ok_mono: "point_ok n p \<Longrightarrow> n \<le> m \<Longrightarrow> point_ok m p"
  by (induction n p rule: point_ok.induct) auto

lemma sem_ok_mono: "sem_ok n c \<Longrightarrow> n \<le> m \<Longrightarrow> sem_ok m c"
  by (auto simp: sem_ok_def)

lemma threads_okD:
  assumes "threads_ok s"
  shows "length (tcb s) = MAX_THREADS" "0 < thread_count s" "thread_count s \<le> MAX_THREADS"
    "current_thread s < thread_count s" "current_thread s < length (tcb s)"
    "i < thread_count s \<Longrightarrow> tid (tcb s ! i) = i"
    "i < thread_count s \<Longrightarrow> point_ok (thread_count s) (resume_at (tcb s ! i))"
  using assms by (auto simp: threads_ok_def)

text \<open>Replacing an entry by one with the same id and a good point keeps the table well formed.\<close>

lemma threads_ok_set:
  "threads_ok s \<Longrightarrow> tid t = i \<Longrightarrow> point_ok (thread_count s) (resume_at t) \<Longrightarrow> threads_ok (set_tcb i t s)"
  by (cases "i < length (tcb s)") (auto simp: threads_ok_def set_tcb_def nth_list_update)

lemma sems_ok_cong:
  "sems_ok s \<Longrightarrow> semaphore_array s' = semaphore_array s \<Longrightarrow> next_semaphore_id s' = next_semaphore_id s \<Longrightarrow>
   thread_count s' = thread_count s \<Longrightarrow> sems_ok s'"
  by (simp add: sems_ok_def)

lemma sems_ok_set:
  "sems_ok s \<Longrightarrow> i < next_semaphore_id s \<Longrightarrow> sem_ok (thread_count s) c \<Longrightarrow> sems_ok (set_sem i (Some c) s)"
  by (auto simp: sems_ok_def set_sem_def nth_list_update)

text \<open>Selectors after the small state changes.\<close>

lemma set_simps [simp]:
  "tcb (set_tcb i t s) = (tcb s)[i := t]" "thread_count (set_tcb i t s) = thread_count s"
  "current_thread (set_tcb i t s) = current_thread s" "semaphore_array (set_tcb i t s) = semaphore_array s"
  "next_semaphore_id (set_tcb i t s) = next_semaphore_id s" "at (set_tcb i t s) = at s"
  "cpu (set_tcb i t s) = cpu s" "guard (set_tcb i t s) = guard s" "masked (set_tcb i t s) = masked s"
  "out (set_tcb i t s) = out s" "alarm (set_tcb i t s) = alarm s"
  "tcb (set_sem i c s) = tcb s" "thread_count (set_sem i c s) = thread_count s"
  "current_thread (set_sem i c s) = current_thread s"
  "semaphore_array (set_sem i c s) = (semaphore_array s)[i := c]"
  "next_semaphore_id (set_sem i c s) = next_semaphore_id s" "at (set_sem i c s) = at s"
  "cpu (set_sem i c s) = cpu s" "guard (set_sem i c s) = guard s"
  by (simp_all add: set_tcb_def set_sem_def)

lemma lock_simps [simp]:
  "tcb (lock s) = tcb s" "thread_count (lock s) = thread_count s" "current_thread (lock s) = current_thread s"
  "semaphore_array (lock s) = semaphore_array s" "next_semaphore_id (lock s) = next_semaphore_id s"
  "at (lock s) = at s" "cpu (lock s) = cpu s" "guard (lock s) = guard s" "out (lock s) = out s" "masked (lock s)"
  "tcb (unlock s) = tcb s" "thread_count (unlock s) = thread_count s"
  "current_thread (unlock s) = current_thread s" "semaphore_array (unlock s) = semaphore_array s"
  "next_semaphore_id (unlock s) = next_semaphore_id s" "at (unlock s) = at s" "cpu (unlock s) = cpu s"
  "guard (unlock s) = guard s" "out (unlock s) = out s" "\<not> masked (unlock s)" "alarm (lock s) = alarm s"
  "alarm (unlock s) = alarm s"
  by (simp_all add: lock_def unlock_def)

lemma ok_lock [simp]:
  "threads_ok (lock s) = threads_ok s" "threads_ok (unlock s) = threads_ok s"
  "sems_ok (lock s) = sems_ok s" "sems_ok (unlock s) = sems_ok s"
  "threads_ok (set_sem i c s) = threads_ok s" "sems_ok (set_tcb i t s) = sems_ok s"
  by (simp_all add: threads_ok_def sems_ok_def)

section \<open>Switching\<close>

lemma schedule_spec3:
  assumes "threads_ok s" "sems_ok s" "point_ok (thread_count s) p"
  obtains c s' where "schedule p s = Some s'" "lib_inv s'"
    "pick (is_ready s) (thread_count s) (current_thread s) = Some c" "current_thread s' = c"
    "c < thread_count s" "c = 0 \<or> is_ready s c" "thread_count s' = thread_count s" "masked s' = masked s"
    "tcb s' = (tcb s)[current_thread s :=
       (tcb s ! current_thread s)\<lparr>ctx := setjmp (guard s) (cpu s), resume_at := p\<rparr>]"
    "cpu s' = longjmp (guard s) (ctx (tcb s' ! c)) 1 (cpu s)" "at s' = resume_at (tcb s' ! c)"
    "is_ready s' = is_ready s" "semaphore_array s' = semaphore_array s" "alarm s' = alarm s" "out s' = out s"
proof -
  let ?cur = "current_thread s"
  let ?t = "(tcb s ! ?cur)\<lparr>ctx := setjmp (guard s) (cpu s), resume_at := p\<rparr>"
  let ?tcb = "(tcb s)[?cur := ?t]"
  note a = threads_okD[OF assms(1)]
  have rd: "is_ready (set_tcb ?cur ?t s) = is_ready s"
    using a(5) by (auto simp: is_ready_def nth_list_update fun_eq_iff)
  obtain c where c: "pick (is_ready s) (thread_count s) ?cur = Some c" "c < thread_count s" "c = 0 \<or> is_ready s c"
    by (rule pick_cases[OF a(4), of "is_ready s"]) (use a(2) that in auto)
  let ?s = "(set_tcb ?cur ?t s)\<lparr>next_thread := c, current_thread := c,
      cpu := longjmp (guard s) (ctx (?tcb ! c)) 1 (cpu s), at := resume_at (?tcb ! c)\<rparr>"
  have run: "schedule p s = Some ?s"
    using a(1,3,5) c(1,2) by (simp add: schedule_def Let_def rd)
  have ok: "threads_ok (set_tcb ?cur ?t s)"
    by (rule threads_ok_set[OF assms(1)]) (use a(4,6) assms(3) in simp_all)
  then have "threads_ok ?s" using c(2) by (simp add: threads_ok_def)
  moreover have "sems_ok ?s" by (rule sems_ok_cong[OF assms(2)]) simp_all
  moreover have "point_ok (thread_count s) (resume_at (?tcb ! c))" using threads_okD(7)[OF ok] c(2) by simp
  moreover have "c \<noteq> 0 \<Longrightarrow> state (?tcb ! c) = READY"
    using c(3) a(5) by (auto simp: is_ready_def nth_list_update)
  ultimately have "lib_inv ?s" by (simp add: lib_inv_def)
  moreover have "is_ready ?s = is_ready s" using rd by (auto simp: is_ready_def fun_eq_iff)
  ultimately show thesis using that[OF run _ c(1)] c(2,3) by simp
qed

lemma lib_invD:
  assumes "lib_inv s"
  shows "threads_ok s" "sems_ok s" "point_ok (thread_count s) (at s)"
    "current_thread s \<noteq> 0 \<Longrightarrow> state (tcb s ! current_thread s) = READY"
  using assms by (simp_all add: lib_inv_def)

lemma init_inv3: "init (loaded c g th wr) = Some s \<Longrightarrow> lib_inv s"
  by (auto simp: init_def loaded_def initialize_scheduler_def lib_inv_def threads_ok_def sems_ok_def
      MAX_THREADS_def zero_tcb_def set_tcb_def)

lemma tick_inv3: "lib_inv s \<Longrightarrow> \<exists>s'. tick s = Some s' \<and> lib_inv s'"
proof -
  assume i: "lib_inv s"
  have t: "threads_ok (s\<lparr>masked := True\<rparr>)" "sems_ok (s\<lparr>masked := True\<rparr>)"
    "point_ok (thread_count (s\<lparr>masked := True\<rparr>)) (Preempted (at s))"
    using lib_invD[OF i] by (simp_all add: threads_ok_def sems_ok_def)
  obtain s' where "schedule (Preempted (at s)) (s\<lparr>masked := True\<rparr>) = Some s'" "lib_inv s'"
    by (rule schedule_spec3[OF t]) (rule that)
  then show ?thesis by (simp add: tick_def)
qed

subsection \<open>Exit\<close>

lemma unblock_waiters_id:
  "(\<And>i. i < n \<Longrightarrow> i < length ts \<Longrightarrow> state (ts ! i) = BLOCKED \<Longrightarrow> tid (ts ! i) \<noteq> c) \<Longrightarrow>
   unblock_waiters n c ts = ts"
proof (induction n c ts rule: unblock_waiters.induct)
  case (3 n c t ts)
  have "state t = BLOCKED \<Longrightarrow> tid t \<noteq> c" using "3.prems"[of 0] by simp
  moreover have "unblock_waiters n c ts = ts"
    using "3.prems"[of "Suc i" for i] by (intro "3.IH") simp
  ultimately show ?case by auto
qed simp_all

text \<open>The state in which \<open>pthread_exit\<close> calls \<open>schedule\<close>: the unblocking loop has changed nothing.\<close>

lemma exit_run:
  assumes "threads_ok s"
  shows "pthread_exit v s = schedule After_exit (unlock (set_tcb (current_thread s)
    ((tcb s ! current_thread s)\<lparr>exit_value := v, state := EXITED\<rparr>) (lock s)))"
proof -
  let ?cur = "current_thread s"
  let ?tcb = "(tcb s)[?cur := (tcb s ! ?cur)\<lparr>exit_value := v, state := EXITED\<rparr>]"
  note a = threads_okD[OF assms]
  have "unblock_waiters (thread_count s) ?cur ?tcb = ?tcb"
    by (rule unblock_waiters_id) (use a(5,6) in \<open>auto simp: nth_list_update split: if_splits\<close>)
  then show ?thesis
    using a(5) by (simp add: pthread_exit_def Let_def) (simp add: set_tcb_def unlock_def lock_def)
qed

lemma exit_pre:
  fixes v :: u64
  assumes "threads_ok s" "sems_ok s"
  defines "s1 \<equiv> unlock (set_tcb (current_thread s)
    ((tcb s ! current_thread s)\<lparr>exit_value := v, state := EXITED\<rparr>) (lock s))"
  shows "threads_ok s1" "sems_ok s1"
proof -
  note a = threads_okD[OF assms(1)]
  show "threads_ok s1" unfolding s1_def ok_lock
    by (rule threads_ok_set) (use assms(1) a(4,6,7) in simp_all)
  show "sems_ok s1" unfolding s1_def using assms(2) by simp
qed

lemma exit_inv3: "threads_ok s \<Longrightarrow> sems_ok s \<Longrightarrow> \<exists>s'. pthread_exit v s = Some s' \<and> lib_inv s'"
  unfolding exit_run by (rule schedule_spec3[OF exit_pre(1,2), of s v After_exit]) auto

subsection \<open>Create\<close>

definition created :: "u64 \<Rightarrow> u64 \<Rightarrow> u64 \<Rightarrow> lib \<Rightarrow> lib" where
  "created base start a s = (let n = thread_count s in
     (set_tcb n ((tcb s ! n)\<lparr>tid := n, stk := base, start_routine := start, arg := a, state := READY,
        ctx := fresh_context (guard s) (thunk_addr s) base start a (setjmp (guard s) (cpu s)),
        resume_at := In_thunk\<rparr>) s)
     \<lparr>cpu := (cpu s)\<lparr>mem := fresh_stack base (wrapper_addr s) (mem (cpu s))\<rparr>, thread_count := n + 1\<rparr>)"

lemma create_run3:
  assumes "threads_ok s" "thread_count s < MAX_THREADS"
  shows "pthread_create (Some base) start a s =
    map_option (\<lambda>s'. (Switched, Some (thread_count s), s')) (schedule After_create (created base start a s))"
  using assms
  by (simp add: pthread_create_def created_def threads_ok_def Let_def map_option_case bind_eq_Some_conv
      split: option.splits)

lemma create_pre3:
  assumes "threads_ok s" "sems_ok s" "thread_count s < MAX_THREADS"
  shows "threads_ok (created base start a s)" "sems_ok (created base start a s)"
proof -
  have m: "point_ok (Suc (thread_count s)) p" if "point_ok (thread_count s) p" for p
    using point_ok_mono[OF that] by simp
  show "threads_ok (created base start a s)"
    using assms(1,3) m by (auto simp: threads_ok_def created_def Let_def nth_list_update less_Suc_eq)
  have "sem_ok (Suc (thread_count s)) c" if "sem_ok (thread_count s) c" for c
    using sem_ok_mono[OF that] by simp
  then show "sems_ok (created base start a s)"
    using assms(2) by (auto simp: sems_ok_def created_def Let_def)
qed

lemma create_inv3:
  assumes "lib_inv s"
  shows "\<exists>r n s'. pthread_create m start a s = Some (r, n, s') \<and> lib_inv s'"
proof (cases "MAX_THREADS \<le> thread_count s")
  case True
  then show ?thesis using assms(1) by (simp add: pthread_create_def)
next
  case False
  then have n: "thread_count s < MAX_THREADS" by simp
  note I = lib_invD[OF assms]
  show ?thesis
  proof (cases m)
    case None
    let ?s = "set_tcb (thread_count s) ((tcb s ! thread_count s)\<lparr>tid := thread_count s, stk := 0\<rparr>) s"
    have "threads_ok ?s" using I(1) by (auto simp: threads_ok_def)
    then have "lib_inv ?s" using I threads_okD(4)[OF I(1)] by (simp add: lib_inv_def)
    moreover have "thread_count s < length (tcb s)" using n threads_okD(1)[OF I(1)] by simp
    then have "pthread_create m start a s = Some (Returned (-1), Some (thread_count s), ?s)"
      using None False by (simp add: pthread_create_def Let_def)
    ultimately show ?thesis by blast
  next
    case (Some base)
    obtain s' where "schedule After_create (created base start a s) = Some s'" "lib_inv s'"
      by (rule schedule_spec3[OF create_pre3[OF I(1,2) n], of _ _ _ After_create]) (simp, rule that)
    then show ?thesis using Some create_run3[OF I(1) n] by simp
  qed
qed

subsection \<open>Join\<close>

lemma target_from_eq: "target_from k th ts = first_index k (\<lambda>t. tid t = th) ts"
  by (induction ts arbitrary: k) auto

lemma find_target:
  assumes "threads_ok s"
  shows "target_from 0 th (take (thread_count s) (tcb s)) = (if th < thread_count s then int th else -1)"
proof -
  note a = threads_okD[OF assms]
  let ?ts = "take (thread_count s) (tcb s)"
  have n: "?ts ! i = tcb s ! i" "tid (?ts ! i) = i" if "i < thread_count s" for i
    using that a(6) by simp_all
  have l: "length ?ts = thread_count s" using a(1,3) by simp
  show ?thesis
  proof (cases "th < thread_count s")
    case True
    have "first_index 0 (\<lambda>t. tid t = th) ?ts = int th"
      by (rule first_index_unique) (use True n l in auto)
    then show ?thesis using True by (simp add: target_from_eq)
  next
    case False
    then have "first_index 0 (\<lambda>t. tid t = th) ?ts < 0" unfolding first_index_none using n l by auto
    then have "first_index 0 (\<lambda>t. tid t = th) ?ts = -1"
      by (rule_tac first_index_cases[of 0 "\<lambda>t. tid t = th" ?ts]) auto
    then show ?thesis using False by (simp add: target_from_eq)
  qed
qed

text \<open>The state in which a waiting \<open>pthread_join\<close> calls \<open>schedule\<close>.\<close>

definition blocked :: "lib \<Rightarrow> lib" where
  "blocked s = set_tcb (current_thread s) ((tcb s ! current_thread s)\<lparr>state := BLOCKED\<rparr>) s"

lemma blocked_ok: "threads_ok s \<Longrightarrow> threads_ok (blocked s)" "sems_ok s \<Longrightarrow> sems_ok (blocked s)"
proof -
  assume t: "threads_ok s"
  show "threads_ok (blocked s)" unfolding blocked_def
    by (rule threads_ok_set[OF t]) (use threads_okD(4,6,7)[OF t] in simp_all)
qed (simp add: blocked_def)

lemma blocked_simps [simp]:
  "tcb (blocked s) = (tcb s)[current_thread s := (tcb s ! current_thread s)\<lparr>state := BLOCKED\<rparr>]"
  "thread_count (blocked s) = thread_count s" "current_thread (blocked s) = current_thread s"
  "semaphore_array (blocked s) = semaphore_array s" "masked (blocked s) = masked s" "cpu (blocked s) = cpu s"
  "guard (blocked s) = guard s"
  by (simp_all add: blocked_def)

lemma join_loop_cases:
  assumes "threads_ok s" "sems_ok s" "target < thread_count s"
  obtains (wait) s' where "join_loop target vp s = Some (Switched, s')" "state (tcb s ! target) \<noteq> EXITED"
      "schedule (In_join target vp) (unlock (blocked s)) = Some s'" "lib_inv s'"
  | (finished) "state (tcb s ! target) = EXITED"
      "join_loop target vp s = Some (Returned 0,
        unlock (if vp then s\<lparr>out := Some (exit_value (tcb s ! target))\<rparr> else s))"
proof (cases "state (tcb s ! target) = EXITED")
  case True
  then show thesis using finished threads_okD(1,3)[OF assms(1)] assms(3) by (simp add: join_loop_def)
next
  case False
  have b: "threads_ok (unlock (blocked s))" "sems_ok (unlock (blocked s))"
    "point_ok (thread_count (unlock (blocked s))) (In_join target vp)"
    using blocked_ok assms by simp_all
  obtain s' where "schedule (In_join target vp) (unlock (blocked s)) = Some s'" "lib_inv s'"
    by (rule schedule_spec3[OF b]) (rule that)
  then show thesis using wait[of s'] False threads_okD(1,3,5)[OF assms(1)] assms(3)
    by (simp add: join_loop_def blocked_def)
qed

lemma join_inv:
  assumes "lib_inv s" "at s = In_user"
  shows "\<exists>r s'. pthread_join th vp s = Some (r, s') \<and> lib_inv s'"
proof -
  note I = lib_invD[OF assms(1)]
  show ?thesis
  proof (cases "th < thread_count s")
    case False
    have "lib_inv (unlock (lock s))" using I by (simp add: lib_inv_def)
    then show ?thesis using False find_target[OF I(1), of th] by (simp add: pthread_join_def Let_def)
  next
    case True
    have l: "threads_ok (lock s)" "sems_ok (lock s)" "th < thread_count (lock s)" using I True by simp_all
    have e: "pthread_join th vp s = join_loop th vp (lock s)"
      using True find_target[OF I(1), of th] by (simp add: pthread_join_def Let_def)
    show ?thesis
    proof (rule join_loop_cases[OF l, of vp])
      let ?s = "unlock (if vp then (lock s)\<lparr>out := Some (exit_value (tcb (lock s) ! th))\<rparr> else lock s)"
      assume "join_loop th vp (lock s) = Some (Returned 0, ?s)"
      moreover have "lib_inv ?s" using I by (auto simp: lib_inv_def threads_ok_def sems_ok_def)
      ultimately show ?thesis using e by auto
    qed (use e in auto)
  qed
qed

subsection \<open>Semaphores\<close>

lemma find_semD:
  assumes "sems_ok s" "find_sem h s = Some (i, c)"
  shows "i < MAX_SEMAPHORES" "semaphore_array s ! i = Some c" "i < next_semaphore_id s"
    "sem_ok (thread_count s) c" "int i = sem_index h"
proof -
  show 1: "i < MAX_SEMAPHORES" "semaphore_array s ! i = Some c" "int i = sem_index h"
    using assms(2) by (auto simp: find_sem_def Let_def split: if_splits option.splits)
  then show "i < next_semaphore_id s" "sem_ok (thread_count s) c" using assms(1) by (auto simp: sems_ok_def)
qed

lemma sem_init_inv:
  assumes "lib_inv s" "\<forall>w. heap = Some w \<longrightarrow> length w = MAX_THREADS" "sem_init heap h v s = (r, h', s')"
  shows "lib_inv s'"
proof -
  note I = lib_invD[OF assms(1)]
  show ?thesis
  proof (cases "next_semaphore_id s < MAX_SEMAPHORES \<and> heap \<noteq> None")
    case True
    then obtain w where w: "heap = Some w" "length w = MAX_THREADS" using assms(2) by auto
    let ?c = "\<lparr>val = sint v, initialized = 1, waiting_threads = w, wait_count = 0\<rparr>"
    let ?s = "(set_sem (next_semaphore_id s) (Some ?c) s)\<lparr>next_semaphore_id := next_semaphore_id s + 1\<rparr>"
    have s': "s' = ?s" using True w assms(3) by (simp add: sem_init_def Let_def)
    have "- (2 ^ 31) \<le> sint v" "sint v < 2 ^ 31" using sint_ge[of v] sint_lt[of v] by simp_all
    then have "sem_ok (thread_count s) ?c" using w by (simp add: sem_ok_def)
    then have "sems_ok ?s" using I(2) True by (auto simp: sems_ok_def nth_list_update less_Suc_eq)
    moreover have "threads_ok ?s" using I(1) by (simp add: threads_ok_def)
    ultimately show ?thesis using I(3,4) by (simp add: s' lib_inv_def)
  next
    case False
    then have "s' = s" using assms(3) by (auto simp: sem_init_def split: if_splits option.splits)
    then show ?thesis using assms(1) by simp
  qed
qed

text \<open>The state in which a waiting \<open>sem_wait\<close> calls \<open>schedule\<close>.\<close>

definition queued :: "nat \<Rightarrow> custom_semaphore \<Rightarrow> lib \<Rightarrow> lib" where
  "queued i c s = blocked (set_sem i (Some (c\<lparr>waiting_threads := (waiting_threads c)[wait_count c := current_thread s],
     wait_count := wait_count c + 1\<rparr>)) (lock s))"

lemma queued_ok:
  assumes "threads_ok s" "sems_ok s" "find_sem h s = Some (i, c)" "val c \<le> 0" "wait_count c < MAX_THREADS"
  shows "threads_ok (queued i c s)" "sems_ok (queued i c s)"
proof -
  note f = find_semD[OF assms(2,3)]
  show "threads_ok (queued i c s)" unfolding queued_def by (rule blocked_ok) (simp add: assms(1))
  have "sem_ok (thread_count s) (c\<lparr>waiting_threads := (waiting_threads c)[wait_count c := current_thread s],
      wait_count := wait_count c + 1\<rparr>)"
    using f(4) assms(4,5) threads_okD(4)[OF assms(1)] by (auto simp: sem_ok_def nth_list_update less_Suc_eq)
  then show "sems_ok (queued i c s)"
    unfolding queued_def by (intro blocked_ok(2) sems_ok_set) (use f(3) assms(2) in simp_all)
qed

lemma sem_wait_run:
  assumes "threads_ok s" "sems_ok s"
  shows "sem_wait h s = (case find_sem h s of None \<Rightarrow> Some (Returned (-1), s)
    | Some (i, c) \<Rightarrow>
        if 0 < val c then Some (Returned 0, unlock (set_sem i (Some (c\<lparr>val := val c - 1\<rparr>)) (lock s)))
        else if wait_count c < MAX_THREADS
        then map_option (\<lambda>s'. (Switched, s')) (schedule In_sem_wait (queued i c s)) else None)"
proof (cases "find_sem h s")
  case None
  then show ?thesis by (simp add: sem_wait_def)
next
  case (Some x)
  obtain i c where x: "x = (i, c)" by (cases x)
  with Some have f: "find_sem h s = Some (i, c)" by simp
  have lw: "length (waiting_threads c) = MAX_THREADS" using find_semD(4)[OF assms(2) f] by (simp add: sem_ok_def)
  then show ?thesis
    using f threads_okD(5)[OF assms(1)]
    by (simp add: sem_wait_def queued_def blocked_def arr_set_def map_option_case bind_eq_Some_conv
        split: option.splits)
qed

lemma sem_wait_inv:
  assumes "lib_inv s" "sem_wait h s = Some (r, s')"
  shows "lib_inv s'"
proof (cases "find_sem h s")
  case None
  then show ?thesis using assms by (simp add: sem_wait_def)
next
  note I = lib_invD[OF assms(1)]
  case (Some x)
  obtain i c where "x = (i, c)" by (cases x)
  with Some have f: "find_sem h s = Some (i, c)" by simp
  note fd = find_semD[OF I(2) f]
  show ?thesis
  proof (cases "0 < val c")
    case True
    have "sem_ok (thread_count s) (c\<lparr>val := val c - 1\<rparr>)" using fd(4) True by (auto simp: sem_ok_def)
    then have "sems_ok (set_sem i (Some (c\<lparr>val := val c - 1\<rparr>)) (lock s))"
      by (intro sems_ok_set) (use I(2) fd(3) in simp_all)
    then have "lib_inv (unlock (set_sem i (Some (c\<lparr>val := val c - 1\<rparr>)) (lock s)))"
      using I by (simp add: lib_inv_def)
    then show ?thesis using assms(2) f True by (simp add: sem_wait_def)
  next
    case False
    then have w: "wait_count c < MAX_THREADS" "schedule In_sem_wait (queued i c s) = Some s'"
      using assms(2) f sem_wait_run[OF I(1,2), of h] by (auto split: if_splits)
    have v: "val c \<le> 0" using False by simp
    show ?thesis
      by (rule schedule_spec3[OF queued_ok[OF I(1,2) f v w(1)], of In_sem_wait]) (use w(2) in auto)
  qed
qed

text \<open>A successful \<open>sem_post\<close>, with and without a waiter.\<close>

lemma sem_post_run:
  assumes "threads_ok s" "sems_ok s" "find_sem h s = Some (i, c)"
  shows "0 < wait_count c \<Longrightarrow> waiting_threads c ! (wait_count c - 1) < thread_count s \<and> sem_post h s =
      (let n = waiting_threads c ! (wait_count c - 1) in Some (0, unlock (set_tcb n ((tcb s ! n)\<lparr>state := READY\<rparr>)
        (set_sem i (Some (c\<lparr>wait_count := wait_count c - 1\<rparr>)) (lock s)))))"
    and "wait_count c = 0 \<Longrightarrow> sem_post h s = (if val c = 2 ^ 31 - 1 then None
      else Some (0, unlock (set_sem i (Some (c\<lparr>val := val c + 1\<rparr>)) (lock s))))"
proof -
  have ok: "sem_ok (thread_count s) c" by (rule find_semD(4)[OF assms(2,3)])
  show "waiting_threads c ! (wait_count c - 1) < thread_count s \<and> sem_post h s =
      (let n = waiting_threads c ! (wait_count c - 1) in Some (0, unlock (set_tcb n ((tcb s ! n)\<lparr>state := READY\<rparr>)
        (set_sem i (Some (c\<lparr>wait_count := wait_count c - 1\<rparr>)) (lock s)))))" if "0 < wait_count c"
  proof -
    have k: "wait_count c - 1 < length (waiting_threads c)"
      and n: "waiting_threads c ! (wait_count c - 1) < thread_count s"
      using ok that by (auto simp: sem_ok_def)
    then have "waiting_threads c ! (wait_count c - 1) < length (tcb s)"
      using threads_okD(1,3)[OF assms(1)] by simp
    then show ?thesis using assms(3) that k n by (simp add: sem_post_def Let_def)
  qed
qed (use assms(3) in \<open>simp add: sem_post_def Let_def\<close>)

lemma sem_post_inv:
  assumes "lib_inv s" "sem_post h s = Some (r, s')"
  shows "lib_inv s'"
proof (cases "find_sem h s")
  case None
  then show ?thesis using assms by (simp add: sem_post_def)
next
  note I = lib_invD[OF assms(1)]
  case (Some x)
  obtain i c where "x = (i, c)" by (cases x)
  with Some have f: "find_sem h s = Some (i, c)" by simp
  note fd = find_semD[OF I(2) f]
  show ?thesis
  proof (cases "wait_count c = 0")
    case True
    then have s': "s' = unlock (set_sem i (Some (c\<lparr>val := val c + 1\<rparr>)) (lock s))" "val c \<noteq> 2 ^ 31 - 1"
      using assms(2) sem_post_run(2)[OF I(1,2) f] by (auto split: if_splits)
    have "sem_ok (thread_count s) (c\<lparr>val := val c + 1\<rparr>)" using fd(4) True s'(2) by (auto simp: sem_ok_def)
    then have "sems_ok (set_sem i (Some (c\<lparr>val := val c + 1\<rparr>)) (lock s))"
      by (intro sems_ok_set) (use I(2) fd(3) in simp_all)
    then show ?thesis using I s'(1) by (simp add: lib_inv_def)
  next
    case False
    let ?n = "waiting_threads c ! (wait_count c - 1)"
    let ?s = "set_sem i (Some (c\<lparr>wait_count := wait_count c - 1\<rparr>)) (lock s)"
    have n: "?n < thread_count s" and s': "s' = unlock (set_tcb ?n ((tcb s ! ?n)\<lparr>state := READY\<rparr>) ?s)"
      using assms(2) sem_post_run(1)[OF I(1,2) f] False by (auto simp: Let_def)
    have "sem_ok (thread_count s) (c\<lparr>wait_count := wait_count c - 1\<rparr>)" using fd(4) by (auto simp: sem_ok_def)
    then have "sems_ok ?s" by (intro sems_ok_set) (use I(2) fd(3) in simp_all)
    moreover have "threads_ok (set_tcb ?n ((tcb s ! ?n)\<lparr>state := READY\<rparr>) ?s)"
      by (rule threads_ok_set) (use I(1) threads_okD(6,7)[OF I(1)] n in simp_all)
    moreover have "current_thread s \<noteq> 0 \<longrightarrow>
        state ((tcb s)[?n := (tcb s ! ?n)\<lparr>state := READY\<rparr>] ! current_thread s) = READY"
      using I(4) threads_okD(5)[OF I(1)] by (cases "?n = current_thread s") auto
    ultimately show ?thesis using I(3) by (simp add: lib_inv_def s')
  qed
qed

lemma update_None: "xs[i := None] ! j = Some c \<Longrightarrow> xs ! j = Some c"
proof (cases "i < length xs")
  case True
  then show "xs[i := None] ! j = Some c \<Longrightarrow> xs ! j = Some c" by (auto simp: nth_list_update split: if_splits)
qed (simp add: list_update_beyond)

lemma sem_destroy_inv:
  assumes "lib_inv s" "sem_destroy h s = (r, h', s')"
  shows "lib_inv s'"
proof -
  note I = lib_invD[OF assms(1)]
  have ok: "sems_ok (set_sem i None s)" for i
    unfolding sems_ok_def
  proof (intro conjI allI impI)
    fix j c assume "j < MAX_SEMAPHORES \<and> semaphore_array (set_sem i None s) ! j = Some c"
    then have "j < MAX_SEMAPHORES" "semaphore_array s ! j = Some c"
      using update_None[of "semaphore_array s" i j c] by simp_all
    then show "j < next_semaphore_id (set_sem i None s)" "sem_ok (thread_count (set_sem i None s)) c"
      using I(2) by (simp_all add: sems_ok_def)
  qed (use I(2) in \<open>simp_all add: sems_ok_def\<close>)
  show ?thesis
  proof (cases "find_sem h s")
    case None
    then show ?thesis using assms by (simp add: sem_destroy_def)
  next
    case (Some x)
    then have "s' = set_sem (fst x) None s" using assms(2) by (cases x) (simp add: sem_destroy_def)
    then show ?thesis using ok I by (simp add: lib_inv_def)
  qed
qed

subsection \<open>All steps\<close>

lemma resume_inv3:
  assumes "lib_inv s" "resume s = Some s'"
  shows "lib_inv s'"
proof -
  note I = lib_invD[OF assms(1)]
  have u: "lib_inv (t\<lparr>at := In_user, cpu := c\<rparr>)" if "threads_ok t" "sems_ok t" "tcb t = tcb s"
    "current_thread t = current_thread s" for c t
    using that I(4) by (auto simp: lib_inv_def threads_ok_def sems_ok_def)
  show ?thesis
  proof (cases "at s")
    case (In_join target vp)
    then have t: "target < thread_count (lock s)" "threads_ok (lock s)" "sems_ok (lock s)" using I by simp_all
    show ?thesis
    proof (rule join_loop_cases[OF t(2,3,1), of vp])
      assume "join_loop target vp (lock s) = Some (Returned 0,
        unlock (if vp then (lock s)\<lparr>out := Some (exit_value (tcb (lock s) ! target))\<rparr> else lock s))"
      then show ?thesis using In_join assms(2) I(1,2)
        by (auto simp: resume_def return_to_user_def threads_ok_def sems_ok_def intro!: u split: if_splits)
    qed (use In_join assms(2) in \<open>auto simp: resume_def\<close>)
  next
    case (Preempted p)
    then show ?thesis using assms(2) I by (auto simp: resume_def lib_inv_def threads_ok_def sems_ok_def)
  qed (use assms u[OF I(1,2) refl refl] I in
      \<open>auto simp: resume_def return_to_user_def lib_inv_def threads_ok_def sems_ok_def\<close>)
qed

lemma step_inv3: "step s s' \<Longrightarrow> lib_inv s \<Longrightarrow> lib_inv s'"
proof (induction rule: step.induct)
  case (step_user s c)
  then show ?case by (simp add: lib_inv_def threads_ok_def sems_ok_def)
next
  case (step_alarm s s')
  then show ?case using tick_inv3[of s] by auto
next
  case (step_create s m f a r n s')
  then show ?case using create_inv3[of s m f a] by auto
next
  case (step_exit s v s')
  then show ?case using exit_inv3[of s v] by (auto simp: lib_inv_def)
next
  case (step_join s th vp r s')
  then show ?case using join_inv[of s th vp] by auto
next
  case (step_sem_init s heap h v r h' s')
  then show ?case using sem_init_inv by blast
next
  case (step_sem_wait s h r s')
  then show ?case using sem_wait_inv by blast
next
  case (step_sem_post s h r s')
  then show ?case using sem_post_inv by blast
next
  case (step_sem_destroy s h r h' s')
  then show ?case using sem_destroy_inv by blast
next
  case (step_resume s s')
  then show ?case using resume_inv3 by blast
qed

lemma reachable_inv3: "reachable s \<Longrightarrow> lib_inv s"
  by (induction rule: reachable.induct) (auto intro: init_inv3 step_inv3)

section \<open>The scheduler contract\<close>

definition yield :: "lib \<Rightarrow> lib option" where
  "yield s = schedule In_user s"

definition yield_inv :: "lib \<Rightarrow> bool" where
  "yield_inv s \<longleftrightarrow> threads_ok s \<and> sems_ok s"

interpretation rr: round_robin yield_inv current_thread thread_count is_ready yield
proof
  fix s assume s: "yield_inv s"
  then have ok: "threads_ok s" "sems_ok s" by (simp_all add: yield_inv_def)
  show "current_thread s < thread_count s" using ok(1) by (simp add: threads_ok_def)
  obtain c s' where "schedule In_user s = Some s'" "lib_inv s'"
    "pick (is_ready s) (thread_count s) (current_thread s) = Some c" "current_thread s' = c"
    "thread_count s' = thread_count s" "is_ready s' = is_ready s"
    by (rule schedule_spec3[OF ok, of In_user]) (simp, rule that)
  then show "\<exists>s'. yield s = Some s' \<and> yield_inv s' \<and>
      pick (is_ready s) (thread_count s) (current_thread s) = Some (current_thread s') \<and>
      thread_count s' = thread_count s \<and> is_ready s' = is_ready s"
    by (auto simp: yield_def yield_inv_def lib_inv_def)
qed

section \<open>Example states\<close>

definition booted3 :: lib where
  "booted3 = initialize_scheduler (set_tcb 0 (zero_tcb\<lparr>state := RUNNING\<rparr>) (loaded idle_cpu 0xABC 0x600 0x500))"

lemma booted3_init: "init (loaded idle_cpu 0xABC 0x600 0x500) = Some booted3"
  by (simp add: init_def loaded_def MAX_THREADS_def zero_tcb_def booted3_def initialize_scheduler_def set_tcb_def)

lemma booted3_simps [simp]:
  "thread_count booted3 = 1" "current_thread booted3 = 0" "at booted3 = In_user"
  "semaphore_array booted3 = replicate MAX_SEMAPHORES None" "next_semaphore_id booted3 = 0"
  "tcb booted3 = (replicate MAX_THREADS zero_tcb)[0 := zero_tcb\<lparr>state := RUNNING\<rparr>]" "masked booted3 = False"
  "alarm booted3 = Some 50000"
  by (simp_all add: booted3_def initialize_scheduler_def loaded_def set_tcb_def)

lemma booted3_reachable: "reachable booted3"
  by (rule reach_init[OF booted3_init])

text \<open>
  Two threads and one semaphore of value \<open>v\<close> with waiters \<open>w\<close>: thread 0 in state \<open>st0\<close>, saved at
  \<open>p0\<close>; thread 1 in state \<open>st1\<close>, saved at \<open>p1\<close>; thread \<open>cur\<close> in user code on the processor.
\<close>

definition demo_sem :: "int \<Rightarrow> nat list \<Rightarrow> custom_semaphore" where
  "demo_sem v w = \<lparr>val = v, initialized = 1, waiting_threads = w @ replicate (MAX_THREADS - length w) 0,
     wait_count = length w\<rparr>"

definition demo3 :: "nat \<Rightarrow> int \<Rightarrow> point \<Rightarrow> int \<Rightarrow> point \<Rightarrow> int \<Rightarrow> nat list \<Rightarrow> lib" where
  "demo3 cur st0 p0 st1 p1 v w = booted3\<lparr>tcb := [zero_tcb\<lparr>state := st0, resume_at := p0\<rparr>,
     zero_tcb\<lparr>tid := 1, state := st1, resume_at := p1\<rparr>] @ replicate 126 zero_tcb, thread_count := 2,
     current_thread := cur, semaphore_array := Some (demo_sem v w) # replicate 127 None,
     next_semaphore_id := 1\<rparr>"

lemma demo3_simps [simp]:
  "tcb (demo3 cur st0 p0 st1 p1 v w) ! 0 = zero_tcb\<lparr>state := st0, resume_at := p0\<rparr>"
  "tcb (demo3 cur st0 p0 st1 p1 v w) ! Suc 0 = zero_tcb\<lparr>tid := 1, state := st1, resume_at := p1\<rparr>"
  "length (tcb (demo3 cur st0 p0 st1 p1 v w)) = MAX_THREADS" "thread_count (demo3 cur st0 p0 st1 p1 v w) = 2"
  "current_thread (demo3 cur st0 p0 st1 p1 v w) = cur" "at (demo3 cur st0 p0 st1 p1 v w) = In_user"
  "semaphore_array (demo3 cur st0 p0 st1 p1 v w) = Some (demo_sem v w) # replicate 127 None"
  "next_semaphore_id (demo3 cur st0 p0 st1 p1 v w) = 1"
  by (simp_all add: demo3_def MAX_THREADS_def)

lemma demo3_ok:
  assumes "cur < 2" "point_ok 2 p0" "point_ok 2 p1" "cur = 1 \<longrightarrow> st1 = READY"
    and "- (2 ^ 31) \<le> v" "v < 2 ^ 31" "length w \<le> MAX_THREADS" "\<forall>x \<in> set w. x < 2" "w \<noteq> [] \<longrightarrow> v \<le> 0"
  shows "lib_inv (demo3 cur st0 p0 st1 p1 v w)"
proof -
  have "threads_ok (demo3 cur st0 p0 st1 p1 v w)"
    using assms(1-3) unfolding threads_ok_def by (auto simp: MAX_THREADS_def less_2_cases_iff zero_tcb_def)
  moreover have "sem_ok 2 (demo_sem v w)"
    using assms(5-9) by (auto simp: sem_ok_def demo_sem_def nth_append)
  then have "sems_ok (demo3 cur st0 p0 st1 p1 v w)"
    by (auto simp: sems_ok_def MAX_SEMAPHORES_def nth_Cons split: nat.splits)
  ultimately show ?thesis using assms(1,4) by (auto simp: lib_inv_def less_2_cases_iff)
qed

lemma find_demo_sem [simp]: "find_sem 0 (demo3 cur st0 p0 st1 p1 v w) = Some (0, demo_sem v w)"
  by (simp add: find_sem_def sem_index_def MAX_SEMAPHORES_def demo_sem_def)

section \<open>Properties\<close>

lemma resume_total: "lib_inv s \<Longrightarrow> \<exists>s'. resume s = Some s'"
proof -
  assume i: "lib_inv s"
  note I = lib_invD[OF i]
  show ?thesis
  proof (cases "at s")
    case (In_join t vp)
    then have "threads_ok (lock s)" "sems_ok (lock s)" "t < thread_count (lock s)" using I by simp_all
    then show ?thesis
      by (rule join_loop_cases[of _ _ vp]) (simp_all add: resume_def In_join)
  qed (simp_all add: resume_def)
qed

text \<open>A thread that is switched to inside \<open>pthread_join\<close> looks at its target again.\<close>

lemma resume_join:
  assumes "lib_inv s" "at s = In_join t vp"
  shows "t < thread_count s \<and> (\<exists>s'. resume s = Some s' \<and>
     (if state (tcb s ! t) = EXITED
      then at s' = In_user \<and> rax (cpu s') = 0 \<and> (vp \<longrightarrow> out s' = Some (exit_value (tcb s ! t))) \<and> \<not> masked s'
      else state (tcb s' ! current_thread s) = BLOCKED \<and> resume_at (tcb s' ! current_thread s) = In_join t vp))"
proof -
  note I = lib_invD[OF assms(1)]
  have t: "t < thread_count s" using I(3) assms(2) by simp
  have l: "threads_ok (lock s)" "sems_ok (lock s)" "t < thread_count (lock s)" using I t by simp_all
  have cur: "current_thread s < length (tcb s)" using threads_okD(5)[OF I(1)] .
  show ?thesis
  proof (rule join_loop_cases[OF l, of vp])
    fix s' assume a: "join_loop t vp (lock s) = Some (Switched, s')" "state (tcb (lock s) ! t) \<noteq> EXITED"
      "schedule (In_join t vp) (unlock (blocked (lock s))) = Some s'"
    have b: "threads_ok (unlock (blocked (lock s)))" "sems_ok (unlock (blocked (lock s)))"
      "point_ok (thread_count (unlock (blocked (lock s)))) (In_join t vp)"
      using blocked_ok l by simp_all
    have "tcb s' = (tcb (unlock (blocked (lock s))))[current_thread s :=
        (tcb (unlock (blocked (lock s))) ! current_thread s)\<lparr>ctx := setjmp (guard s) (cpu s), resume_at := In_join t vp\<rparr>]"
      by (rule schedule_spec3[OF b]) (use a(3) in auto)
    then show ?thesis using a(1,2) t cur assms(2) by (simp add: resume_def)
  next
    assume "state (tcb (lock s) ! t) = EXITED" "join_loop t vp (lock s) = Some (Returned 0,
        unlock (if vp then (lock s)\<lparr>out := Some (exit_value (tcb (lock s) ! t))\<rparr> else lock s))"
    then show ?thesis using t assms(2) by (simp add: resume_def return_to_user_def)
  qed
qed

text \<open>C15: in every state the library reaches the tables are well formed.  Whatever context was switched
  to goes on: the resumption is defined and keeps the tables well formed, also that of a thread inside
  \<open>pthread_join\<close>, which then either returns its target's value or blocks and switches again.  In user code
  every thread call is defined, and a signal wherever it is delivered; \<open>sem_wait\<close> leaves its arrays only
  when the waiting array is full, and \<open>sem_post\<close> overflows only at \<^verbatim>\<open>INT_MAX\<close>.\<close>

theorem threads3_safe:
  assumes "reachable s"
  shows "lib_inv s \<and> pthread_self s = Some (current_thread s) \<and> tick s \<noteq> None \<and>
    (\<exists>s'. resume s = Some s' \<and> lib_inv s') \<and>
    (\<forall>t vp. at s = In_join t vp \<longrightarrow> t < thread_count s \<and> (\<exists>s'. resume s = Some s' \<and>
       (if state (tcb s ! t) = EXITED
        then at s' = In_user \<and> rax (cpu s') = 0 \<and> (vp \<longrightarrow> out s' = Some (exit_value (tcb s ! t))) \<and> \<not> masked s'
        else state (tcb s' ! current_thread s) = BLOCKED \<and> resume_at (tcb s' ! current_thread s) = In_join t vp))) \<and>
    (at s = In_user \<longrightarrow> pthread_create m f a s \<noteq> None \<and> pthread_exit v s \<noteq> None \<and> pthread_join th vp s \<noteq> None \<and>
      (sem_wait h s = None \<longrightarrow> (\<exists>i c. find_sem h s = Some (i, c) \<and> val c \<le> 0 \<and> wait_count c = MAX_THREADS)) \<and>
      (sem_post h s = None \<longrightarrow> (\<exists>i c. find_sem h s = Some (i, c) \<and> val c = 2 ^ 31 - 1)))"
proof -
  have inv: "lib_inv s" by (rule reachable_inv3[OF assms(1)])
  note I = lib_invD[OF inv]
  have "pthread_self s = Some (current_thread s)"
    using threads_okD(4,5,6)[OF I(1)] by (simp add: pthread_self_def)
  moreover have "tick s \<noteq> None" using tick_inv3[OF inv] by auto
  moreover have "pthread_create m f a s \<noteq> None" using create_inv3[OF inv, of m f a] by auto
  moreover have "pthread_exit v s \<noteq> None" using exit_inv3[OF I(1,2), of v] by auto
  moreover have "at s = In_user \<longrightarrow> pthread_join th vp s \<noteq> None" using join_inv[OF inv, of th vp] by auto
  moreover have "\<exists>s'. resume s = Some s' \<and> lib_inv s'" using resume_total[OF inv] resume_inv3[OF inv] by blast
  moreover note resume_join[OF inv]
  moreover have "\<exists>i c. find_sem h s = Some (i, c) \<and> val c \<le> 0 \<and> wait_count c = MAX_THREADS"
    if n: "sem_wait h s = None"
  proof -
    obtain i c where f: "find_sem h s = Some (i, c)" "\<not> 0 < val c"
      using n sem_wait_run[OF I(1,2), of h] by (auto split: option.splits if_splits)
    then have v: "val c \<le> 0" by simp
    have "\<not> wait_count c < MAX_THREADS"
    proof
      assume w: "wait_count c < MAX_THREADS"
      obtain s' where "schedule In_sem_wait (queued i c s) = Some s'"
        by (rule schedule_spec3[OF queued_ok[OF I(1,2) f(1) v w], of In_sem_wait]) (simp, rule that)
      then show False using n f w sem_wait_run[OF I(1,2), of h] by simp
    qed
    moreover have "wait_count c \<le> MAX_THREADS" using find_semD(4)[OF I(2) f(1)] by (simp add: sem_ok_def)
    ultimately have "wait_count c = MAX_THREADS" by simp
    then show ?thesis using f(1) v by blast
  qed
  moreover have "\<exists>i c. find_sem h s = Some (i, c) \<and> val c = 2 ^ 31 - 1" if n: "sem_post h s = None"
  proof -
    obtain i c where f: "find_sem h s = Some (i, c)"
      using n by (auto simp: sem_post_def split: option.splits)
    show ?thesis
      using sem_post_run[OF I(1,2) f] n f by (cases "wait_count c = 0") (auto simp: Let_def split: if_splits)
  qed
  ultimately show ?thesis using inv by blast
qed

lemma threads3_safe_witness:
  "lib_inv booted3 \<and> pthread_self booted3 = Some (current_thread booted3) \<and> tick booted3 \<noteq> None \<and>
    (\<exists>s'. resume booted3 = Some s' \<and> lib_inv s') \<and> pthread_create (Some 0x9000) 0x700 1 booted3 \<noteq> None \<and> pthread_exit 5 booted3 \<noteq> None \<and>
    pthread_join 0 True booted3 \<noteq> None"
  using threads3_safe[OF booted3_reachable, of "Some 0x9000" "0x700" 1 5 0 True 0] by auto

lemma schedule_keeps:
  assumes "schedule p s = Some s'"
  shows "state (tcb s' ! i) = state (tcb s ! i)" "exit_value (tcb s' ! i) = exit_value (tcb s ! i)"
    "tid (tcb s' ! i) = tid (tcb s ! i)" "semaphore_array s' = semaphore_array s"
    "thread_count s' = thread_count s" "masked s' = masked s" "length (tcb s') = length (tcb s)"
  using assms
  by (auto simp: schedule_def Let_def bind_eq_Some_conv arr_get_Some_iff nth_list_update)

lemma exit_effect:
  assumes "threads_ok s" "pthread_exit v s = Some s'"
  shows "state (tcb s' ! i) = (if i = current_thread s then EXITED else state (tcb s ! i))"
    and "exit_value (tcb s' ! current_thread s) = v"
    and "thread_count s' = thread_count s"
  using assms(2) threads_okD(5)[OF assms(1)] unfolding exit_run[OF assms(1)]
  by (auto simp: schedule_keeps nth_list_update)

text \<open>C36: \<open>pthread_exit\<close> stores the exit value and marks its thread as exited, and changes the state of no
  other thread: its loop compares the ids of blocked threads with the id of the exiting thread, so it
  wakes none of the threads that wait for it.\<close>

theorem exit_wakes_nobody:
  assumes "lib_inv s" "pthread_exit v s = Some s'"
  shows "state (tcb s' ! current_thread s) = EXITED \<and> exit_value (tcb s' ! current_thread s) = v \<and>
    (\<forall>i. i \<noteq> current_thread s \<longrightarrow> state (tcb s' ! i) = state (tcb s ! i))"
  using exit_effect[OF lib_invD(1)[OF assms(1)] assms(2)] by simp

lemma exit_wakes_nobody_witness:
  "\<exists>s'. pthread_exit 7 (demo3 0 RUNNING In_user BLOCKED (In_join 0 True) 0 []) = Some s' \<and>
    state (tcb s' ! 0) = EXITED \<and> exit_value (tcb s' ! 0) = 7 \<and> state (tcb s' ! 1) = BLOCKED"
proof -
  let ?s = "demo3 0 RUNNING In_user BLOCKED (In_join 0 True) 0 []"
  have inv: "lib_inv ?s" by (rule demo3_ok) simp_all
  obtain s' where s': "pthread_exit 7 ?s = Some s'" using exit_inv3[OF lib_invD(1,2)[OF inv], of 7] by auto
  from exit_wakes_nobody[OF inv s'] have "state (tcb s' ! 0) = EXITED" "exit_value (tcb s' ! 0) = 7"
    "state (tcb s' ! 1) = BLOCKED" by simp_all
  then show ?thesis using s' by blast
qed

text \<open>A blocked thread that no semaphore will wake.\<close>

definition not_queued :: "lib \<Rightarrow> nat \<Rightarrow> bool" where
  "not_queued s t \<longleftrightarrow> (\<forall>i < MAX_SEMAPHORES. \<forall>c. semaphore_array s ! i = Some c \<longrightarrow>
     (\<forall>k < wait_count c. waiting_threads c ! k \<noteq> t))"

definition stuck :: "lib \<Rightarrow> nat \<Rightarrow> bool" where
  "stuck s t \<longleftrightarrow> t < thread_count s \<and> current_thread s \<noteq> t \<and> state (tcb s ! t) = BLOCKED \<and> not_queued s t"

lemma schedule_stuck:
  assumes "threads_ok s" "schedule p s = Some s'" "stuck s t" "t \<noteq> 0"
  shows "stuck s' t"
proof -
  note a = threads_okD[OF assms(1)]
  let ?s = "set_tcb (current_thread s)
    ((tcb s ! current_thread s)\<lparr>ctx := setjmp (guard s) (cpu s), resume_at := p\<rparr>) s"
  have c: "pick (is_ready ?s) (thread_count s) (current_thread s) = Some (current_thread s')"
    using assms(2) a(5) by (auto simp: schedule_def Let_def bind_eq_Some_conv)
  have "\<not> is_ready ?s t" using assms(3) a(1,3) by (simp add: stuck_def is_ready_def)
  then have "current_thread s' \<noteq> t"
    by (rule_tac pick_cases[OF a(4), of "is_ready ?s"]) (use c assms(4) in auto)
  then show ?thesis using assms(3) schedule_keeps[OF assms(2)] by (simp add: stuck_def not_queued_def)
qed

lemma stuck_cong:
  "stuck s t \<Longrightarrow> thread_count s' = thread_count s \<Longrightarrow> current_thread s' = current_thread s \<Longrightarrow>
   state (tcb s' ! t) = state (tcb s ! t) \<Longrightarrow> not_queued s' t \<Longrightarrow> stuck s' t"
  by (simp add: stuck_def)

lemma stuck_same:
  "stuck s t \<Longrightarrow> tcb s' = tcb s \<Longrightarrow> thread_count s' = thread_count s \<Longrightarrow> current_thread s' = current_thread s \<Longrightarrow>
   semaphore_array s' = semaphore_array s \<Longrightarrow> stuck s' t"
  by (simp add: stuck_def not_queued_def)

lemma not_queued_cong: "not_queued s t \<Longrightarrow> semaphore_array s' = semaphore_array s \<Longrightarrow> not_queued s' t"
  by (simp add: not_queued_def)

lemma not_queued_set:
  assumes "not_queued s t" "\<And>k. k < wait_count c \<Longrightarrow> waiting_threads c ! k \<noteq> t"
  shows "not_queued (set_sem i (Some c) s) t"
  using assms unfolding not_queued_def
  by (cases "i < length (semaphore_array s)") (auto simp: nth_list_update list_update_beyond split: if_splits)

lemma stuckD: "stuck s t \<Longrightarrow> not_queued s t" "stuck s t \<Longrightarrow> t \<noteq> current_thread s"
  by (auto simp: stuck_def)

lemma stuck_blocked:
  assumes "stuck s t" shows "stuck (blocked s) t"
  by (rule stuck_cong[OF assms]) (use stuckD[OF assms] in \<open>simp_all add: not_queued_def\<close>)

lemma stuck_lock: "stuck (lock s) t = stuck s t" "stuck (unlock s) t = stuck s t"
  by (simp_all add: stuck_def not_queued_def)

lemma stuck_join_loop:
  assumes "threads_ok s" "sems_ok s" "target < thread_count s" "join_loop target vp s = Some (r, s')" "stuck s t" "t \<noteq> 0"
  shows "stuck s' t"
proof (rule join_loop_cases[OF assms(1-3), of vp])
  fix s1 assume a: "join_loop target vp s = Some (Switched, s1)"
    "schedule (In_join target vp) (unlock (blocked s)) = Some s1"
  have "threads_ok (unlock (blocked s))" using blocked_ok(1)[OF assms(1)] by simp
  from schedule_stuck[OF this a(2) _ assms(6)] stuck_blocked[OF assms(5)] a(1) assms(4)
  show ?thesis by (simp add: stuck_lock)
next
  assume "join_loop target vp s = Some (Returned 0,
        unlock (if vp then s\<lparr>out := Some (exit_value (tcb s ! target))\<rparr> else s))"
  then show ?thesis using assms(4) by (auto intro!: stuck_same[OF assms(5)])
qed

lemma stuck_resume:
  assumes "lib_inv s" "resume s = Some s'" "stuck s t" "t \<noteq> 0"
  shows "stuck s' t"
proof (cases "at s")
  case (In_join target vp)
  note I = lib_invD[OF assms(1)]
  obtain r s1 where l: "join_loop target vp (lock s) = Some (r, s1)"
    "s' = (case r of Returned n \<Rightarrow> return_to_user s1 | Switched \<Rightarrow> s1)"
    using assms(2) In_join by (auto simp: resume_def split: option.splits outcome.splits)
  have "stuck s1 t"
    by (rule stuck_join_loop[OF _ _ _ l(1) _ assms(4)]) (use I In_join assms(3) in \<open>simp_all add: stuck_lock\<close>)
  then show ?thesis using l(2)
    by (simp add: return_to_user_def stuck_def not_queued_def split: outcome.splits)
qed (use assms(2) in \<open>auto simp: resume_def return_to_user_def intro!: stuck_same[OF assms(3)]\<close>)

lemma stuck_sem_wait:
  assumes "lib_inv s" "sem_wait h s = Some (r, s')" "stuck s t" "t \<noteq> 0"
  shows "stuck s' t"
proof (cases "find_sem h s")
  case None
  then show ?thesis using assms by (simp add: sem_wait_def)
next
  note I = lib_invD[OF assms(1)]
  case (Some x)
  obtain i c where "x = (i, c)" by (cases x)
  with Some have f: "find_sem h s = Some (i, c)" by simp
  note fd = find_semD[OF I(2) f]
  have nq: "\<And>k. k < wait_count c \<Longrightarrow> waiting_threads c ! k \<noteq> t"
    using stuckD(1)[OF assms(3)] fd(1,2) by (auto simp: not_queued_def)
  show ?thesis
  proof (cases "0 < val c")
    case True
    have "not_queued (set_sem i (Some (c\<lparr>val := val c - 1\<rparr>)) (lock s)) t"
      by (rule not_queued_set) (use nq stuckD(1)[OF assms(3)] in \<open>simp_all add: not_queued_def\<close>)
    then have "stuck (set_sem i (Some (c\<lparr>val := val c - 1\<rparr>)) (lock s)) t"
      by (intro stuck_cong[OF assms(3)]) simp_all
    then show ?thesis using assms(2) f True by (auto simp: sem_wait_def Let_def stuck_lock)
  next
    case False
    then have w: "wait_count c < MAX_THREADS" "schedule In_sem_wait (queued i c s) = Some s'"
      using assms(2) f sem_wait_run[OF I(1,2), of h] by (auto split: if_splits)
    have v: "val c \<le> 0" using False by simp
    let ?c = "c\<lparr>waiting_threads := (waiting_threads c)[wait_count c := current_thread s], wait_count := wait_count c + 1\<rparr>"
    have "length (waiting_threads c) = MAX_THREADS" using fd(4) by (simp add: sem_ok_def)
    then have "waiting_threads ?c ! k \<noteq> t" if "k < wait_count ?c" for k
      using that nq stuckD(2)[OF assms(3)] w(1) by (auto simp: nth_list_update less_Suc_eq)
    then have "not_queued (set_sem i (Some ?c) (lock s)) t"
      by (intro not_queued_set) (use stuckD(1)[OF assms(3)] in \<open>simp_all add: not_queued_def\<close>)
    then have "stuck (set_sem i (Some ?c) (lock s)) t" by (intro stuck_cong[OF assms(3)]) simp_all
    then have "stuck (queued i c s) t" unfolding queued_def by (rule stuck_blocked)
    then show ?thesis by (rule schedule_stuck[OF queued_ok(1)[OF I(1,2) f v w(1)] w(2) _ assms(4)])
  qed
qed

lemma stuck_sem_post:
  assumes "lib_inv s" "sem_post h s = Some (r, s')" "stuck s t"
  shows "stuck s' t"
proof (cases "find_sem h s")
  case None
  then show ?thesis using assms by (simp add: sem_post_def)
next
  note I = lib_invD[OF assms(1)]
  case (Some x)
  obtain i c where "x = (i, c)" by (cases x)
  with Some have f: "find_sem h s = Some (i, c)" by simp
  note fd = find_semD[OF I(2) f]
  have nq: "\<And>k. k < wait_count c \<Longrightarrow> waiting_threads c ! k \<noteq> t"
    using stuckD(1)[OF assms(3)] fd(1,2) by (auto simp: not_queued_def)
  have q: "not_queued (set_sem i (Some c') (lock s)) t"
    if "wait_count c' \<le> wait_count c" "waiting_threads c' = waiting_threads c" for c'
    by (rule not_queued_set) (use nq that stuckD(1)[OF assms(3)] in \<open>auto simp: not_queued_def\<close>)
  show ?thesis
  proof (cases "wait_count c = 0")
    case True
    have "stuck (set_sem i (Some (c\<lparr>val := val c + 1\<rparr>)) (lock s)) t"
      by (intro stuck_cong[OF assms(3)]) (simp_all add: q)
    then show ?thesis
      using assms(2) sem_post_run(2)[OF I(1,2) f True] by (auto simp: stuck_lock split: if_splits)
  next
    case False
    let ?n = "waiting_threads c ! (wait_count c - 1)"
    have "?n \<noteq> t" using nq[of "wait_count c - 1"] False by simp
    then have "stuck (set_tcb ?n ((tcb s ! ?n)\<lparr>state := READY\<rparr>)
        (set_sem i (Some (c\<lparr>wait_count := wait_count c - 1\<rparr>)) (lock s))) t"
      using q[of "c\<lparr>wait_count := wait_count c - 1\<rparr>"]
      by (intro stuck_cong[OF assms(3)]) (simp_all add: not_queued_def)
    then show ?thesis
      using assms(2) sem_post_run(1)[OF I(1,2) f] False by (auto simp: stuck_lock Let_def)
  qed
qed

lemma step_stuck: "step s s' \<Longrightarrow> lib_inv s \<Longrightarrow> stuck s t \<Longrightarrow> t \<noteq> 0 \<Longrightarrow> stuck s' t"
proof (induction rule: step.induct)
  case (step_user s c)
  then show ?case by (simp add: stuck_def not_queued_def)
next
  case (step_alarm s s')
  have "threads_ok (s\<lparr>masked := True\<rparr>)" "stuck (s\<lparr>masked := True\<rparr>) t"
    using step_alarm by (simp_all add: lib_inv_def threads_ok_def stuck_def not_queued_def)
  then show ?case using schedule_stuck step_alarm by (auto simp: tick_def)
next
  case (step_create s m f a r n s')
  note I = lib_invD[OF step_create(3)]
  show ?case
  proof (cases "MAX_THREADS \<le> thread_count s \<or> m = None")
    case True
    let ?n = "thread_count s"
    have "s' = s \<or> s' = set_tcb ?n ((tcb s ! ?n)\<lparr>tid := ?n, stk := 0\<rparr>) s"
      using step_create(2) True
      by (auto simp: pthread_create_def Let_def bind_eq_Some_conv arr_get_Some_iff split: if_splits)
    moreover have "stuck (set_tcb ?n ((tcb s ! ?n)\<lparr>tid := ?n, stk := 0\<rparr>) s) t"
      by (rule stuck_cong[OF step_create(4)])
        (use step_create(4) stuckD(1)[OF step_create(4)] in \<open>simp_all add: not_queued_def stuck_def\<close>)
    ultimately show ?thesis using step_create(4) by auto
  next
    case False
    then obtain base where m: "m = Some base" and lt: "thread_count s < MAX_THREADS" by auto
    have run: "schedule After_create (created base f a s) = Some s'"
      using step_create(2) create_run3[OF I(1) lt] m by auto
    have "stuck (created base f a s) t"
      using step_create(4) by (simp add: stuck_def not_queued_def created_def Let_def)
    then show ?thesis by (rule schedule_stuck[OF create_pre3(1)[OF I(1,2) lt] run _ step_create(5)])
  qed
next
  case (step_exit s v s')
  note I = lib_invD[OF step_exit(3)]
  let ?s = "unlock (set_tcb (current_thread s) ((tcb s ! current_thread s)\<lparr>exit_value := v, state := EXITED\<rparr>) (lock s))"
  have "stuck ?s t" unfolding stuck_lock
    by (rule stuck_cong[OF step_exit(4)]) (use stuckD[OF step_exit(4)] in \<open>simp_all add: not_queued_def\<close>)
  then show ?case
    using schedule_stuck[OF exit_pre(1)[OF I(1,2)] _ _ step_exit(5)] step_exit(2) unfolding exit_run[OF I(1)] by blast
next
  case (step_join s th vp r s')
  note I = lib_invD[OF step_join(3)]
  show ?case
  proof (cases "th < thread_count s")
    case True
    then have "join_loop th vp (lock s) = Some (r, s')"
      using step_join(2) find_target[OF I(1), of th] by (simp add: pthread_join_def Let_def)
    then show ?thesis
      by (rule stuck_join_loop[rotated 3]) (use I True step_join(4,5) in \<open>simp_all add: stuck_lock\<close>)
  next
    case False
    then show ?thesis
      using step_join(2,4) find_target[OF I(1), of th] by (auto simp: pthread_join_def Let_def stuck_lock)
  qed
next
  case (step_sem_init s heap h v r h' s')
  then consider "s' = s" | i c where "s' = (set_sem i (Some c) s)\<lparr>next_semaphore_id := i + 1\<rparr>" "wait_count c = 0"
    by (auto simp: sem_init_def Let_def split: if_splits option.splits)
  then show ?case
  proof cases
    case 2
    have "not_queued (set_sem i (Some c) s) t"
      by (rule not_queued_set[OF stuckD(1)[OF step_sem_init(5)]]) (use 2 in simp)
    then show ?thesis using 2 by (intro stuck_cong[OF step_sem_init(5)]) (simp_all add: not_queued_def)
  qed (use step_sem_init(5) in simp)
next
  case (step_sem_wait s h r s')
  then show ?case using stuck_sem_wait by blast
next
  case (step_sem_post s h r s')
  then show ?case using stuck_sem_post by blast
next
  case (step_sem_destroy s h r h' s')
  then consider "s' = s" | i where "s' = set_sem i None s"
    by (auto simp: sem_destroy_def split: option.splits)
  then show ?case
  proof cases
    case 2
    have "not_queued s' t"
      using stuckD(1)[OF step_sem_destroy(4)] update_None[of "semaphore_array s" i]
      unfolding 2 not_queued_def by (metis set_simps(15))
    then show ?thesis using 2 by (intro stuck_cong[OF step_sem_destroy(4)]) simp_all
  qed (use step_sem_destroy(4) in simp)
next
  case (step_resume s s')
  then show ?case using stuck_resume by blast
qed

text \<open>C28: a thread other than the main thread that blocks in \<open>pthread_join\<close> never runs again: it stays
  blocked in every later state, also after the thread it waits for has exited.\<close>

theorem joiner_blocks_forever:
  assumes "lib_inv s" "pthread_join th vp s = Some (Switched, s1)" "current_thread s \<noteq> 0"
    "not_queued s (current_thread s)" "step\<^sup>*\<^sup>* s1 s'"
  shows "state (tcb s' ! current_thread s) = BLOCKED \<and> current_thread s' \<noteq> current_thread s"
proof -
  let ?t = "current_thread s"
  note I = lib_invD[OF assms(1)] note a = threads_okD[OF I(1)]
  have th: "th < thread_count s"
    using assms(2) find_target[OF I(1), of th] by (auto simp: pthread_join_def Let_def split: if_splits)
  have j: "join_loop th vp (lock s) = Some (Switched, s1)"
    using assms(2) th find_target[OF I(1), of th] by (simp add: pthread_join_def Let_def)
  have l: "threads_ok (lock s)" "sems_ok (lock s)" "th < thread_count (lock s)" using I th by simp_all
  have "lib_inv s1 \<and> stuck s1 ?t"
  proof (rule join_loop_cases[OF l, of vp])
    fix s2 assume b: "join_loop th vp (lock s) = Some (Switched, s2)"
      "schedule (In_join th vp) (unlock (blocked (lock s))) = Some s2" "lib_inv s2"
    let ?b = "unlock (blocked (lock s))"
    have ok: "threads_ok ?b" "sems_ok ?b" "point_ok (thread_count ?b) (In_join th vp)"
      using blocked_ok[of "lock s"] l by simp_all
    have nr: "\<not> is_ready ?b ?t" using a(5) by (simp add: is_ready_def)
    obtain c where c: "current_thread s2 = c" "c = 0 \<or> is_ready ?b c" "thread_count s2 = thread_count s"
      by (rule schedule_spec3[OF ok]) (use b(2) that in auto)
    have "current_thread s2 \<noteq> ?t" using c(1,2) nr assms(3) by auto
    moreover have "state (tcb s2 ! ?t) = BLOCKED" using schedule_keeps(1)[OF b(2)] a(5) by simp
    moreover have "not_queued s2 ?t"
      using schedule_keeps(4)[OF b(2)] assms(4) by (simp add: not_queued_def)
    ultimately show ?thesis using b(1,3) j c(3) a(4) by (simp add: stuck_def)
  qed (use j in simp)
  then have st: "lib_inv s1" "stuck s1 ?t" by simp_all
  have "lib_inv s' \<and> stuck s' ?t"
    using assms(5) by (induction rule: rtranclp_induct) (use st step_inv3 step_stuck assms(3) in blast)+
  then show ?thesis by (auto simp: stuck_def)
qed

lemma joiner_blocks_forever_witness:
  "\<exists>s1 s2. pthread_join 0 True (demo3 1 RUNNING In_user READY In_user 0 []) = Some (Switched, s1) \<and>
    pthread_exit 7 s1 = Some s2 \<and> state (tcb s2 ! 0) = EXITED \<and>
    state (tcb s2 ! 1) = BLOCKED \<and> current_thread s2 \<noteq> 1"
proof -
  let ?s = "demo3 1 RUNNING In_user READY In_user 0 []"
  have inv: "lib_inv ?s" by (rule demo3_ok) simp_all
  note I = lib_invD[OF inv]
  have t: "threads_ok (lock ?s)" "sems_ok (lock ?s)" "0 < thread_count (lock ?s)" using I by simp_all
  have e: "pthread_join 0 True ?s = join_loop 0 True (lock ?s)"
    using find_target[OF I(1), of 0] by (simp add: pthread_join_def Let_def)
  have run: "state (tcb (lock ?s) ! 0) \<noteq> EXITED" by simp
  obtain s1 where s1: "pthread_join 0 True ?s = Some (Switched, s1)"
    "schedule (In_join 0 True) (unlock (blocked (lock ?s))) = Some s1" "lib_inv s1"
    by (rule join_loop_cases[OF t, of True]) (use run e in auto)
  let ?b = "unlock (blocked (lock ?s))"
  have b: "threads_ok ?b" "sems_ok ?b" "point_ok (thread_count ?b) (In_join 0 True)"
    using blocked_ok[of "lock ?s"] t by simp_all
  obtain c where c: "pick (is_ready ?b) (thread_count ?b) (current_thread ?b) = Some c" "current_thread s1 = c"
    "at s1 = resume_at (tcb s1 ! c)" "tcb s1 = (tcb ?b)[current_thread ?b :=
       (tcb ?b ! current_thread ?b)\<lparr>ctx := setjmp (guard ?b) (cpu ?b), resume_at := In_join 0 True\<rparr>]"
    by (rule schedule_spec3[OF b]) (use s1(2) that in auto)
  have "c = 0" using c(1) pick_eq[of 1 2 "is_ready ?b"] by simp
  then have at1: "at s1 = In_user" "current_thread s1 = 0" using c(2,3,4) by simp_all
  obtain s2 where s2: "pthread_exit 7 s1 = Some s2" using exit_inv3[OF lib_invD(1,2)[OF s1(3)], of 7] by auto
  have st: "step s1 s2" by (rule step_exit[OF at1(1) s2])
  have nq: "not_queued ?s (current_thread ?s)"
    by (auto simp: not_queued_def demo_sem_def MAX_SEMAPHORES_def nth_Cons split: nat.splits)
  have "current_thread ?s \<noteq> 0" by simp
  from joiner_blocks_forever[OF inv s1(1) this nq r_into_rtranclp[of step, OF st]]
  have "state (tcb s2 ! 1) = BLOCKED" "current_thread s2 \<noteq> 1" by simp_all
  moreover have "state (tcb s2 ! 0) = EXITED"
    using exit_effect(1)[OF lib_invD(1)[OF s1(3)] s2, of 0] at1(2) by simp
  ultimately show ?thesis using s1(1) s2 by blast
qed

text \<open>C27: the main thread does get the exit value it waits for: when the scheduler falls back to it after
  its target has exited, its \<open>pthread_join\<close> returns 0 with the value the target passed to
  \<open>pthread_exit\<close>.\<close>

theorem main_join_gets_value:
  assumes "lib_inv s" "pthread_exit v s = Some s1" "at s1 = In_join (current_thread s) True"
  shows "\<exists>s2. resume s1 = Some s2 \<and> at s2 = In_user \<and> rax (cpu s2) = 0 \<and> out s2 = Some v \<and> \<not> masked s2"
proof -
  note I = lib_invD[OF assms(1)]
  note e = exit_effect[OF I(1) assms(2)]
  have l: "current_thread s < length (tcb s1)"
    using assms(2) threads_okD(5)[OF I(1)] unfolding exit_run[OF I(1)] by (auto simp: schedule_keeps)
  then have "join_loop (current_thread s) True (lock s1) =
      Some (Returned 0, unlock ((lock s1)\<lparr>out := Some v\<rparr>))"
    using e(1)[of "current_thread s"] e(2) by (simp add: join_loop_def)
  then show ?thesis using assms(3) by (simp add: resume_def return_to_user_def unlock_def)
qed

lemma main_join_gets_value_witness:
  "\<exists>s1 s2. pthread_exit 7 (demo3 1 BLOCKED (In_join 1 True) READY In_user 0 []) = Some s1 \<and>
    resume s1 = Some s2 \<and> at s2 = In_user \<and> rax (cpu s2) = 0 \<and> out s2 = Some 7 \<and> \<not> masked s2"
proof -
  let ?s = "demo3 1 BLOCKED (In_join 1 True) READY In_user 0 []"
  have inv: "lib_inv ?s" by (rule demo3_ok) simp_all
  note I = lib_invD[OF inv]
  let ?x = "unlock (set_tcb (current_thread ?s) ((tcb ?s ! current_thread ?s)\<lparr>exit_value := 7, state := EXITED\<rparr>) (lock ?s))"
  have ok: "point_ok (thread_count ?x) After_exit" by simp
  obtain c s1 where c: "schedule After_exit ?x = Some s1" "at s1 = resume_at (tcb s1 ! c)"
    "pick (is_ready ?x) (thread_count ?x) (current_thread ?x) = Some c"
    "tcb s1 = (tcb ?x)[current_thread ?x :=
       (tcb ?x ! current_thread ?x)\<lparr>ctx := setjmp (guard ?x) (cpu ?x), resume_at := After_exit\<rparr>]"
    by (rule schedule_spec3[OF exit_pre[OF I(1,2)] ok]) (rule that)
  have "c = 0" using c(3) pick_eq[of 1 2 "is_ready ?x"] by simp
  then have "at s1 = In_join (current_thread ?s) True" using c(2,4) by simp
  moreover have x: "pthread_exit 7 ?s = Some s1" using c(1) exit_run[OF I(1)] by simp
  ultimately show ?thesis using main_join_gets_value[OF inv x] x by blast
qed

text \<open>C35: joining a thread that has exited returns at once with its exit value and changes no thread;
  joining an unknown thread fails.\<close>

theorem join_exited:
  assumes "lib_inv s"
  shows "(th < thread_count s \<and> state (tcb s ! th) = EXITED \<longrightarrow>
      (\<exists>s'. pthread_join th True s = Some (Returned 0, s') \<and> out s' = Some (exit_value (tcb s ! th)) \<and> tcb s' = tcb s)) \<and>
    (thread_count s \<le> th \<longrightarrow> (\<exists>s'. pthread_join th vp s = Some (Returned (-1), s') \<and> tcb s' = tcb s))"
proof -
  note I = lib_invD[OF assms]
  have "\<exists>s'. pthread_join th True s = Some (Returned 0, s') \<and> out s' = Some (exit_value (tcb s ! th)) \<and> tcb s' = tcb s"
    if "th < thread_count s" "state (tcb s ! th) = EXITED"
    using that find_target[OF I(1), of th] threads_okD(1,3)[OF I(1)]
    by (simp add: pthread_join_def join_loop_def Let_def unlock_def lock_def)
  moreover have "\<exists>s'. pthread_join th vp s = Some (Returned (-1), s') \<and> tcb s' = tcb s" if "thread_count s \<le> th"
    using that find_target[OF I(1), of th] by (simp add: pthread_join_def Let_def)
  ultimately show ?thesis by blast
qed

lemma join_exited_witness:
  "\<exists>s'. pthread_join 1 True (demo3 0 RUNNING In_user EXITED After_exit 0 []) = Some (Returned 0, s') \<and> out s' = Some 0"
proof -
  have inv: "lib_inv (demo3 0 RUNNING In_user EXITED After_exit 0 [])" by (rule demo3_ok) simp_all
  from join_exited[OF inv, of 1 True] show ?thesis by (auto simp: zero_tcb_def)
qed

text \<open>C30: a semaphore never has a positive value and waiting threads at the same time, its waiting array
  holds only threads that exist, and its value stays an \<^verbatim>\<open>int\<close>.\<close>

theorem semaphore_invariant:
  assumes "reachable s" "find_sem h s = Some (i, c)"
  shows "(0 < val c \<longrightarrow> wait_count c = 0) \<and> (\<forall>k < wait_count c. waiting_threads c ! k < thread_count s) \<and>
    - (2 ^ 31) \<le> val c \<and> val c < 2 ^ 31 \<and> i < next_semaphore_id s"
proof -
  note f = find_semD[OF lib_invD(2)[OF reachable_inv3[OF assms(1)]] assms(2)]
  from f(3,4) show ?thesis by (auto simp: sem_ok_def)
qed

lemma semaphore_invariant_witness:
  "\<exists>s i c. find_sem 0 s = Some (i, c) \<and> (0 < val c \<longrightarrow> wait_count c = 0) \<and>
    (\<forall>k < wait_count c. waiting_threads c ! k < thread_count s) \<and> - (2 ^ 31) \<le> val c \<and> val c < 2 ^ 31 \<and>
    i < next_semaphore_id s"
proof -
  obtain h' s where s: "sem_init (Some (replicate MAX_THREADS 0)) 0 3 booted3 = (0, h', s)" "h' = 0"
    "semaphore_array s = (replicate MAX_SEMAPHORES None)[0 :=
      Some \<lparr>val = 3, initialized = 1, waiting_threads = replicate MAX_THREADS 0, wait_count = 0\<rparr>]"
    by (simp add: sem_init_def Let_def MAX_SEMAPHORES_def)
  have "step booted3 s" by (rule step_sem_init[OF _ _ s(1)]) simp_all
  then have r: "reachable s" by (rule reach_step[OF booted3_reachable])
  have "\<exists>c. find_sem 0 s = Some (0, c)"
    using s(3) by (simp add: find_sem_def sem_index_def MAX_SEMAPHORES_def)
  then obtain c where c: "find_sem 0 s = Some (0, c)" by blast
  from semaphore_invariant[OF r c] c show ?thesis by blast
qed

text \<open>C29: a successful \<open>sem_post\<close> either wakes exactly one waiting thread, the one that queued last, and
  leaves the value, or, when nobody waits, adds one to the value; \<open>sem_wait\<close> on a positive value takes
  one from it and returns.\<close>

theorem sem_post_wait:
  assumes "lib_inv s" "find_sem h s = Some (i, c)"
  shows "(0 < wait_count c \<longrightarrow> (\<exists>s'. sem_post h s = Some (0, s') \<and>
      (\<forall>j < thread_count s. state (tcb s' ! j) = (if j = waiting_threads c ! (wait_count c - 1) then READY else state (tcb s ! j))) \<and>
      semaphore_array s' = (semaphore_array s)[i := Some (c\<lparr>wait_count := wait_count c - 1\<rparr>)])) \<and>
    (wait_count c = 0 \<and> val c < 2 ^ 31 - 1 \<longrightarrow> (\<exists>s'. sem_post h s = Some (0, s') \<and> tcb s' = tcb s \<and>
      semaphore_array s' = (semaphore_array s)[i := Some (c\<lparr>val := val c + 1\<rparr>)])) \<and>
    (0 < val c \<longrightarrow> (\<exists>s'. sem_wait h s = Some (Returned 0, s') \<and> tcb s' = tcb s \<and>
      semaphore_array s' = (semaphore_array s)[i := Some (c\<lparr>val := val c - 1\<rparr>)]))"
proof -
  note I = lib_invD[OF assms(1)] note p = sem_post_run[OF I(1,2) assms(2)]
  let ?n = "waiting_threads c ! (wait_count c - 1)"
  have l: "length (tcb s) = MAX_THREADS" "thread_count s \<le> MAX_THREADS" using threads_okD(1,3)[OF I(1)] by simp_all
  have "\<exists>s'. sem_post h s = Some (0, s') \<and>
      (\<forall>j < thread_count s. state (tcb s' ! j) = (if j = ?n then READY else state (tcb s ! j))) \<and>
      semaphore_array s' = (semaphore_array s)[i := Some (c\<lparr>wait_count := wait_count c - 1\<rparr>)]" if "0 < wait_count c"
    using p(1)[OF that] l by (simp add: Let_def nth_list_update)
  moreover have "\<exists>s'. sem_post h s = Some (0, s') \<and> tcb s' = tcb s \<and>
      semaphore_array s' = (semaphore_array s)[i := Some (c\<lparr>val := val c + 1\<rparr>)]"
    if "wait_count c = 0" "val c < 2 ^ 31 - 1"
    using p(2)[OF that(1)] that(2) by simp
  moreover have "\<exists>s'. sem_wait h s = Some (Returned 0, s') \<and> tcb s' = tcb s \<and>
      semaphore_array s' = (semaphore_array s)[i := Some (c\<lparr>val := val c - 1\<rparr>)]" if "0 < val c"
    using assms(2) that by (simp add: sem_wait_def Let_def)
  ultimately show ?thesis by blast
qed

lemma sem_post_wait_witness:
  "\<exists>s'. sem_post 0 (demo3 0 READY In_user BLOCKED In_sem_wait 0 [0, 1]) = Some (0, s') \<and>
    state (tcb s' ! 0) = READY \<and> state (tcb s' ! 1) = READY"
proof -
  have inv: "lib_inv (demo3 0 READY In_user BLOCKED In_sem_wait 0 [0, 1])" by (rule demo3_ok) (simp_all add: MAX_THREADS_def)
  from sem_post_wait[OF inv find_demo_sem] show ?thesis
    by (auto simp: demo_sem_def nth_append)
qed

text \<open>C31: the main thread does not wait: when it calls \<open>sem_wait\<close> on a semaphore without a free unit while
  no other thread is ready, the scheduler falls back to it and \<open>sem_wait\<close> returns 0, with the value
  unchanged and without anyone having called \<open>sem_post\<close>.\<close>

theorem main_sem_wait_spurious:
  assumes "lib_inv s" "current_thread s = 0" "find_sem h s = Some (i, c)" "val c \<le> 0"
    "wait_count c < MAX_THREADS" "\<forall>j. 0 < j \<and> j < thread_count s \<longrightarrow> state (tcb s ! j) \<noteq> READY"
  shows "\<exists>s1 s2 c'. sem_wait h s = Some (Switched, s1) \<and> current_thread s1 = 0 \<and> resume s1 = Some s2 \<and>
    at s2 = In_user \<and> rax (cpu s2) = 0 \<and> semaphore_array s2 ! i = Some c' \<and> val c' = val c"
proof -
  note I = lib_invD[OF assms(1)] note f = find_semD[OF I(2) assms(3)]
  note a = threads_okD[OF I(1)]
  let ?q = "queued i c s"
  have nr: "\<not> is_ready ?q j" if "0 < j" "j < thread_count s" for j
    using assms(2,6) that by (simp add: queued_def is_ready_def)
  obtain n s1 where n: "schedule In_sem_wait ?q = Some s1" "current_thread s1 = n"
    "pick (is_ready ?q) (thread_count ?q) (current_thread ?q) = Some n" "at s1 = resume_at (tcb s1 ! n)"
    "tcb s1 = (tcb ?q)[current_thread ?q :=
       (tcb ?q ! current_thread ?q)\<lparr>ctx := setjmp (guard ?q) (cpu ?q), resume_at := In_sem_wait\<rparr>]"
    "semaphore_array s1 = semaphore_array ?q"
    by (rule schedule_spec3[OF queued_ok[OF I(1,2) assms(3-5)], of In_sem_wait]) (simp, rule that)
  have q: "thread_count ?q = thread_count s" "current_thread ?q = 0"
    "semaphore_array ?q = (semaphore_array s)[i := Some (c\<lparr>waiting_threads := (waiting_threads c)[wait_count c := current_thread s],
      wait_count := wait_count c + 1\<rparr>)]" "length (tcb ?q) = MAX_THREADS"
    using assms(2) a(1) by (simp_all add: queued_def)
  have "n = 0"
    by (rule pick_cases[of 0 "thread_count s" "is_ready ?q"]) (use n(3) nr a(2) q in auto)
  then have at1: "at s1 = In_sem_wait" using n(4,5) q(2,4) by (simp add: MAX_THREADS_def)
  have w: "sem_wait h s = Some (Switched, s1)"
    using sem_wait_run[OF I(1,2), of h] assms(3-5) n(1) by simp
  have r: "resume s1 = Some (return_to_user (unlock s1))" using at1 by (simp add: resume_def)
  have "semaphore_array s1 ! i = Some (c\<lparr>waiting_threads := (waiting_threads c)[wait_count c := current_thread s],
      wait_count := wait_count c + 1\<rparr>)"
    using n(6) q(3) f(1) I(2) by (simp add: sems_ok_def)
  then show ?thesis using w r n(2) \<open>n = 0\<close>
    by (intro exI[of _ s1] exI[of _ "return_to_user (unlock s1)"]) (simp add: return_to_user_def)
qed

lemma main_sem_wait_spurious_witness:
  "\<exists>s1 s2 c'. sem_wait 0 (demo3 0 RUNNING In_user EXITED After_exit 0 []) = Some (Switched, s1) \<and>
    current_thread s1 = 0 \<and> resume s1 = Some s2 \<and> at s2 = In_user \<and> rax (cpu s2) = 0 \<and>
    semaphore_array s2 ! 0 = Some c' \<and> val c' = val (demo_sem 0 [])"
proof -
  have inv: "lib_inv (demo3 0 RUNNING In_user EXITED After_exit 0 [])" by (rule demo3_ok) simp_all
  show ?thesis
    by (rule main_sem_wait_spurious[OF inv _ find_demo_sem])
      (auto simp: demo_sem_def MAX_THREADS_def less_2_cases_iff)
qed

text \<open>C34: after \<open>sem_destroy\<close> neither the old value of the semaphore variable nor the new one reaches a
  semaphore: every call on it fails and changes nothing.\<close>

theorem destroyed_semaphore:
  assumes "lib_inv s" "sem_destroy h s = (0, h', s')" "k = h \<or> k = h'"
  shows "sem_wait k s' = Some (Returned (-1), s') \<and> sem_post k s' = Some (-1, s') \<and> sem_destroy k s' = (-1, k, s')"
proof -
  note I = lib_invD[OF assms(1)]
  obtain i c where f: "find_sem h s = Some (i, c)" "h' = -1" "s' = set_sem i None s"
    using assms(2) by (auto simp: sem_destroy_def split: option.splits)
  note fd = find_semD[OF I(2) f(1)]
  have "find_sem h s' = None"
    using fd(1,5) I(2) f(3) by (simp add: find_sem_def Let_def sems_ok_def flip: fd(5))
  moreover have "find_sem (-1) s' = None"
  proof -
    have "(ucast (- 1 :: u64) :: u32) = - 1" by (rule bit_word_eqI) (simp add: bit_ucast_iff bit_minus_1_iff)
    then have "sem_index (- 1) < 0" by (simp add: sem_index_def)
    then show ?thesis by (simp add: find_sem_def Let_def)
  qed
  ultimately have "find_sem k s' = None" using assms(3) f(2) by auto
  then show ?thesis by (simp add: sem_wait_def sem_post_def sem_destroy_def)
qed

lemma destroyed_semaphore_witness:
  "\<exists>s'. sem_destroy 0 (demo3 0 RUNNING In_user READY In_user 4 []) = (0, -1, s') \<and>
    sem_wait 0 s' = Some (Returned (-1), s') \<and> sem_post 0 s' = Some (-1, s') \<and> sem_destroy 0 s' = (-1, 0, s')"
proof -
  let ?s = "demo3 0 RUNNING In_user READY In_user 4 []"
  have inv: "lib_inv ?s" by (rule demo3_ok) simp_all
  have d: "sem_destroy 0 ?s = (0, -1, set_sem 0 None ?s)" by (simp add: sem_destroy_def)
  from destroyed_semaphore[OF inv d] d show ?thesis by blast
qed

text \<open>C37: round robin is fair: as long as threads only yield, every ready thread runs within as many
  switches as there are threads.\<close>

theorem schedule_fair3:
  assumes "reachable s" "t < thread_count s" "is_ready s t \<or> t = 0"
  shows "\<exists>k s'. 0 < k \<and> k \<le> thread_count s \<and> iter k yield s = Some s' \<and> current_thread s' = t"
  using rr.fair[of s t] lib_invD(1,2)[OF reachable_inv3[OF assms(1)]] assms(2,3) by (simp add: yield_inv_def)

lemma schedule_fair3_witness:
  "\<exists>k s'. 0 < k \<and> k \<le> thread_count booted3 \<and> iter k yield booted3 = Some s' \<and> current_thread s' = 0"
  by (rule schedule_fair3[OF booted3_reachable]) simp_all

end
