(* ===== verification/HashTable.thy ===== *)
theory HashTable
  imports Prelude
begin

text \<open>
  The global hash table of \<^verbatim>\<open>EC440_HW4/tls.c\<close>: an array of \<open>HASH_SIZE\<close> singly linked lists of
  elements, each with a thread id and a pointer to that thread's storage.  A chain is owned by its
  array slot alone, so it is a list; the value type stands for what \<^verbatim>\<open>tls\<close> points to.  The contract
  \<open>keyed_store\<close> is what the storage calls use of it.
\<close>

section \<open>The code\<close>

definition HASH_SIZE :: nat where "HASH_SIZE = 128"

definition hash_func :: "u64 \<Rightarrow> nat" where
  "hash_func tid = unat (tid mod of_nat HASH_SIZE)"

record 'v hash_element =
  elem_tid :: u64
  elem_tls :: 'v

type_synonym 'v hash_table = "'v hash_element list list"

text \<open>The loop over a chain.\<close>

fun find_elem :: "u64 \<Rightarrow> 'v hash_element list \<Rightarrow> 'v option" where
  "find_elem tid [] = None"
| "find_elem tid (e # es) = (if elem_tid e = tid then Some (elem_tls e) else find_elem tid es)"

definition find_tls :: "'v hash_table \<Rightarrow> u64 \<Rightarrow> 'v option" where
  "find_tls t tid = find_elem tid (t ! hash_func tid)"

text \<open>A new element becomes the head of its chain.\<close>

definition push_elem :: "u64 \<Rightarrow> 'v \<Rightarrow> 'v hash_table \<Rightarrow> 'v hash_table" where
  "push_elem tid v t =
     (let index = hash_func tid in t[index := \<lparr>elem_tid = tid, elem_tls = v\<rparr> # t ! index])"

text \<open>Unlinking with \<^verbatim>\<open>prev\<close> and \<^verbatim>\<open>current\<close>: the first element of the thread leaves the chain.\<close>

fun unlink_elem :: "u64 \<Rightarrow> 'v hash_element list \<Rightarrow> 'v hash_element list" where
  "unlink_elem tid [] = []"
| "unlink_elem tid (e # es) = (if elem_tid e = tid then es else e # unlink_elem tid es)"

definition remove_elem :: "u64 \<Rightarrow> 'v hash_table \<Rightarrow> 'v hash_table" where
  "remove_elem tid t = (let index = hash_func tid in t[index := unlink_elem tid (t ! index)])"

text \<open>Writing through the \<^verbatim>\<open>tls\<close> pointer of the first element of the thread.\<close>

fun set_elem :: "u64 \<Rightarrow> 'v \<Rightarrow> 'v hash_element list \<Rightarrow> 'v hash_element list" where
  "set_elem tid v [] = []"
| "set_elem tid v (e # es) =
     (if elem_tid e = tid then e\<lparr>elem_tls := v\<rparr> # es else e # set_elem tid v es)"

definition set_tls :: "u64 \<Rightarrow> 'v \<Rightarrow> 'v hash_table \<Rightarrow> 'v hash_table" where
  "set_tls tid v t = (let index = hash_func tid in t[index := set_elem tid v (t ! index)])"

definition empty_table :: "'v hash_table" where
  "empty_table = replicate HASH_SIZE []"

section \<open>The contract\<close>

locale keyed_store =
  fixes empty :: 't
    and find :: "'t \<Rightarrow> 'k \<Rightarrow> 'v option"
    and insert :: "'k \<Rightarrow> 'v \<Rightarrow> 't \<Rightarrow> 't"
    and remove :: "'k \<Rightarrow> 't \<Rightarrow> 't"
    and replace :: "'k \<Rightarrow> 'v \<Rightarrow> 't \<Rightarrow> 't"
    and invar :: "'t \<Rightarrow> bool"
  assumes invar_empty: "invar empty"
    and find_empty: "find empty = (\<lambda>_. None)"
    and invar_insert: "invar t \<Longrightarrow> find t k = None \<Longrightarrow> invar (insert k v t)"
    and find_insert: "invar t \<Longrightarrow> find t k = None \<Longrightarrow> find (insert k v t) = (find t)(k \<mapsto> v)"
    and invar_remove: "invar t \<Longrightarrow> invar (remove k t)"
    and find_remove: "invar t \<Longrightarrow> find (remove k t) = (find t)(k := None)"
    and invar_replace: "invar t \<Longrightarrow> invar (replace k v t)"
    and find_replace: "invar t \<Longrightarrow> find t k \<noteq> None \<Longrightarrow> find (replace k v t) = (find t)(k \<mapsto> v)"
    and finite_keys: "invar t \<Longrightarrow> finite (dom (find t))"
begin

lemma insert_remove: "invar t \<Longrightarrow> find t k = None \<Longrightarrow> find (remove k (insert k v t)) = find t"
  by (simp add: find_insert find_remove invar_insert fun_upd_idem)

lemma remove_count:
  "invar t \<Longrightarrow> find t k \<noteq> None \<Longrightarrow> Suc (card (dom (find (remove k t)))) = card (dom (find t))"
  using finite_keys[of t] by (auto simp: find_remove domIff card_Suc_Diff1 simp del: card_Diff_insert)

lemma insert_count:
  "invar t \<Longrightarrow> find t k = None \<Longrightarrow> card (dom (find (insert k v t))) = Suc (card (dom (find t)))"
  using finite_keys[of t] by (simp add: find_insert domIff)

lemmas store_simps = find_empty find_insert find_remove find_replace
lemmas store_invar = invar_empty invar_insert invar_remove invar_replace

end

section \<open>The table fulfils it\<close>

definition chain_ok :: "nat \<Rightarrow> 'v hash_element list \<Rightarrow> bool" where
  "chain_ok i es \<longleftrightarrow> distinct (map elem_tid es) \<and> (\<forall>e \<in> set es. hash_func (elem_tid e) = i)"

definition table_ok :: "'v hash_table \<Rightarrow> bool" where
  "table_ok t \<longleftrightarrow> length t = HASH_SIZE \<and> (\<forall>i < HASH_SIZE. chain_ok i (t ! i))"

lemma hash_func_less [simp]: "hash_func tid < HASH_SIZE"
  by (simp add: hash_func_def HASH_SIZE_def unat_mod)

lemma find_elem_None [simp]: "find_elem tid es = None \<longleftrightarrow> tid \<notin> elem_tid ` set es"
  by (induction es) auto

lemma find_elem_unlink:
  "distinct (map elem_tid es) \<Longrightarrow> find_elem k (unlink_elem tid es) = (if k = tid then None else find_elem k es)"
  by (induction es) auto

lemma find_elem_set:
  "tid \<in> elem_tid ` set es \<Longrightarrow> find_elem k (set_elem tid v es) = (if k = tid then Some v else find_elem k es)"
  by (induction es) auto

lemma set_elem_tids [simp]: "map elem_tid (set_elem tid v es) = map elem_tid es"
  by (induction es) auto

lemma unlink_sub: "set (unlink_elem tid es) \<subseteq> set es"
  by (induction es) auto

lemma unlink_distinct: "distinct (map elem_tid es) \<Longrightarrow> distinct (map elem_tid (unlink_elem tid es))"
  using unlink_sub[of tid] by (induction es) fastforce+

lemma chain_ok_set: "chain_ok i es \<Longrightarrow> chain_ok i (set_elem tid v es)"
  unfolding chain_ok_def set_elem_tids by (metis (no_types, lifting) image_iff list.set_map set_elem_tids)

lemma find_tls_update:
  assumes "table_ok t"
  shows "find_tls (t[hash_func tid := es]) k =
    (if hash_func k = hash_func tid then find_elem k es else find_elem k (t ! hash_func k))"
  using assms hash_func_less[of tid] by (simp add: find_tls_def table_ok_def nth_list_update)

lemma table_ok_update: "table_ok t \<Longrightarrow> chain_ok i es \<Longrightarrow> table_ok (t[i := es])"
  by (cases "i < HASH_SIZE") (auto simp: table_ok_def nth_list_update)

lemma table_okD: "table_ok t \<Longrightarrow> chain_ok (hash_func tid) (t ! hash_func tid)"
  by (simp add: table_ok_def)

lemma finite_find_tls: "table_ok t \<Longrightarrow> finite (dom (find_tls t))"
  by (rule finite)

interpretation tls_table: keyed_store empty_table find_tls push_elem remove_elem set_tls table_ok
proof unfold_locales
  fix t :: "'v hash_table" and k v
  note c = table_okD[of t k]
  show "table_ok (empty_table :: 'v hash_table)"
    by (simp add: table_ok_def empty_table_def chain_ok_def)
  show "find_tls (empty_table :: 'v hash_table) = (\<lambda>_. None)"
    by (simp add: find_tls_def empty_table_def fun_eq_iff)
  { assume a: "table_ok t" "find_tls t k = None"
    then have "chain_ok (hash_func k) (\<lparr>elem_tid = k, elem_tls = v\<rparr> # t ! hash_func k)"
      using c by (auto simp: chain_ok_def find_tls_def)
    with a show "table_ok (push_elem k v t)" by (simp add: push_elem_def table_ok_update Let_def)
    from a(1) show "find_tls (push_elem k v t) = (find_tls t)(k \<mapsto> v)"
      by (auto simp: push_elem_def find_tls_update fun_eq_iff Let_def find_tls_def[of t]) }
  { assume a: "table_ok t"
    have "chain_ok (hash_func k) (unlink_elem k (t ! hash_func k))"
      using c[OF a] unlink_sub[of k "t ! hash_func k"] by (auto simp: chain_ok_def unlink_distinct)
    with a show "table_ok (remove_elem k t)" by (simp add: remove_elem_def table_ok_update Let_def)
    from a c show "find_tls (remove_elem k t) = (find_tls t)(k := None)"
      by (auto simp: remove_elem_def find_tls_update fun_eq_iff Let_def find_elem_unlink chain_ok_def find_tls_def[of t])
    from a c show "table_ok (set_tls k v t)"
      by (simp add: set_tls_def table_ok_update chain_ok_set Let_def)
    assume "find_tls t k \<noteq> None"
    with a show "find_tls (set_tls k v t) = (find_tls t)(k \<mapsto> v)"
      by (auto simp: set_tls_def find_tls_update fun_eq_iff Let_def find_elem_set find_tls_def[of t]) }
  show "finite (dom (find_tls t))" if "table_ok t" using that by (rule finite_find_tls)
qed

end
