(* ===== verification/Tls.thy ===== *)
theory Tls
  imports HashTable
begin

text \<open>
  The thread local storage of \<^verbatim>\<open>EC440_HW4/tls.c\<close>.  A storage area is a row of pages; a \<^verbatim>\<open>page_t\<close> is
  shared between areas after \<open>tls_clone\<close>, so it lives in a heap of its own, and an area holds
  pointers into it.  The virtual memory of the process maps page addresses to protection and
  contents.  The kernel is a parameter: the page size, whether \<^verbatim>\<open>sigaction\<close> succeeds, and the address
  \<^verbatim>\<open>mmap\<close> picks for given mappings.  The library calls are not interrupted by one another.
\<close>

section \<open>State\<close>

record page =
  address :: u64
  ref_count :: int

record tls =
  tls_tid :: u64
  tsize :: u32
  page_num :: u32
  pages :: "nat list"

record vpage =
  readable :: bool
  writable :: bool
  contents :: "byte list"

record process =
  hash_table :: "tls hash_table"
  page_size :: u32
  initialized :: bool
  page_heap :: "nat \<Rightarrow> page option"
  next_ptr :: nat
  vm :: "u64 \<Rightarrow> vpage option"

record kernel =
  getpagesize :: u32
  sigaction_ok :: bool
  mmap_at :: "(u64 \<Rightarrow> vpage option) \<Rightarrow> u64 option"

text \<open>
  How a call can end other than by returning: undefined behaviour, \<^verbatim>\<open>exit(1)\<close>, the default action of
  \<^verbatim>\<open>SIGSEGV\<close>, and \<^verbatim>\<open>pthread_exit\<close> out of the signal handler.
\<close>

datatype stop = Undefined | Exit_process | Killed | Exit_thread process

fun and_then :: "'e + 'a \<Rightarrow> ('a \<Rightarrow> 'e + 'b) \<Rightarrow> 'e + 'b" where
  "and_then (Inl e) f = Inl e"
| "and_then (Inr x) f = f x"

section \<open>Memory and the signal handler\<close>

definition MAP_FAILED :: u64 where "MAP_FAILED = -1"

definition mmap :: "kernel \<Rightarrow> bool \<Rightarrow> bool \<Rightarrow> process \<Rightarrow> u64 \<times> process" where
  "mmap k r w s =
     (case mmap_at k (vm s) of None \<Rightarrow> (MAP_FAILED, s)
      | Some a \<Rightarrow> (a, s\<lparr>vm := (vm s)(a \<mapsto>
          \<lparr>readable = r, writable = w, contents = replicate (unat (page_size s)) 0\<rparr>)\<rparr>))"

definition munmap :: "u64 \<Rightarrow> process \<Rightarrow> process" where
  "munmap a s = s\<lparr>vm := (vm s)(a := None)\<rparr>"

text \<open>\<^verbatim>\<open>mprotect\<close> fails on a page that is not mapped.\<close>

definition mprotect :: "u64 \<Rightarrow> bool \<Rightarrow> bool \<Rightarrow> process \<Rightarrow> process option" where
  "mprotect a r w s =
     (case vm s a of None \<Rightarrow> None
      | Some v \<Rightarrow> Some (s\<lparr>vm := (vm s)(a \<mapsto> v\<lparr>readable := r, writable := w\<rparr>)\<rparr>))"

text \<open>The mask \<^verbatim>\<open>~(page_size - 1)\<close> is an \<^verbatim>\<open>int\<close>, sign-extended to 64 bits.\<close>

definition page_of :: "process \<Rightarrow> u64 \<Rightarrow> u64" where
  "page_of s a = a AND scast (NOT (page_size s - 1))"

definition handler_finds :: "process \<Rightarrow> u64 \<Rightarrow> bool" where
  "handler_finds s pa = list_ex (list_ex (\<lambda>e.
     list_ex (\<lambda>p. map_option address (page_heap s p) = Some pa) (pages (elem_tls e)))) (hash_table s)"

definition tls_handle_page_fault :: "u64 \<Rightarrow> process \<Rightarrow> stop" where
  "tls_handle_page_fault fault_addr s =
     (if handler_finds s (page_of s fault_addr) then Exit_thread s else Killed)"

text \<open>An access by the processor; an access that is not permitted raises the signal.\<close>

definition load :: "u64 \<Rightarrow> process \<Rightarrow> stop + byte" where
  "load a s =
     (case vm s (page_of s a) of None \<Rightarrow> Inl (tls_handle_page_fault a s)
      | Some v \<Rightarrow> if readable v then Inr (contents v ! unat (a - page_of s a))
                  else Inl (tls_handle_page_fault a s))"

definition store :: "u64 \<Rightarrow> byte \<Rightarrow> process \<Rightarrow> stop + process" where
  "store a b s =
     (case vm s (page_of s a) of None \<Rightarrow> Inl (tls_handle_page_fault a s)
      | Some v \<Rightarrow> if writable v
          then Inr (s\<lparr>vm := (vm s)(page_of s a \<mapsto> v\<lparr>contents := (contents v)[unat (a - page_of s a) := b]\<rparr>)\<rparr>)
          else Inl (tls_handle_page_fault a s))"

text \<open>\<^verbatim>\<open>memcpy\<close> of a whole page.\<close>

definition copy_page :: "u64 \<Rightarrow> u64 \<Rightarrow> process \<Rightarrow> stop + process" where
  "copy_page dst src s =
     (case vm s src of None \<Rightarrow> Inl (tls_handle_page_fault src s)
      | Some v \<Rightarrow> if \<not> readable v then Inl (tls_handle_page_fault src s)
        else case vm s dst of None \<Rightarrow> Inl (tls_handle_page_fault dst s)
        | Some w \<Rightarrow> if \<not> writable w then Inl (tls_handle_page_fault dst s)
            else Inr (s\<lparr>vm := (vm s)(dst \<mapsto> w\<lparr>contents := contents v\<rparr>)\<rparr>))"

section \<open>Start and protection\<close>

definition tls_init :: "kernel \<Rightarrow> process \<Rightarrow> stop + process" where
  "tls_init k s =
     (let s = s\<lparr>page_size := getpagesize k\<rparr> in
      if \<not> sigaction_ok k then Inl Exit_process else Inr (s\<lparr>initialized := True\<rparr>))"

definition set_protection :: "bool \<Rightarrow> nat \<Rightarrow> process \<Rightarrow> stop + process" where
  "set_protection rw p s =
     (case page_heap s p of None \<Rightarrow> Inl Undefined
      | Some pg \<Rightarrow> (case mprotect (address pg) rw rw s of None \<Rightarrow> Inl Exit_process | Some s' \<Rightarrow> Inr s'))"

definition tls_protect :: "nat \<Rightarrow> process \<Rightarrow> stop + process" where
  "tls_protect = set_protection False"

definition tls_unprotect :: "nat \<Rightarrow> process \<Rightarrow> stop + process" where
  "tls_unprotect = set_protection True"

text \<open>A loop that performs an action for every page of an area.\<close>

primrec for_pages :: "(nat \<Rightarrow> process \<Rightarrow> stop + process) \<Rightarrow> nat list \<Rightarrow> process \<Rightarrow> stop + process" where
  "for_pages f [] s = Inr s"
| "for_pages f (p # ps) s = and_then (f p s) (for_pages f ps)"

section \<open>Creating and destroying\<close>

primrec create_pages :: "kernel \<Rightarrow> nat \<Rightarrow> nat list \<Rightarrow> process \<Rightarrow> stop + (nat list \<times> process)" where
  "create_pages k 0 ps s = Inr (ps, s)"
| "create_pages k (Suc n) ps s =
     (let (a, s) = mmap k False False s in
      if a = MAP_FAILED then Inl Exit_process
      else let p = next_ptr s in
        create_pages k n (ps @ [p])
          (s\<lparr>page_heap := (page_heap s)(p \<mapsto> \<lparr>address = a, ref_count = 1\<rparr>), next_ptr := p + 1\<rparr>))"

definition tls_create :: "kernel \<Rightarrow> u64 \<Rightarrow> u32 \<Rightarrow> process \<Rightarrow> stop + (int \<times> process)" where
  "tls_create k tid sz s =
     and_then (if \<not> initialized s then tls_init k s else Inr s) (\<lambda>s.
       if sz \<le> 0 then Inr (-1, s)
       else case find_tls (hash_table s) tid of Some _ \<Rightarrow> Inr (-1, s)
       | None \<Rightarrow>
           let n = (sz + page_size s - 1) div page_size s in
           and_then (create_pages k (unat n) [] s) (\<lambda>(ps, s).
             Inr (0, s\<lparr>hash_table := push_elem tid
               \<lparr>tls_tid = tid, tsize = sz, page_num = n, pages = ps\<rparr> (hash_table s)\<rparr>)))"

definition release_page :: "nat \<Rightarrow> process \<Rightarrow> stop + process" where
  "release_page p s =
     (case page_heap s p of None \<Rightarrow> Inl Undefined
      | Some pg \<Rightarrow>
          let c = ref_count pg - 1 in
          if c = 0 then Inr ((munmap (address pg) s)\<lparr>page_heap := (page_heap s)(p := None)\<rparr>)
          else Inr (s\<lparr>page_heap := (page_heap s)(p \<mapsto> pg\<lparr>ref_count := c\<rparr>)\<rparr>))"

definition tls_destroy :: "u64 \<Rightarrow> process \<Rightarrow> stop + (int \<times> process)" where
  "tls_destroy tid s =
     (case find_tls (hash_table s) tid of None \<Rightarrow> Inr (-1, s)
      | Some t \<Rightarrow>
          and_then (for_pages release_page (pages t) s) (\<lambda>s.
            Inr (0, s\<lparr>hash_table := remove_elem tid (hash_table s)\<rparr>)))"

section \<open>Reading and writing\<close>

text \<open>One round of the copying loop for each remaining byte, with the loop variable \<open>i\<close>.\<close>

definition page_at :: "nat list \<Rightarrow> u32 \<Rightarrow> process \<Rightarrow> stop + (nat \<times> page)" where
  "page_at ps x s =
     (case arr_get ps (unat (x div page_size s)) of None \<Rightarrow> Inl Undefined
      | Some p \<Rightarrow> (case page_heap s p of None \<Rightarrow> Inl Undefined | Some pg \<Rightarrow> Inr (p, pg)))"

primrec read_bytes :: "nat list \<Rightarrow> u32 \<Rightarrow> nat \<Rightarrow> u32 \<Rightarrow> byte list \<Rightarrow> process \<Rightarrow> stop + byte list" where
  "read_bytes ps offset 0 i buf s = Inr buf"
| "read_bytes ps offset (Suc n) i buf s =
     and_then (page_at ps (offset + i) s) (\<lambda>(p, pg).
     and_then (load (address pg + ucast ((offset + i) mod page_size s)) s) (\<lambda>b.
       case arr_set buf (unat i) b of None \<Rightarrow> Inl Undefined
       | Some buf \<Rightarrow> read_bytes ps offset n (i + 1) buf s))"

definition tls_read :: "u64 \<Rightarrow> u32 \<Rightarrow> u32 \<Rightarrow> byte list \<Rightarrow> process \<Rightarrow> stop + (int \<times> byte list \<times> process)" where
  "tls_read tid offset len buf s =
     (case find_tls (hash_table s) tid of None \<Rightarrow> Inr (-1, buf, s)
      | Some t \<Rightarrow>
          if tsize t < offset + len then Inr (-1, buf, s)
          else and_then (for_pages tls_unprotect (pages t) s) (\<lambda>s.
            and_then (read_bytes (pages t) offset (unat len) 0 buf s) (\<lambda>buf.
            and_then (for_pages tls_protect (pages t) s) (\<lambda>s. Inr (0, buf, s)))))"

text \<open>
  The private copy of a shared page; the result is the page to write to and the array of page
  pointers, which belongs to the area in the table.
\<close>

definition own_page :: "kernel \<Rightarrow> u64 \<Rightarrow> tls \<Rightarrow> nat list \<Rightarrow> u32 \<Rightarrow> process \<Rightarrow>
    stop + (page \<times> nat list \<times> process)" where
  "own_page k tid t ps x s =
     and_then (page_at ps x s) (\<lambda>(p, pg).
       if 1 < ref_count pg then
         let c = next_ptr s; (a, s) = mmap k False True s in
         and_then (copy_page a (address pg) s) (\<lambda>s.
           let copy = \<lparr>address = a, ref_count = 1\<rparr>;
               ps = ps[unat (x div page_size s) := c];
               s = s\<lparr>page_heap := (page_heap s)(c \<mapsto> copy, p \<mapsto> pg\<lparr>ref_count := ref_count pg - 1\<rparr>),
                     next_ptr := c + 1, hash_table := set_tls tid (t\<lparr>pages := ps\<rparr>) (hash_table s)\<rparr>
           in and_then (tls_protect p s) (\<lambda>s. Inr (copy, ps, s)))
       else Inr (pg, ps, s))"

primrec write_bytes :: "kernel \<Rightarrow> u64 \<Rightarrow> tls \<Rightarrow> u32 \<Rightarrow> byte list \<Rightarrow> nat \<Rightarrow> u32 \<Rightarrow> nat list \<Rightarrow> process \<Rightarrow>
    stop + (nat list \<times> process)" where
  "write_bytes k tid t offset buf 0 i ps s = Inr (ps, s)"
| "write_bytes k tid t offset buf (Suc n) i ps s =
     and_then (own_page k tid t ps (offset + i) s) (\<lambda>(pg, ps, s).
       case arr_get buf (unat i) of None \<Rightarrow> Inl Undefined
       | Some b \<Rightarrow>
           and_then (store (address pg + ucast ((offset + i) mod page_size s)) b s) (\<lambda>s.
             write_bytes k tid t offset buf n (i + 1) ps s))"

definition tls_write :: "kernel \<Rightarrow> u64 \<Rightarrow> u32 \<Rightarrow> u32 \<Rightarrow> byte list \<Rightarrow> process \<Rightarrow> stop + (int \<times> process)" where
  "tls_write k tid offset len buf s =
     (case find_tls (hash_table s) tid of None \<Rightarrow> Inr (-1, s)
      | Some t \<Rightarrow>
          if tsize t < offset + len then Inr (-1, s)
          else and_then (for_pages tls_unprotect (pages t) s) (\<lambda>s.
            and_then (write_bytes k tid t offset buf (unat len) 0 (pages t) s) (\<lambda>(ps, s).
            and_then (for_pages tls_protect ps s) (\<lambda>s. Inr (0, s)))))"

section \<open>Cloning\<close>

text \<open>Incrementing \<^verbatim>\<open>INT_MAX\<close> is undefined.\<close>

definition share_page :: "nat \<Rightarrow> process \<Rightarrow> stop + process" where
  "share_page p s =
     (case page_heap s p of None \<Rightarrow> Inl Undefined
      | Some pg \<Rightarrow> if ref_count pg = 2 ^ 31 - 1 then Inl Undefined
          else Inr (s\<lparr>page_heap := (page_heap s)(p \<mapsto> pg\<lparr>ref_count := ref_count pg + 1\<rparr>)\<rparr>))"

definition tls_clone :: "u64 \<Rightarrow> u64 \<Rightarrow> process \<Rightarrow> stop + (int \<times> process)" where
  "tls_clone self_tid tid s =
     (case (find_tls (hash_table s) tid, find_tls (hash_table s) self_tid) of
        (Some src, None) \<Rightarrow>
          and_then (for_pages share_page (pages src) s) (\<lambda>s.
            Inr (0, s\<lparr>hash_table := push_elem self_tid
              \<lparr>tls_tid = self_tid, tsize = tsize src, page_num = page_num src, pages = pages src\<rparr>
              (hash_table s)\<rparr>))
      | _ \<Rightarrow> Inr (-1, s))"

end
