(* ===== verification/TlsInv.thy ===== *)
theory TlsInv
  imports Tls
begin

text \<open>
  The invariant of the thread local storage, and the lemmas about page addresses, protection and
  the bytes of an area that the proofs of the operations share.
\<close>

section \<open>Page addresses\<close>

definition psize_ok :: "u32 \<Rightarrow> bool" where
  "psize_ok w \<longleftrightarrow> (\<exists>n. 1 \<le> n \<and> n \<le> 30 \<and> w = 2 ^ n)"

abbreviation psz :: "process \<Rightarrow> nat" where
  "psz s \<equiv> unat (page_size s)"

text \<open>What the kernel documents: \<^verbatim>\<open>mmap\<close> returns unused page-aligned addresses.\<close>

definition kernel_ok :: "kernel \<Rightarrow> bool" where
  "kernel_ok k \<longleftrightarrow> psize_ok (getpagesize k) \<and> sigaction_ok k \<and>
     (\<forall>m a. mmap_at k m = Some a \<longrightarrow> m a = None \<and> a AND scast (NOT (getpagesize k - 1)) = a)"

lemma unat_psize:
  assumes "psize_ok w"
  obtains n where "1 \<le> n" "n \<le> 30" "unat w = 2 ^ n" "w = 2 ^ n"
proof -
  obtain n where n: "1 \<le> n" "n \<le> 30" "w = 2 ^ n" using assms by (auto simp: psize_ok_def)
  have "(2::nat) ^ n < 2 ^ 32" using n(2) by (intro power_strict_increasing) auto
  then have "unat (of_nat (2 ^ n) :: u32) = 2 ^ n" by (rule unat_of_nat_u32)
  then have "unat w = 2 ^ n" using n(3) by simp
  with n that show thesis by blast
qed

lemma psize_pos: "psize_ok w \<Longrightarrow> 0 < unat w"
  by (erule unat_psize) simp

lemma mask_scast:
  "n \<le> 30 \<Longrightarrow> (scast (NOT (2 ^ n - 1 :: u32)) :: u64) = NOT (mask n)"
  unfolding mask_eq_exp_minus_1[symmetric] by (rule bit_word_eqI) (auto simp: bit_simps min_def)

lemma split_base:
  fixes a b :: u64
  assumes "a AND NOT (mask n) = a" "unat b < 2 ^ n" "n < 64"
  shows "(a + b) AND NOT (mask n) = a"
proof -
  have b: "take_bit n b = b"
    by (subst word_unat_eq_iff) (use assms(2) in \<open>simp add: unsigned_take_bit_eq take_bit_nat_eq_self\<close>)
  have tb: "\<not> bit b i" if "n \<le> i" for i using b that by (metis bit_take_bit_iff not_less)
  have ta: "\<not> bit a i" if "i < n" for i
    using arg_cong[OF assms(1), of "\<lambda>w. bit w i"] that by (auto simp: bit_simps)
  have "a AND b = 0" by (rule bit_word_eqI, simp add: bit_simps) (metis ta tb not_less)
  then have "a + b = a OR b" by (simp add: disjunctive_add_eq_or)
  then show ?thesis by simp (rule bit_word_eqI, simp add: bit_simps, metis ta tb not_less)
qed

text \<open>An address inside a page determines the page and the offset.\<close>

lemma page_of_inside:
  fixes x :: u32
  assumes "psize_ok (page_size s)" "page_of s a = a" "unat x < psz s"
  shows "page_of s (a + ucast x) = a" "unat (a + ucast x - a) = unat x"
proof -
  obtain n where n: "1 \<le> n" "n \<le> 30" "psz s = 2 ^ n" "page_size s = 2 ^ n"
    by (rule unat_psize[OF assms(1)])
  have m: "page_of s b = b AND NOT (mask n)" for b using mask_scast[OF n(2)] n(4) by (simp add: page_of_def)
  have "unat x < 2 ^ 64" using unsigned_less[of x, where 'a = nat] by simp
  then have "unat (ucast x :: u64) = unat x" by (simp add: unsigned_ucast_eq take_bit_nat_eq_self)
  then show "page_of s (a + ucast x) = a" "unat (a + ucast x - a) = unat x"
    using split_base[of a n "ucast x"] assms(2,3) n m by simp_all
qed

lemma failed_not_aligned: "psize_ok (page_size s) \<Longrightarrow> page_of s MAP_FAILED \<noteq> MAP_FAILED"
proof (erule unat_psize)
  fix n assume n: "(1::nat) \<le> n" "n \<le> 30" "page_size s = 2 ^ n"
  have "\<not> bit (page_of s MAP_FAILED) 0" using n mask_scast[OF n(2)] by (simp add: page_of_def bit_simps)
  moreover have "bit MAP_FAILED 0" by (simp add: MAP_FAILED_def)
  ultimately show "page_of s MAP_FAILED \<noteq> MAP_FAILED" by metis
qed

section \<open>The invariant\<close>

text \<open>\<open>A\<close> gives the pages of every thread's area; while an area is built or released it differs from the table.\<close>

type_synonym page_lists = "u64 \<Rightarrow> nat list option"

definition users :: "page_lists \<Rightarrow> nat \<Rightarrow> u64 set" where
  "users A p = {t. \<exists>ps. A t = Some ps \<and> p \<in> set ps}"

definition page_ok :: "page_lists \<Rightarrow> process \<Rightarrow> nat \<Rightarrow> page \<Rightarrow> bool" where
  "page_ok A s p pg \<longleftrightarrow> p < next_ptr s \<and> ref_count pg = int (card (users A p)) \<and> users A p \<noteq> {} \<and>
     page_of s (address pg) = address pg \<and>
     (\<exists>v. vm s (address pg) = Some v \<and> length (contents v) = psz s)"

definition addresses :: "process \<Rightarrow> u64 set" where
  "addresses s = {address pg | p pg. page_heap s p = Some pg}"

text \<open>
  \<open>U\<close> are the pages of the process that are none of the library's.  Every page of the library is
  used by some area, its reference count is the number of its users, and different pages have
  different addresses.
\<close>

definition wf_pages :: "u64 set \<Rightarrow> page_lists \<Rightarrow> process \<Rightarrow> bool" where
  "wf_pages U A s \<longleftrightarrow> psize_ok (page_size s) \<and>
     (\<forall>t ps. A t = Some ps \<longrightarrow> distinct ps \<and> set ps \<subseteq> dom (page_heap s)) \<and>
     (\<forall>p pg. page_heap s p = Some pg \<longrightarrow> page_ok A s p pg) \<and>
     inj_on (\<lambda>p. address (the (page_heap s p))) (dom (page_heap s)) \<and>
     dom (vm s) = U \<union> addresses s \<and> U \<inter> addresses s = {}"

definition frame :: "process \<Rightarrow> nat \<Rightarrow> vpage option" where
  "frame s p = (case page_heap s p of None \<Rightarrow> None | Some pg \<Rightarrow> vm s (address pg))"

definition page_bytes :: "process \<Rightarrow> nat \<Rightarrow> byte list" where
  "page_bytes s p = (case frame s p of None \<Rightarrow> [] | Some v \<Rightarrow> contents v)"

definition area_bytes :: "process \<Rightarrow> nat list \<Rightarrow> byte list" where
  "area_bytes s ps = concat (map (page_bytes s) ps)"

text \<open>The pages in \<open>P\<close> are open for a running call, all others allow no access.\<close>

definition sealed :: "nat set \<Rightarrow> page_lists \<Rightarrow> process \<Rightarrow> bool" where
  "sealed P A s \<longleftrightarrow> (\<forall>p v. frame s p = Some v \<longrightarrow>
     (if p \<in> P then writable v \<and> (1 < card (users A p) \<longrightarrow> readable v) else \<not> readable v \<and> \<not> writable v))"

abbreviation area :: "process \<Rightarrow> u64 \<Rightarrow> tls option" where
  "area s \<equiv> find_tls (hash_table s)"

definition page_lists :: "process \<Rightarrow> page_lists" where
  "page_lists s t = map_option pages (area s t)"

definition area_ok :: "process \<Rightarrow> u64 \<Rightarrow> tls \<Rightarrow> bool" where
  "area_ok s t a \<longleftrightarrow> tls_tid a = t \<and> length (pages a) = unat (page_num a) \<and>
     unat (tsize a) \<le> psz s * length (pages a) \<and> psz s * length (pages a) < unat (tsize a) + psz s"

definition table_inv :: "process \<Rightarrow> bool" where
  "table_inv s \<longleftrightarrow> table_ok (hash_table s) \<and> (\<forall>t a. area s t = Some a \<longrightarrow> area_ok s t a)"

definition tls_inv :: "kernel \<Rightarrow> u64 set \<Rightarrow> process \<Rightarrow> bool" where
  "tls_inv k U s \<longleftrightarrow>
     (if initialized s
      then table_inv s \<and> wf_pages U (page_lists s) s \<and> sealed {} (page_lists s) s \<and> page_size s = getpagesize k
      else hash_table s = empty_table \<and> page_heap s = (\<lambda>_. None) \<and> dom (vm s) = U)"

text \<open>What a thread has stored.\<close>

definition abs_tls :: "process \<Rightarrow> u64 \<Rightarrow> byte list option" where
  "abs_tls s t = map_option (\<lambda>a. take (unat (tsize a)) (area_bytes s (pages a))) (area s t)"

section \<open>Consequences\<close>

lemma wf_pagesD:
  assumes "wf_pages U A s"
  shows "psize_ok (page_size s)" "A t = Some ps \<Longrightarrow> distinct ps" "A t = Some ps \<Longrightarrow> set ps \<subseteq> dom (page_heap s)"
    "page_heap s p = Some pg \<Longrightarrow> page_ok A s p pg"
    "page_heap s p = Some pg \<Longrightarrow> page_heap s q = Some pg' \<Longrightarrow> address pg = address pg' \<longleftrightarrow> p = q"
    "dom (vm s) = U \<union> addresses s" "U \<inter> addresses s = {}"
proof -
  show "psize_ok (page_size s)" "A t = Some ps \<Longrightarrow> distinct ps" "A t = Some ps \<Longrightarrow> set ps \<subseteq> dom (page_heap s)"
    "page_heap s p = Some pg \<Longrightarrow> page_ok A s p pg"
    "dom (vm s) = U \<union> addresses s" "U \<inter> addresses s = {}"
    using assms by (simp_all add: wf_pages_def)
  have "inj_on (\<lambda>p. address (the (page_heap s p))) (dom (page_heap s))" using assms by (simp add: wf_pages_def)
  from inj_on_eq_iff[OF this, of p q]
  show "address pg = address pg' \<longleftrightarrow> p = q" if "page_heap s p = Some pg" "page_heap s q = Some pg'"
    using that by auto
qed

lemma page_okD:
  assumes "page_ok A s p pg"
  shows "p < next_ptr s" "ref_count pg = int (card (users A p))" "users A p \<noteq> {}"
    "page_of s (address pg) = address pg" "\<exists>v. vm s (address pg) = Some v \<and> length (contents v) = psz s"
  using assms by (auto simp: page_ok_def)

lemma in_addresses: "page_heap s p = Some pg \<Longrightarrow> address pg \<in> addresses s"
  by (auto simp: addresses_def)

lemma frame_heap: "page_heap s p = Some pg \<Longrightarrow> frame s p = vm s (address pg)"
  by (simp add: frame_def)

lemma core_frame:
  assumes "wf_pages U A s" "page_heap s p = Some pg"
  obtains v where "frame s p = Some v" "vm s (address pg) = Some v" "length (contents v) = psz s"
  using page_okD(5)[OF wf_pagesD(4)[OF assms]] assms(2) by (auto simp: frame_def)

lemma page_bytes_length:
  assumes "wf_pages U A s" "page_heap s p = Some pg"
  shows "length (page_bytes s p) = psz s"
  by (rule core_frame[OF assms]) (simp add: page_bytes_def)

lemma length_area_bytes:
  assumes "wf_pages U A s" "set ps \<subseteq> dom (page_heap s)"
  shows "length (area_bytes s ps) = psz s * length ps"
  unfolding area_bytes_def
  by (subst length_concat_const[where k = "psz s"]) (use assms page_bytes_length in auto)

text \<open>Components the memory does not influence.\<close>

lemma page_of_simps [simp]:
  "page_of (s\<lparr>vm := m\<rparr>) a = page_of s a" "page_of (s\<lparr>page_heap := h\<rparr>) a = page_of s a"
  "page_of (s\<lparr>hash_table := t\<rparr>) a = page_of s a" "page_of (s\<lparr>next_ptr := n\<rparr>) a = page_of s a"
  by (simp_all add: page_of_def)

lemma addresses_vm [simp]: "addresses (s\<lparr>vm := m\<rparr>) = addresses s"
  by (simp add: addresses_def)

lemma core_vm:
  assumes "wf_pages U A s" "dom m = dom (vm s)"
    and "\<And>p pg v. page_heap s p = Some pg \<Longrightarrow> m (address pg) = Some v \<Longrightarrow> length (contents v) = psz s"
  shows "wf_pages U A (s\<lparr>vm := m\<rparr>)"
proof -
  have "page_ok A (s\<lparr>vm := m\<rparr>) p pg" if p: "page_heap s p = Some pg" for p pg
  proof -
    note ok = page_okD[OF wf_pagesD(4)[OF assms(1) p]]
    have "address pg \<in> dom m" using ok(5) assms(2) by auto
    then show ?thesis using ok assms(3)[OF p] by (auto simp: page_ok_def)
  qed
  then show ?thesis using assms(1,2) by (simp add: wf_pages_def)
qed

lemma frame_set:
  assumes "wf_pages U A s" "page_heap s p = Some pg"
  shows "frame (s\<lparr>vm := (vm s)(address pg \<mapsto> v)\<rparr>) q = (if q = p then Some v else frame s q)"
  using wf_pagesD(5)[OF assms(1) _ assms(2)] assms(2) by (auto simp: frame_def split: option.splits)

lemma core_set:
  assumes "wf_pages U A s" "page_heap s p = Some pg" "length (contents v) = psz s"
  shows "wf_pages U A (s\<lparr>vm := (vm s)(address pg \<mapsto> v)\<rparr>)"
proof (rule core_vm[OF assms(1)])
  show "dom ((vm s)(address pg \<mapsto> v)) = dom (vm s)"
    by (rule core_frame[OF assms(1,2)]) auto
  fix q pg' v' assume a: "page_heap s q = Some pg'" "((vm s)(address pg \<mapsto> v)) (address pg') = Some v'"
  obtain w where "vm s (address pg') = Some w" "length (contents w) = psz s"
    by (rule core_frame[OF assms(1) a(1)])
  then show "length (contents v') = psz s" using a(2) assms(3) by (auto split: if_splits)
qed

section \<open>Protection\<close>

definition protect :: "bool \<Rightarrow> vpage \<Rightarrow> vpage" where
  "protect rw v = v\<lparr>readable := rw, writable := rw\<rparr>"

lemma protect_simps [simp]: "contents (protect rw v) = contents v" "readable (protect rw v) = rw"
  "writable (protect rw v) = rw"
  by (simp_all add: protect_def)

lemma set_protection_spec:
  assumes "wf_pages U A s" "page_heap s p = Some pg"
  obtains m where "set_protection rw p s = Inr (s\<lparr>vm := m\<rparr>)" "wf_pages U A (s\<lparr>vm := m\<rparr>)" "dom m = dom (vm s)"
    "\<And>q. frame (s\<lparr>vm := m\<rparr>) q = (if q = p then map_option (protect rw) (frame s q) else frame s q)"
proof (rule core_frame[OF assms])
  fix v assume v: "frame s p = Some v" "vm s (address pg) = Some v" "length (contents v) = psz s"
  let ?m = "(vm s)(address pg \<mapsto> protect rw v)"
  have "set_protection rw p s = Inr (s\<lparr>vm := ?m\<rparr>)"
    using assms(2) v(2) by (simp add: set_protection_def mprotect_def protect_def)
  moreover have "wf_pages U A (s\<lparr>vm := ?m\<rparr>)" using core_set[OF assms] v(3) by simp
  moreover have "frame (s\<lparr>vm := ?m\<rparr>) q = (if q = p then map_option (protect rw) (frame s q) else frame s q)" for q
    using frame_set[OF assms] v(1) by simp
  moreover have "dom ?m = dom (vm s)" using v(2) by auto
  ultimately show thesis using that[of ?m] by blast
qed

lemma protect_pages:
  assumes "wf_pages U A s" "set ps \<subseteq> dom (page_heap s)"
  shows "\<exists>m. for_pages (set_protection rw) ps s = Inr (s\<lparr>vm := m\<rparr>) \<and> wf_pages U A (s\<lparr>vm := m\<rparr>) \<and>
    dom m = dom (vm s) \<and>
    (\<forall>q. frame (s\<lparr>vm := m\<rparr>) q = (if q \<in> set ps then map_option (protect rw) (frame s q) else frame s q))"
  using assms
proof (induction ps arbitrary: s)
  case Nil
  then show ?case by (intro exI[of _ "vm s"]) simp
next
  case (Cons p ps)
  then obtain pg where pg: "page_heap s p = Some pg" by auto
  obtain m where m: "set_protection rw p s = Inr (s\<lparr>vm := m\<rparr>)" "wf_pages U A (s\<lparr>vm := m\<rparr>)"
    "dom m = dom (vm s)"
    "\<And>q. frame (s\<lparr>vm := m\<rparr>) q = (if q = p then map_option (protect rw) (frame s q) else frame s q)"
    by (rule set_protection_spec[OF Cons.prems(1) pg, of rw]) (rule that)
  have pp: "map_option (protect rw) (map_option (protect rw) f) = map_option (protect rw) f" for f
    by (cases f) (simp_all add: protect_def)
  from Cons.IH[OF m(2)] Cons.prems(2) obtain m' where
    "for_pages (set_protection rw) ps (s\<lparr>vm := m\<rparr>) = Inr (s\<lparr>vm := m'\<rparr>)" "wf_pages U A (s\<lparr>vm := m'\<rparr>)"
    "dom m' = dom m" "\<forall>q. frame (s\<lparr>vm := m'\<rparr>) q =
      (if q \<in> set ps then map_option (protect rw) (frame (s\<lparr>vm := m\<rparr>) q) else frame (s\<lparr>vm := m\<rparr>) q)" by auto
  then show ?case using m(1,3,4) pp by (intro exI[of _ m']) (auto simp: option.map_comp)
qed

lemma page_bytes_protect:
  "(\<And>q. frame s' q = (if q \<in> P then map_option (protect rw) (frame s q) else frame s q)) \<Longrightarrow>
   page_bytes s' p = page_bytes s p"
  by (cases "frame s p") (simp_all add: page_bytes_def)

section \<open>One byte of an area\<close>

lemma page_at_spec:
  assumes "wf_pages U A s" "set ps \<subseteq> dom (page_heap s)" "unat x < psz s * length ps"
  obtains i pg where "i = unat x div psz s" "i < length ps" "page_heap s (ps ! i) = Some pg"
    "page_at ps x s = Inr (ps ! i, pg)" "unat (x div page_size s) = i"
    "page_of s (address pg + ucast (x mod page_size s)) = address pg"
    "unat (address pg + ucast (x mod page_size s) - address pg) = unat x mod psz s"
    "unat x mod psz s < psz s"
proof -
  let ?i = "unat x div psz s"
  note pos = psize_pos[OF wf_pagesD(1)[OF assms(1)]]
  have i: "?i < length ps" using assms(3) pos by (simp add: div_less_iff_less_mult mult.commute)
  then obtain pg where pg: "page_heap s (ps ! ?i) = Some pg" using assms(2) nth_mem[OF i] by blast
  have u: "unat (x div page_size s) = ?i" "unat (x mod page_size s) = unat x mod psz s"
    by (simp_all add: unat_div unat_mod)
  have lt: "unat (x mod page_size s) < psz s" using pos by (simp add: u)
  note in' = page_of_inside[OF wf_pagesD(1)[OF assms(1)] page_okD(4)[OF wf_pagesD(4)[OF assms(1) pg]] lt]
  have "page_at ps x s = Inr (ps ! ?i, pg)" using i pg by (simp add: page_at_def u)
  then show thesis using that[OF refl i pg _ u(1)] in' lt by (simp add: u)
qed

lemma area_byte:
  assumes "wf_pages U A s" "set ps \<subseteq> dom (page_heap s)" "x < psz s * length ps"
  shows "area_bytes s ps ! x = page_bytes s (ps ! (x div psz s)) ! (x mod psz s)"
proof -
  have "0 < psz s" by (rule psize_pos[OF wf_pagesD(1)[OF assms(1)]])
  then have "x div psz s < length ps" using assms(3) by (simp add: div_less_iff_less_mult mult.commute)
  moreover have "area_bytes s ps ! x = map (page_bytes s) ps ! (x div psz s) ! (x mod psz s)"
    unfolding area_bytes_def
    by (rule nth_concat_const) (use assms page_bytes_length[OF assms(1)] in auto)
  ultimately show ?thesis by simp
qed

end
