(* ===== verification/TlsPages.thy ===== *)
theory TlsPages
  imports TlsInv
begin

text \<open>
  One page changes hands: a page is mapped for an area, an area starts or stops using a page.  Each
  lemma says that the invariant is kept for the changed page lists and that no other page changes.
\<close>

lemma finite_users [simp]: "finite (users A p)"
  by (rule finite)

lemma users_upd:
  "users (A(t \<mapsto> ps)) q = (if q \<in> set ps then insert t (users A q) else users A q - {t})"
  by (auto simp: users_def)

lemma users_empty_area [simp]: "A t = None \<Longrightarrow> users (A(t \<mapsto> [])) = users A"
  by (auto simp: users_def fun_eq_iff)

lemma users_drop_area [simp]: "A t = Some [] \<Longrightarrow> users (A(t := None)) = users A"
  by (auto simp: users_def fun_eq_iff)

lemma users_member: "A t = Some ps \<Longrightarrow> t \<in> users A p \<longleftrightarrow> p \<in> set ps"
  by (simp add: users_def)

lemma page_ok_users: "users B = users A \<Longrightarrow> page_ok B = page_ok A"
  by (simp add: page_ok_def fun_eq_iff)

lemma wf_empty_area: "wf_pages U A s \<Longrightarrow> A t = None \<Longrightarrow> wf_pages U (A(t \<mapsto> [])) s"
  by (simp add: wf_pages_def page_ok_users[of "A(t \<mapsto> [])" A])

lemma wf_drop_area: "wf_pages U A s \<Longrightarrow> A t = Some [] \<Longrightarrow> wf_pages U (A(t := None)) s"
  by (simp add: wf_pages_def page_ok_users[of "A(t := None)" A])

lemma wf_table [simp]: "wf_pages U A (s\<lparr>hash_table := h\<rparr>) = wf_pages U A s"
  by (simp add: wf_pages_def page_ok_def addresses_def)

lemma frame_table [simp]: "frame (s\<lparr>hash_table := h\<rparr>) = frame s"
  by (simp add: frame_def fun_eq_iff split: option.splits)

lemma page_bytes_table [simp]: "page_bytes (s\<lparr>hash_table := h\<rparr>) = page_bytes s"
  by (simp add: page_bytes_def fun_eq_iff)

lemma sealed_table [simp]: "sealed P A (s\<lparr>hash_table := h\<rparr>) = sealed P A s"
  by (simp add: sealed_def)

lemma fresh_ptr: "wf_pages U A s \<Longrightarrow> page_heap s (next_ptr s) = None"
  using page_okD(1)[OF wf_pagesD(4), of U A s "next_ptr s"] by (cases "page_heap s (next_ptr s)") auto

lemma addresses_image: "addresses s = (\<lambda>p. address (the (page_heap s p))) ` dom (page_heap s)"
  by (force simp: addresses_def)

section \<open>A new page\<close>

definition add_page :: "u64 \<Rightarrow> vpage \<Rightarrow> process \<Rightarrow> process" where
  "add_page a v s = s\<lparr>vm := (vm s)(a \<mapsto> v),
     page_heap := (page_heap s)(next_ptr s \<mapsto> \<lparr>address = a, ref_count = 1\<rparr>), next_ptr := next_ptr s + 1\<rparr>"

lemma add_page_simps [simp]:
  "page_size (add_page a v s) = page_size s" "hash_table (add_page a v s) = hash_table s"
  "initialized (add_page a v s) = initialized s" "next_ptr (add_page a v s) = next_ptr s + 1"
  "vm (add_page a v s) = (vm s)(a \<mapsto> v)"
  "page_heap (add_page a v s) = (page_heap s)(next_ptr s \<mapsto> \<lparr>address = a, ref_count = 1\<rparr>)"
  by (simp_all add: add_page_def)

lemma add_page_frame:
  assumes "wf_pages U A s" "vm s a = None"
  shows "frame (add_page a v s) q = (if q = next_ptr s then Some v else frame s q)"
proof (cases "q = next_ptr s")
  case False
  have "vm s (address pg) \<noteq> None" if "page_heap s q = Some pg" for pg
    using core_frame[OF assms(1) that] by blast
  then show ?thesis using assms(2) False by (auto simp: frame_def split: option.splits)
qed (simp add: frame_def)

lemma add_page_wf:
  assumes wf: "wf_pages U A s" and A: "A t = Some ps" and a: "vm s a = None" "page_of s a = a"
    and v: "length (contents v) = psz s" and ps': "distinct ps'" "set ps' = insert (next_ptr s) (set ps)"
  shows "wf_pages U (A(t \<mapsto> ps')) (add_page a v s)"
proof -
  let ?c = "next_ptr s" let ?B = "A(t \<mapsto> ps')" let ?s = "add_page a v s"
  note fresh = fresh_ptr[OF wf]
  have "users A ?c = {}" using wf_pagesD(3)[OF wf] fresh by (auto simp: users_def)
  then have uc: "users ?B ?c = {t}" using ps' by (auto simp: users_upd)
  have u: "users ?B q = users A q" if "q \<noteq> ?c" for q
    using that ps'(2) users_member[of A t ps q, OF A] by (auto simp: users_upd)
  have p: "page_of ?s x = page_of s x" for x by (simp add: page_of_def)
  have ne: "address pg \<noteq> a" if "page_heap s q = Some pg" for q pg
    by (rule core_frame[OF wf that]) (use a(1) in auto)
  have "page_ok ?B ?s q pg" if q: "page_heap ?s q = Some pg" for q pg
  proof (cases "q = ?c")
    case True
    then show ?thesis using q uc v a(2) p by (auto simp: page_ok_def)
  next
    case False
    then have h: "page_heap s q = Some pg" using q by simp
    show ?thesis
      using page_okD[OF wf_pagesD(4)[OF wf h]] u[OF False] ne[OF h] p by (auto simp: page_ok_def)
  qed
  moreover have "addresses ?s = insert a (addresses s)"
  proof -
    have "dom (page_heap ?s) = insert ?c (dom (page_heap s))" by auto
    moreover have "(\<lambda>p. address (the (page_heap ?s p))) ` dom (page_heap s) = addresses s"
      unfolding addresses_image by (rule image_cong) (use fresh in auto)
    ultimately show ?thesis by (simp add: addresses_image[of ?s])
  qed
  moreover have "a \<notin> U" using a(1) wf_pagesD(6)[OF wf] by auto
  moreover have "inj_on (\<lambda>p. address (the (page_heap ?s p))) (dom (page_heap ?s))"
  proof (rule inj_onI)
    fix x y assume d: "x \<in> dom (page_heap ?s)" "y \<in> dom (page_heap ?s)"
      and e: "address (the (page_heap ?s x)) = address (the (page_heap ?s y))"
    have "address (the (page_heap s x)) = address (the (page_heap s y)) \<longrightarrow> x = y"
      if "x \<noteq> ?c" "y \<noteq> ?c" using that d wf_pagesD(5)[OF wf] by auto
    moreover have "address (the (page_heap s z)) \<noteq> a" if "z \<noteq> ?c" "z \<in> dom (page_heap ?s)" for z
      using that ne[of z] by auto
    ultimately show "x = y" using d e by (cases "x = ?c"; cases "y = ?c") (auto split: if_splits)
  qed
  moreover have "distinct qs \<and> set qs \<subseteq> dom (page_heap ?s)" if "(A(t \<mapsto> ps')) r = Some qs" for r qs
    using that wf_pagesD(2,3)[OF wf, of r qs] wf_pagesD(3)[OF wf A] ps' by (cases "r = t") auto
  moreover have "dom (vm ?s) = U \<union> insert a (addresses s)" "U \<inter> addresses s = {}" "psize_ok (page_size ?s)"
    using wf_pagesD(1,6,7)[OF wf] by auto
  ultimately show ?thesis
    unfolding wf_pages_def by (intro conjI allI impI) (blast | (simp only:, blast))+
qed

text \<open>What \<^verbatim>\<open>mmap\<close> gives.\<close>

definition room :: "kernel \<Rightarrow> process \<Rightarrow> nat \<Rightarrow> bool" where
  "room k s n \<longleftrightarrow> (\<forall>m. card (dom m) < card (dom (vm s)) + n \<longrightarrow> mmap_at k m \<noteq> None)"

lemma mmap_spec:
  assumes "kernel_ok k" "page_size s = getpagesize k" "room k s n" "0 < n"
  obtains a where "vm s a = None" "page_of s a = a" "a \<noteq> MAP_FAILED"
    "mmap k r w s = (a, s\<lparr>vm := (vm s)(a \<mapsto> \<lparr>readable = r, writable = w, contents = replicate (psz s) 0\<rparr>)\<rparr>)"
proof -
  have "mmap_at k (vm s) \<noteq> None" using assms(3,4) by (simp add: room_def)
  then obtain a where a: "mmap_at k (vm s) = Some a" by blast
  then have "vm s a = None" "page_of s a = a" using assms(1,2) by (auto simp: kernel_ok_def page_of_def)
  moreover have "a \<noteq> MAP_FAILED"
    using calculation(2) failed_not_aligned[of s] assms(1,2) by (auto simp: kernel_ok_def)
  ultimately show thesis using that a by (simp add: mmap_def)
qed

lemma room_map:
  assumes "room k s (Suc n)" "vm s a = None" "vm s' = (vm s)(a \<mapsto> v)"
  shows "room k s' n"
  using assms by (simp add: room_def domIff)

lemma room_same: "room k s n \<Longrightarrow> dom (vm s') = dom (vm s) \<Longrightarrow> m \<le> n \<Longrightarrow> room k s' m"
  by (auto simp: room_def)

section \<open>Sharing and leaving a page\<close>

definition set_count :: "nat \<Rightarrow> page \<Rightarrow> int \<Rightarrow> process \<Rightarrow> process" where
  "set_count p pg c s = s\<lparr>page_heap := (page_heap s)(p \<mapsto> pg\<lparr>ref_count := c\<rparr>)\<rparr>"

lemma set_count_simps [simp]:
  "page_size (set_count p pg c s) = page_size s" "hash_table (set_count p pg c s) = hash_table s"
  "initialized (set_count p pg c s) = initialized s" "next_ptr (set_count p pg c s) = next_ptr s"
  "vm (set_count p pg c s) = vm s"
  "page_heap (set_count p pg c s) = (page_heap s)(p \<mapsto> pg\<lparr>ref_count := c\<rparr>)"
  by (simp_all add: set_count_def)

lemma set_count_frame: "page_heap s p = Some pg \<Longrightarrow> frame (set_count p pg c s) = frame s"
  by (auto simp: frame_def fun_eq_iff split: option.splits)

lemma set_count_wf:
  assumes wf: "wf_pages U A s" and p: "page_heap s p = Some pg"
    and B: "\<And>q. q \<noteq> p \<Longrightarrow> users B q = users A q" "users B p \<noteq> {}"
    and l: "\<And>u qs. B u = Some qs \<Longrightarrow> distinct qs \<and> set qs \<subseteq> dom (page_heap s)"
  shows "wf_pages U B (set_count p pg (int (card (users B p))) s)"
proof -
  let ?s = "set_count p pg (int (card (users B p))) s"
  have po: "page_of ?s x = page_of s x" for x by (simp add: page_of_def)
  have ad: "address (the (page_heap ?s q)) = address (the (page_heap s q))" for q using p by simp
  have d: "dom (page_heap ?s) = dom (page_heap s)" using p by auto
  have "page_ok B ?s q pg'" if q: "page_heap ?s q = Some pg'" for q pg'
  proof (cases "q = p")
    case True
    then show ?thesis using page_okD[OF wf_pagesD(4)[OF wf p]] q B(2) po by (auto simp: page_ok_def)
  next
    case False
    then show ?thesis using page_okD[OF wf_pagesD(4)[OF wf, of q pg']] q B(1)[OF False] po
      by (auto simp: page_ok_def)
  qed
  moreover have "addresses ?s = addresses s"
    unfolding addresses_image d using ad by simp
  ultimately show ?thesis using wf l d ad unfolding wf_pages_def by simp
qed

lemma share_page_spec:
  assumes wf: "wf_pages U A s" and A: "A t = Some ps" and p: "page_heap s p = Some pg" "p \<notin> set ps"
    and few: "ref_count pg < 2 ^ 31 - 1"
  obtains s' where "share_page p s = Inr s'" "wf_pages U (A(t \<mapsto> ps @ [p])) s'" "frame s' = frame s"
    "s' = s\<lparr>page_heap := page_heap s'\<rparr>" "dom (page_heap s') = dom (page_heap s)"
    "\<And>q. q \<noteq> p \<Longrightarrow> page_heap s' q = page_heap s q"
proof -
  let ?B = "A(t \<mapsto> ps @ [p])"
  have u: "users ?B p = insert t (users A p)" "t \<notin> users A p"
    using p(2) users_member[of A t ps p, OF A] by (simp_all add: users_upd)
  have c: "int (card (users ?B p)) = ref_count pg + 1"
    using u page_okD(2)[OF wf_pagesD(4)[OF wf p(1)]] by simp
  let ?s = "set_count p pg (ref_count pg + 1) s"
  have "share_page p s = Inr ?s" using p(1) few by (simp add: share_page_def set_count_def)
  moreover have "wf_pages U ?B ?s"
  proof (subst c[symmetric], rule set_count_wf[OF wf p(1)])
    show "users ?B q = users A q" if "q \<noteq> p" for q
      using that users_member[of A t ps q, OF A] by (auto simp: users_upd)
    show "users ?B p \<noteq> {}" using u by simp
    show "distinct qs \<and> set qs \<subseteq> dom (page_heap s)" if "?B r = Some qs" for r qs
      using that wf_pagesD(2,3)[OF wf, of r qs] wf_pagesD(2,3)[OF wf A] p by (cases "r = t") auto
  qed
  moreover have "?s = s\<lparr>page_heap := page_heap ?s\<rparr>" by (simp add: set_count_def)
  ultimately show thesis using that[of ?s] set_count_frame[OF p(1)] p(1) by auto
qed

text \<open>Leaving a page that others still use.\<close>

lemma leave_page:
  assumes wf: "wf_pages U A s" and A: "A t = Some ps" and p: "page_heap s p = Some pg" "p \<in> set ps"
    and c: "1 < ref_count pg" and ps': "distinct ps'" "set ps' = set ps - {p}"
  shows "wf_pages U (A(t \<mapsto> ps')) (set_count p pg (ref_count pg - 1) s)"
proof -
  let ?B = "A(t \<mapsto> ps')"
  have u: "users ?B p = users A p - {t}" "t \<in> users A p"
    using ps' p(2) users_member[of A t ps p, OF A] by (simp_all add: users_upd)
  have n: "ref_count pg = int (card (users A p))" by (rule page_okD(2)[OF wf_pagesD(4)[OF wf p(1)]])
  then have c': "int (card (users ?B p)) = ref_count pg - 1" using u c by (simp add: of_nat_diff)
  show ?thesis
  proof (subst c'[symmetric], rule set_count_wf[OF wf p(1)])
    show "users ?B q = users A q" if "q \<noteq> p" for q
      using that ps'(2) users_member[of A t ps q, OF A] by (auto simp: users_upd)
    show "users ?B p \<noteq> {}" using c c' by auto
    show "distinct qs \<and> set qs \<subseteq> dom (page_heap s)" if "?B r = Some qs" for r qs
      using that wf_pagesD(2,3)[OF wf, of r qs] wf_pagesD(3)[OF wf A] ps' by (cases "r = t") auto
  qed
qed

lemma munmap_simps [simp]:
  "hash_table (munmap a s) = hash_table s" "page_size (munmap a s) = page_size s"
  "initialized (munmap a s) = initialized s" "next_ptr (munmap a s) = next_ptr s"
  "page_heap (munmap a s) = page_heap s" "vm (munmap a s) = (vm s)(a := None)"
  by (simp_all add: munmap_def)

text \<open>Leaving a page nobody else uses: it is unmapped and freed.\<close>

lemma free_page_wf:
  assumes wf: "wf_pages U A s" and A: "A t = Some ps" and p: "page_heap s p = Some pg" "p \<in> set ps"
    and c: "ref_count pg = 1" and ps': "distinct ps'" "set ps' = set ps - {p}"
  defines "s' \<equiv> (munmap (address pg) s)\<lparr>page_heap := (page_heap s)(p := None)\<rparr>"
  shows "wf_pages U (A(t \<mapsto> ps')) s'" "q \<noteq> p \<Longrightarrow> frame s' q = frame s q" "frame s' p = None"
proof -
  let ?B = "A(t \<mapsto> ps')"
  have sel: "page_size s' = page_size s" "next_ptr s' = next_ptr s" "page_heap s' = (page_heap s)(p := None)"
    "vm s' = (vm s)(address pg := None)"
    by (simp_all add: s'_def)
  have tp: "t \<in> users A p" using p(2) users_member[of A t ps p, OF A] by simp
  then have up: "users A p = {t}"
    using page_okD(2)[OF wf_pagesD(4)[OF wf p(1)]] c by (auto simp: card_1_singleton_iff)
  have u: "users ?B q = users A q" if "q \<noteq> p" for q
    using that ps'(2) users_member[of A t ps q, OF A] by (auto simp: users_upd)
  have po: "page_of s' x = page_of s x" for x by (simp add: page_of_def sel)
  have ne: "address pg' \<noteq> address pg" if "page_heap s q = Some pg'" "q \<noteq> p" for q pg'
    using wf_pagesD(5)[OF wf that(1) p(1)] that(2) by simp
  have fr: "frame s' q = frame s q" if "q \<noteq> p" for q
    using that ne by (auto simp: frame_def sel split: option.splits)
  then show "q \<noteq> p \<Longrightarrow> frame s' q = frame s q" .
  show "frame s' p = None" by (simp add: frame_def sel)
  have "page_ok ?B s' q pg'" if q: "page_heap s' q = Some pg'" for q pg'
  proof -
    have h: "page_heap s q = Some pg'" "q \<noteq> p" using q by (auto simp: sel split: if_splits)
    show ?thesis
      using page_okD[OF wf_pagesD(4)[OF wf h(1)]] u[OF h(2)] ne[OF h] po by (auto simp: page_ok_def sel)
  qed
  moreover have ad: "addresses s' = addresses s - {address pg}"
  proof -
    let ?f = "\<lambda>q. address (the (page_heap s q))"
    have "addresses s' = ?f ` (dom (page_heap s) - {p})"
      unfolding addresses_image by (rule image_cong) (auto simp: sel)
    moreover have "inj_on ?f (dom (page_heap s))" using wf by (simp add: wf_pages_def)
    ultimately show ?thesis
      using p(1) by (simp add: addresses_image inj_on_image_set_diff[of ?f "dom (page_heap s)"] domIff)
  qed
  moreover have "address pg \<in> addresses s" by (rule in_addresses[OF p(1)])
  moreover have "inj_on (\<lambda>q. address (the (page_heap s' q))) (dom (page_heap s'))"
    by (rule inj_onI) (use wf_pagesD(5)[OF wf] in \<open>auto simp: sel split: if_splits\<close>)
  moreover have "distinct qs \<and> set qs \<subseteq> dom (page_heap s')" if "?B r = Some qs" for r qs
  proof (cases "r = t")
    case True
    then show ?thesis using that ps' wf_pagesD(3)[OF wf A] by (auto simp: sel)
  next
    case False
    then have r: "A r = Some qs" using that by simp
    then have "p \<notin> set qs" using False up users_member[of A r qs p] by auto
    then show ?thesis using wf_pagesD(2,3)[OF wf r] by (auto simp: sel)
  qed
  ultimately show "wf_pages U ?B s'" using wf by (auto simp: wf_pages_def sel)
qed

lemma release_page_spec:
  assumes wf: "wf_pages U A s" and A: "A t = Some (p # ps)"
  obtains s' where "release_page p s = Inr s'" "wf_pages U (A(t \<mapsto> ps)) s'"
    "\<And>q v. frame s' q = Some v \<Longrightarrow> frame s q = Some v" "\<And>q. frame s q \<noteq> None \<Longrightarrow> q \<noteq> p \<Longrightarrow> frame s' q = frame s q"
    "users A p \<noteq> {t} \<Longrightarrow> frame s' p = frame s p"
    "hash_table s' = hash_table s" "page_size s' = page_size s" "initialized s' = initialized s"
proof -
  have d: "distinct (p # ps)" "p \<in> dom (page_heap s)" using wf_pagesD(2,3)[OF wf A] by auto
  then obtain pg where pg: "page_heap s p = Some pg" by auto
  have ps: "distinct ps" "set ps = set (p # ps) - {p}" using d(1) by auto
  note n = page_okD(2,3)[OF wf_pagesD(4)[OF wf pg]]
  show thesis
  proof (cases "ref_count pg = 1")
    case True
    let ?s = "(munmap (address pg) s)\<lparr>page_heap := (page_heap s)(p := None)\<rparr>"
    have f: "wf_pages U (A(t \<mapsto> ps)) ?s" "frame ?s q = (if q = p then None else frame s q)" for q
      using free_page_wf[OF wf A pg _ True ps] by simp_all
    have u: "users A p = {t}"
      using n(1) True users_member[of A t "p # ps" p, OF A] by (auto simp: card_1_singleton_iff)
    have "release_page p s = Inr ?s" using pg True by (simp add: release_page_def)
    then show thesis
      by (rule that[OF _ f(1)]) (use u in \<open>auto simp: f(2) split: if_splits\<close>)
  next
    case False
    moreover have "0 < ref_count pg" using n by (simp add: card_gt_0_iff)
    ultimately have c: "1 < ref_count pg" by simp
    have "release_page p s = Inr (set_count p pg (ref_count pg - 1) s)"
      using pg False by (simp add: release_page_def set_count_def)
    moreover have "wf_pages U (A(t \<mapsto> ps)) (set_count p pg (ref_count pg - 1) s)"
      by (rule leave_page[OF wf A pg _ c ps]) simp
    ultimately show thesis
      by (rule that) (simp_all add: set_count_frame[OF pg])
  qed
qed

end
