(* ===== verification/TlsRead.thy ===== *)
theory TlsRead
  imports TlsPages
begin

text \<open>
  Opening and closing the pages of an area, reading from it, and the loop that maps the pages of a
  new area.  \<open>tls_read\<close> is total on allowed arguments, returns the bytes of the abstraction \<open>abs_tls\<close>
  and changes nothing.
\<close>

section \<open>Shared lemmas\<close>

lemma tls_inv_initialized:
  assumes "tls_inv k U s" "initialized s"
  shows "table_ok (hash_table s)" "area s t = Some a \<Longrightarrow> area_ok s t a" "wf_pages U (page_lists s) s"
    "sealed {} (page_lists s) s" "page_size s = getpagesize k"
  using assms by (auto simp: tls_inv_def table_inv_def)

lemma tls_inv_start:
  assumes "tls_inv k U s" "\<not> initialized s"
  shows "area s = (\<lambda>_. None)" "page_heap s = (\<lambda>_. None)" "dom (vm s) = U"
  using assms by (auto simp: tls_inv_def tls_table.find_empty)

lemma page_lists_Some [simp]: "area s t = Some a \<Longrightarrow> page_lists s t = Some (pages a)"
  by (simp add: page_lists_def)

lemma page_lists_table:
  "find_tls h = (find_tls (hash_table s))(t \<mapsto> a) \<Longrightarrow> page_lists (s'\<lparr>hash_table := h\<rparr>) = (page_lists s)(t \<mapsto> pages a)"
  by (simp add: page_lists_def fun_eq_iff)

lemma page_lists_cong: "hash_table s' = hash_table s \<Longrightarrow> page_lists s' = page_lists s"
  by (simp add: page_lists_def fun_eq_iff)

lemma abs_tls_cong:
  assumes "area s' t = area s t" "\<And>a p. area s t = Some a \<Longrightarrow> p \<in> set (pages a) \<Longrightarrow> page_bytes s' p = page_bytes s p"
  shows "abs_tls s' t = abs_tls s t"
proof (cases "area s t")
  case (Some a)
  then have "area_bytes s' (pages a) = area_bytes s (pages a)"
    using assms(2) by (simp add: area_bytes_def cong: map_cong)
  then show ?thesis using assms(1) Some by (simp add: abs_tls_def)
qed (simp add: abs_tls_def assms(1))

lemma area_ok_cong: "page_size s' = page_size s \<Longrightarrow> area_ok s' = area_ok s"
  by (simp add: area_ok_def fun_eq_iff)

text \<open>Calls that leave the table alone.\<close>

lemma tls_inv_same_table:
  assumes "tls_inv k U s" "initialized s" "wf_pages U (page_lists s) s'" "sealed {} (page_lists s) s'"
    and "hash_table s' = hash_table s" "page_size s' = page_size s" "initialized s'"
  shows "tls_inv k U s'"
  using assms page_lists_cong[OF assms(5)] area_ok_cong[OF assms(6)] by (simp add: tls_inv_def table_inv_def)

text \<open>Calls that give thread \<open>t\<close> the area \<open>a\<close>.\<close>

lemma tls_inv_area:
  assumes "tls_inv k U s" "initialized s" "wf_pages U ((page_lists s)(t \<mapsto> pages a)) s'"
    and "sealed {} ((page_lists s)(t \<mapsto> pages a)) s'" "area_ok s t a" "table_ok h"
    and h: "find_tls h = (area s)(t \<mapsto> a)" and "page_size s' = page_size s" "initialized s'"
  shows "tls_inv k U (s'\<lparr>hash_table := h\<rparr>)"
  using assms(1-6,8,9) page_lists_table[OF h, of s'] area_ok_cong[of "s'\<lparr>hash_table := h\<rparr>" s]
  by (auto simp: tls_inv_def table_inv_def h)

lemma sealed_none: "sealed {} A s \<longleftrightarrow> (\<forall>p v. frame s p = Some v \<longrightarrow> \<not> readable v \<and> \<not> writable v)"
  by (simp add: sealed_def)

text \<open>Opening and closing the pages of one area.\<close>

lemma open_area:
  assumes "wf_pages U A s" "A t = Some ps"
  obtains m where "for_pages tls_unprotect ps s = Inr (s\<lparr>vm := m\<rparr>)" "wf_pages U A (s\<lparr>vm := m\<rparr>)" "dom m = dom (vm s)"
    "\<And>q. frame (s\<lparr>vm := m\<rparr>) q = (if q \<in> set ps then map_option (protect True) (frame s q) else frame s q)"
    "\<And>q. page_bytes (s\<lparr>vm := m\<rparr>) q = page_bytes s q"
proof -
  obtain m where m: "for_pages tls_unprotect ps s = Inr (s\<lparr>vm := m\<rparr>)" "wf_pages U A (s\<lparr>vm := m\<rparr>)" "dom m = dom (vm s)"
    and f: "\<And>q. frame (s\<lparr>vm := m\<rparr>) q = (if q \<in> set ps then map_option (protect True) (frame s q) else frame s q)"
    using protect_pages[OF assms(1) wf_pagesD(3)[OF assms], of True] unfolding tls_unprotect_def by blast
  show thesis by (rule that[OF m f page_bytes_protect[OF f]])
qed

lemma close_area:
  assumes "wf_pages U A s" "A t = Some ps" "sealed (set ps) A s"
  obtains m where "for_pages tls_protect ps s = Inr (s\<lparr>vm := m\<rparr>)" "wf_pages U A (s\<lparr>vm := m\<rparr>)"
    "sealed {} A (s\<lparr>vm := m\<rparr>)" "\<And>q. page_bytes (s\<lparr>vm := m\<rparr>) q = page_bytes s q"
proof -
  obtain m where m: "for_pages tls_protect ps s = Inr (s\<lparr>vm := m\<rparr>)" "wf_pages U A (s\<lparr>vm := m\<rparr>)"
    and f: "\<And>q. frame (s\<lparr>vm := m\<rparr>) q = (if q \<in> set ps then map_option (protect False) (frame s q) else frame s q)"
    using protect_pages[OF assms(1) wf_pagesD(3)[OF assms(1,2)], of False] unfolding tls_protect_def by blast
  have "sealed {} A (s\<lparr>vm := m\<rparr>)" using assms(3) unfolding sealed_def f by (auto split: if_splits)
  then show thesis using that[OF m _ page_bytes_protect[OF f]] by blast
qed

lemma sealed_open:
  assumes "sealed {} A s"
    and "\<And>q. frame s' q = (if q \<in> P then map_option (protect True) (frame s q) else frame s q)"
  shows "sealed P A s'"
  using assms(1) unfolding sealed_def assms(2) by auto

section \<open>Reading\<close>

lemma load_spec:
  assumes "wf_pages U A s" "set ps \<subseteq> dom (page_heap s)" "unat x < psz s * length ps"
    and "\<And>p v. p \<in> set ps \<Longrightarrow> frame s p = Some v \<Longrightarrow> readable v"
  shows "\<exists>p pg. page_at ps x s = Inr (p, pg) \<and>
    load (address pg + ucast (x mod page_size s)) s = Inr (area_bytes s ps ! unat x)"
proof (rule page_at_spec[OF assms(1-3)])
  fix i pg assume a: "i = unat x div psz s" "i < length ps" "page_heap s (ps ! i) = Some pg"
    "page_at ps x s = Inr (ps ! i, pg)" "page_of s (address pg + ucast (x mod page_size s)) = address pg"
    "unat (address pg + ucast (x mod page_size s) - address pg) = unat x mod psz s"
  show ?thesis
  proof (rule core_frame[OF assms(1) a(3)])
    fix v assume v: "frame s (ps ! i) = Some v" "vm s (address pg) = Some v" "length (contents v) = psz s"
    have "readable v" by (rule assms(4)[OF nth_mem[OF a(2)] v(1)])
    then show ?thesis
      using a v area_byte[OF assms(1-3)] by (simp add: load_def page_bytes_def)
  qed
qed

lemma patch_Cons: "i < length xs \<Longrightarrow> patch (xs[i := b]) (Suc i) ys = patch xs i (b # ys)"
  by (simp add: patch_def take_Suc_conv_app_nth)

lemma take_Suc_drop: "i < length xs \<Longrightarrow> take (Suc n) (drop i xs) = xs ! i # take n (drop (Suc i) xs)"
  by (simp flip: Cons_nth_drop_Suc)

lemma read_bytes_spec:
  assumes "wf_pages U A s" "set ps \<subseteq> dom (page_heap s)"
    and "\<And>p v. p \<in> set ps \<Longrightarrow> frame s p = Some v \<Longrightarrow> readable v"
    and "unat offset + unat i + n \<le> psz s * length ps" "unat offset + unat i + n < 2 ^ 32"
    "unat i + n \<le> length buf"
  shows "read_bytes ps offset n i buf s =
    Inr (patch buf (unat i) (take n (drop (unat offset + unat i) (area_bytes s ps))))"
  using assms(4-)
proof (induction n arbitrary: i buf)
  case (Suc n)
  have x: "unat (offset + i) = unat offset + unat i" using Suc.prems(2) by (intro unat_rules) simp
  have i1: "unat (i + 1) = Suc (unat i)" using Suc.prems(2) by (subst unat_rules) simp_all
  obtain p pg where p: "page_at ps (offset + i) s = Inr (p, pg)"
    "load (address pg + ucast ((offset + i) mod page_size s)) s = Inr (area_bytes s ps ! (unat offset + unat i))"
    by (rule exE[OF load_spec[OF assms(1,2) _ assms(3), of "offset + i"]]) (use Suc.prems(1) x in auto)
  have l: "unat offset + unat i < length (area_bytes s ps)"
    using Suc.prems(1) length_area_bytes[OF assms(1,2)] by simp
  have "read_bytes ps offset n (i + 1) (buf[unat i := area_bytes s ps ! (unat offset + unat i)]) s =
    Inr (patch buf (unat i) (area_bytes s ps ! (unat offset + unat i) #
      take n (drop (unat offset + Suc (unat i)) (area_bytes s ps))))"
    using Suc.IH[of "i + 1"] Suc.prems i1 by (simp add: patch_Cons)
  then show ?case using p Suc.prems(3) take_Suc_drop[OF l] by simp
qed simp

lemma tls_read_spec:
  assumes inv: "tls_inv k U s" and a: "abs_tls s t = Some bs"
    and fit: "unat offset + unat len \<le> length bs" "unat len \<le> length buf"
  obtains s' where
    "tls_read t offset len buf s = Inr (0, patch buf 0 (take (unat len) (drop (unat offset) bs)), s')"
    "tls_inv k U s'" "abs_tls s' = abs_tls s"
proof -
  obtain a where ar: "area s t = Some a" and bs: "bs = take (unat (tsize a)) (area_bytes s (pages a))"
    using a by (auto simp: abs_tls_def)
  have init: "initialized s" using tls_inv_start(1)[OF inv] ar by (cases "initialized s") auto
  note I = tls_inv_initialized[OF inv init]
  note ao = I(2)[OF ar]
  have A: "page_lists s t = Some (pages a)" using ar by simp
  have sz: "unat (tsize a) \<le> psz s * length (pages a)" using ao unfolding area_ok_def by blast
  have lb: "length bs = unat (tsize a)"
    using sz length_area_bytes[OF I(3) wf_pagesD(3)[OF I(3) A]] by (simp add: bs)
  have "unat (tsize a) < 2 ^ 32" using unsigned_less[of "tsize a", where 'a = nat] by simp
  then have x: "unat (offset + len) = unat offset + unat len" using fit(1) lb by (intro unat_rules) simp
  then have nf: "\<not> tsize a < offset + len" using fit(1) lb by (simp add: word_less_nat_alt)
  show thesis
  proof (rule open_area[OF I(3) A])
    fix m assume m: "for_pages tls_unprotect (pages a) s = Inr (s\<lparr>vm := m\<rparr>)"
      "wf_pages U (page_lists s) (s\<lparr>vm := m\<rparr>)" "dom m = dom (vm s)"
      and f: "\<And>q. frame (s\<lparr>vm := m\<rparr>) q =
        (if q \<in> set (pages a) then map_option (protect True) (frame s q) else frame s q)"
      and b: "\<And>q. page_bytes (s\<lparr>vm := m\<rparr>) q = page_bytes s q"
    have ab: "area_bytes (s\<lparr>vm := m\<rparr>) ps = area_bytes s ps" for ps
      using ext[of "page_bytes (s\<lparr>vm := m\<rparr>)", OF b] by (simp add: area_bytes_def)
    have "read_bytes (pages a) offset (unat len) 0 buf (s\<lparr>vm := m\<rparr>) =
      Inr (patch buf (unat (0::u32)) (take (unat len) (drop (unat offset + unat (0::u32)) (area_bytes (s\<lparr>vm := m\<rparr>) (pages a)))))"
      by (rule read_bytes_spec[OF m(2)])
        (use wf_pagesD(3)[OF m(2) A] f fit lb sz \<open>unat (tsize a) < 2 ^ 32\<close> in \<open>auto split: if_splits\<close>)
    then have r: "read_bytes (pages a) offset (unat len) 0 buf (s\<lparr>vm := m\<rparr>) =
      Inr (patch buf 0 (take (unat len) (drop (unat offset) bs)))"
    proof -
      have "unat len \<le> unat (tsize a) - unat offset" using fit(1) lb by linarith
      then show ?thesis using \<open>read_bytes _ _ _ _ _ _ = _\<close> by (simp add: ab bs drop_take min_absorb1)
    qed
    show thesis
    proof (rule close_area[OF m(2) A sealed_open[OF I(4) f]])
      fix m' assume m': "for_pages tls_protect (pages a) (s\<lparr>vm := m\<rparr>) = Inr (s\<lparr>vm := m, vm := m'\<rparr>)"
        "wf_pages U (page_lists s) (s\<lparr>vm := m, vm := m'\<rparr>)" "sealed {} (page_lists s) (s\<lparr>vm := m, vm := m'\<rparr>)"
        "\<And>q. page_bytes (s\<lparr>vm := m, vm := m'\<rparr>) q = page_bytes (s\<lparr>vm := m\<rparr>) q"
      have "tls_read t offset len buf s =
        Inr (0, patch buf 0 (take (unat len) (drop (unat offset) bs)), s\<lparr>vm := m'\<rparr>)"
        using ar nf m(1) r m'(1) by (simp add: tls_read_def)
      moreover have "tls_inv k U (s\<lparr>vm := m'\<rparr>)"
        by (rule tls_inv_same_table[OF inv init]) (use m'(2,3) init in simp_all)
      moreover have "abs_tls (s\<lparr>vm := m'\<rparr>) u = abs_tls s u" for u
        by (rule abs_tls_cong) (use m'(4) b in simp_all)
      ultimately show thesis using that by blast
    qed
  qed
qed

section \<open>Creating\<close>

lemma create_pages_spec:
  assumes k: "kernel_ok k" and "wf_pages U A s" "A t = Some ps" "sealed {} A s" "page_size s = getpagesize k"
    "room k s n"
  shows "\<exists>new s'. create_pages k n ps s = Inr (ps @ new, s') \<and> length new = n \<and>
    wf_pages U (A(t \<mapsto> ps @ new)) s' \<and> sealed {} A s' \<and>
    (\<forall>p. page_heap s p \<noteq> None \<longrightarrow> page_bytes s' p = page_bytes s p) \<and>
    (\<forall>p \<in> set new. page_bytes s' p = replicate (psz s) 0) \<and>
    hash_table s' = hash_table s \<and> page_size s' = page_size s \<and> initialized s' = initialized s"
  using assms(2-)
proof (induction n arbitrary: ps s A)
  case 0
  have "A(t \<mapsto> ps) = A" using 0(2) by (simp add: fun_upd_idem)
  then show ?case using 0 by (intro exI[of _ "[]"]) simp
next
  case (Suc n)
  show ?case
  proof (rule mmap_spec[OF k Suc.prems(4,5), of False False])
    fix a assume a: "vm s a = None" "page_of s a = a" "a \<noteq> MAP_FAILED"
      and mm: "mmap k False False s =
        (a, s\<lparr>vm := (vm s)(a \<mapsto> \<lparr>readable = False, writable = False, contents = replicate (psz s) 0\<rparr>)\<rparr>)"
    let ?v = "\<lparr>readable = False, writable = False, contents = replicate (psz s) 0\<rparr>"
    let ?c = "next_ptr s" let ?s = "add_page a ?v s"
    have c: "?c \<notin> set ps" using fresh_ptr[OF Suc.prems(1)] wf_pagesD(3)[OF Suc.prems(1,2)] by auto
    have wf: "wf_pages U (A(t \<mapsto> ps @ [?c])) ?s"
      by (rule add_page_wf[OF Suc.prems(1,2) a(1,2)])
        (use c wf_pagesD(2)[OF Suc.prems(1,2)] in simp_all)
    have fr: "frame ?s q = (if q = ?c then Some ?v else frame s q)" for q
      by (rule add_page_frame[OF Suc.prems(1) a(1)])
    have se: "sealed {} (A(t \<mapsto> ps @ [?c])) ?s" using Suc.prems(3) by (auto simp: sealed_none fr)
    have "room k ?s n" by (rule room_map[OF Suc.prems(5) a(1)]) simp
    then have "\<exists>new s'. create_pages k n (ps @ [?c]) ?s = Inr ((ps @ [?c]) @ new, s') \<and> length new = n \<and>
      wf_pages U ((A(t \<mapsto> ps @ [?c]))(t \<mapsto> (ps @ [?c]) @ new)) s' \<and> sealed {} (A(t \<mapsto> ps @ [?c])) s' \<and>
      (\<forall>p. page_heap ?s p \<noteq> None \<longrightarrow> page_bytes s' p = page_bytes ?s p) \<and>
      (\<forall>p \<in> set new. page_bytes s' p = replicate (psz ?s) 0) \<and>
      hash_table s' = hash_table ?s \<and> page_size s' = page_size ?s \<and> initialized s' = initialized ?s"
      by (intro Suc.IH[OF wf _ se]) (simp_all add: Suc.prems(4))
    then obtain new s' where s': "create_pages k n (ps @ [?c]) ?s = Inr ((ps @ [?c]) @ new, s')" "length new = n"
      "wf_pages U ((A(t \<mapsto> ps @ [?c]))(t \<mapsto> (ps @ [?c]) @ new)) s'" "sealed {} (A(t \<mapsto> ps @ [?c])) s'"
      "\<And>p. page_heap ?s p \<noteq> None \<Longrightarrow> page_bytes s' p = page_bytes ?s p"
      "\<And>p. p \<in> set new \<Longrightarrow> page_bytes s' p = replicate (psz ?s) 0"
      "hash_table s' = hash_table ?s \<and> page_size s' = page_size ?s \<and> initialized s' = initialized ?s"
      by blast
    have run: "create_pages k (Suc n) ps s = Inr (ps @ (?c # new), s')"
      using s'(1) a(3) by (simp add: mm add_page_def Let_def)
    have b1: "page_bytes s' p = page_bytes s p" if p: "page_heap s p \<noteq> None" for p
    proof -
      have "p \<noteq> ?c" using p fresh_ptr[OF Suc.prems(1)] by auto
      then show ?thesis using s'(5)[of p] p by (simp add: page_bytes_def fr)
    qed
    have b2: "page_bytes s' p = replicate (psz s) 0" if "p \<in> set (?c # new)" for p
      using that s'(5)[of ?c] s'(6)[of p] by (auto simp: page_bytes_def[of ?s] fr)
    have "wf_pages U (A(t \<mapsto> ps @ ?c # new)) s'" using s'(3) by (simp only: fun_upd_upd append_assoc append_Cons append_Nil)
    moreover have "sealed {} A s'" using s'(4) by (simp add: sealed_none)
    moreover have "length (?c # new) = Suc n" using s'(2) by simp
    moreover have "hash_table s' = hash_table s \<and> page_size s' = page_size s \<and> initialized s' = initialized s"
      using s'(7) by simp
    ultimately show ?case using run b1 b2 by (intro exI[of _ "?c # new"] exI[of _ s']) blast
  qed simp
qed

end
