(* ===== verification/TlsCalls.thy ===== *)
theory TlsCalls
  imports TlsRead
begin

text \<open>
  Creating, cloning and destroying an area: each call is total on allowed arguments, keeps the
  invariant, and does to the abstraction \<open>abs_tls\<close> what the specification says.
\<close>

lemma abs_tls_None_iff: "abs_tls s t = None \<longleftrightarrow> area s t = None"
  by (simp add: abs_tls_def)

lemma dom_abs_tls: "dom (abs_tls s) = dom (area s)"
  by (simp add: dom_def abs_tls_None_iff)

lemma tls_start_spec:
  assumes "kernel_ok k" "tls_inv k U s"
  obtains s' where "(if \<not> initialized s then tls_init k s else Inr s) = Inr s'" "initialized s'" "tls_inv k U s'"
    "abs_tls s' = abs_tls s" "vm s' = vm s" "area s' = area s"
proof (cases "initialized s")
  case True
  then show thesis using that[of s] assms(2) by simp
next
  case False
  let ?s = "s\<lparr>page_size := getpagesize k, initialized := True\<rparr>"
  have a: "hash_table s = empty_table" "page_heap s = (\<lambda>_. None)" "dom (vm s) = U"
    using assms(2) False by (simp_all add: tls_inv_def)
  have f: "find_tls (hash_table s) = (\<lambda>_. None)" using a(1) tls_table.find_empty by simp
  have "wf_pages U (page_lists ?s) ?s"
    using assms(1) a(2,3) by (auto simp: wf_pages_def kernel_ok_def page_lists_def f addresses_def)
  moreover have "table_ok (hash_table s)" using a(1) tls_table.invar_empty by simp
  moreover have "frame ?s p = None" for p by (simp add: frame_def a)
  ultimately have "tls_inv k U ?s" by (simp add: tls_inv_def table_inv_def f sealed_def)
  moreover have "abs_tls ?s = abs_tls s" by (simp add: abs_tls_def f fun_eq_iff)
  moreover have "(if \<not> initialized s then tls_init k s else Inr s) = Inr ?s"
    using assms(1) False by (simp add: tls_init_def kernel_ok_def Let_def)
  ultimately show thesis using that[of ?s] by simp
qed

definition pages_for :: "kernel \<Rightarrow> u32 \<Rightarrow> nat" where
  "pages_for k sz = (unat sz + unat (getpagesize k) - 1) div unat (getpagesize k)"

lemma pages_for_word:
  assumes "0 < unat ps" "unat sz + unat ps \<le> 2 ^ 32"
  shows "unat ((sz + ps - 1) div ps) = (unat sz + unat ps - 1) div unat (ps :: u32)"
proof -
  have e: "sz + ps - 1 = ps - 1 + sz" by simp
  have p1: "unat (ps - 1) = unat ps - 1" using assms(1) by (subst unat_rules) auto
  have "unat (ps - 1 + sz) = unat (ps - 1) + unat sz"
    using assms by (intro unat_rules) (simp add: p1)
  then have "unat (sz + ps - 1) = unat sz + unat ps - 1" unfolding e p1 using assms(1) by linarith
  then show ?thesis by (simp add: unat_div)
qed

lemma pages_for_enough: "0 < unat (getpagesize k) \<Longrightarrow> unat sz \<le> unat (getpagesize k) * pages_for k sz"
proof -
  let ?p = "unat (getpagesize k)"
  assume p: "0 < ?p"
  have "(unat sz + ?p - 1) mod ?p \<le> ?p - 1" using p by (simp add: Suc_le_eq less_Suc_eq_le[symmetric] Suc_pred)
  then have "unat sz + ?p - 1 \<le> ?p * pages_for k sz + (?p - 1)"
    using mult_div_mod_eq[of ?p "unat sz + ?p - 1"] unfolding pages_for_def by linarith
  then show "unat sz \<le> ?p * pages_for k sz" using p by linarith
qed

lemma pages_for_tight:
  "0 < unat (getpagesize k) \<Longrightarrow> unat (getpagesize k) * pages_for k sz < unat sz + unat (getpagesize k)"
  using mult_div_mod_eq[of "unat (getpagesize k)" "unat sz + unat (getpagesize k) - 1"]
  unfolding pages_for_def by linarith

lemma concat_zeros: "(\<And>x. x \<in> set xs \<Longrightarrow> f x = replicate n z) \<Longrightarrow> concat (map f xs) = replicate (n * length xs) z"
  by (induction xs) (simp_all add: replicate_add)

lemma wf_drop_empty: "wf_pages U (A(t \<mapsto> [])) s \<Longrightarrow> wf_pages U (A(t := None)) s"
  using wf_drop_area[of U "A(t \<mapsto> [])" s t] by simp

lemma tls_create_spec:
  assumes k: "kernel_ok k" and inv: "tls_inv k U s" and fit: "unat sz + unat (getpagesize k) \<le> 2 ^ 32"
    and room: "room k s (pages_for k sz)"
  shows "\<exists>r s'. tls_create k t sz s = Inr (r, s') \<and> tls_inv k U s' \<and>
    (if sz = 0 \<or> abs_tls s t \<noteq> None then r = -1 \<and> abs_tls s' = abs_tls s
     else r = 0 \<and> abs_tls s' = (abs_tls s)(t \<mapsto> replicate (unat sz) 0))"
proof (rule tls_start_spec[OF k inv])
  fix s1 assume s1: "(if \<not> initialized s then tls_init k s else Inr s) = Inr s1" "initialized s1"
    "tls_inv k U s1" "abs_tls s1 = abs_tls s" "vm s1 = vm s" "area s1 = area s"
  note I = tls_inv_initialized[OF s1(3,2)]
  show ?thesis
  proof (cases "sz = 0 \<or> abs_tls s t \<noteq> None")
    case True
    then have "tls_create k t sz s = Inr (-1, s1)"
      unfolding tls_create_def s1(1) using s1(6) by (auto simp: abs_tls_None_iff split: option.splits)
    then show ?thesis using True s1(3,4) by auto
  next
    case False
    then have new: "area s1 t = None" "sz \<noteq> 0" using s1(6) by (auto simp: abs_tls_None_iff)
    let ?ps = "unat (getpagesize k)" let ?n = "(sz + page_size s1 - 1) div page_size s1"
    have pos: "0 < ?ps" using psize_pos[OF wf_pagesD(1)[OF I(3)]] I(5) by simp
    have n: "unat ?n = pages_for k sz" using pages_for_word[OF pos fit] I(5) by (simp add: pages_for_def)
    have wf0: "wf_pages U ((page_lists s1)(t \<mapsto> [])) s1"
      by (rule wf_empty_area[OF I(3)]) (simp add: page_lists_def new)
    have "room k s1 (unat ?n)" using room s1(5) by (simp add: n room_def)
    then obtain ps s2 where s2: "create_pages k (unat ?n) [] s1 = Inr (ps, s2)" "length ps = unat ?n"
      "wf_pages U ((page_lists s1)(t \<mapsto> ps)) s2" "sealed {} ((page_lists s1)(t \<mapsto> [])) s2"
      "\<And>p. page_heap s1 p \<noteq> None \<Longrightarrow> page_bytes s2 p = page_bytes s1 p"
      "\<And>p. p \<in> set ps \<Longrightarrow> page_bytes s2 p = replicate (psz s1) 0"
      "hash_table s2 = hash_table s1" "page_size s2 = page_size s1" "initialized s2 = initialized s1"
      using create_pages_spec[OF k wf0 _ _ I(5), where t = t and ps = "[]" and n = "unat ?n"] I(4)
      by (auto simp: sealed_none)
    let ?a = "\<lparr>tls_tid = t, tsize = sz, page_num = ?n, pages = ps\<rparr>"
    let ?h = "push_elem t ?a (hash_table s2)" let ?s = "s2\<lparr>hash_table := ?h\<rparr>"
    have h: "find_tls ?h = (area s1)(t \<mapsto> ?a)" "table_ok ?h"
      using tls_table.find_insert[OF I(1) new(1)] tls_table.invar_insert[OF I(1) new(1)] s2(7) by simp_all
    have ok: "area_ok s1 t ?a"
      using s2(2) pages_for_enough[OF pos, of sz] pages_for_tight[OF pos, of sz] n I(5) by (simp add: area_ok_def)
    have inv': "tls_inv k U ?s"
      by (rule tls_inv_area[OF s1(3,2) _ _ ok h(2,1)])
        (use s2(3,4,8,9) s1(2) in \<open>simp_all add: sealed_none\<close>)
    have "abs_tls ?s u = ((abs_tls s)(t \<mapsto> replicate (unat sz) 0)) u" for u
    proof (cases "u = t")
      case True
      have "area_bytes s2 ps = replicate (psz s1 * length ps) 0"
        unfolding area_bytes_def by (rule concat_zeros[OF s2(6)])
      moreover have "unat sz \<le> psz s1 * length ps" using ok s2(2) by (simp add: area_ok_def)
      ultimately show ?thesis using True by (simp add: abs_tls_def h(1) area_bytes_def min_absorb1)
    next
      case False
      have "abs_tls ?s u = abs_tls s1 u"
      proof (rule abs_tls_cong)
        show "area ?s u = area s1 u" using False by (simp add: h(1))
        fix a p assume a: "area s1 u = Some a" "p \<in> set (pages a)"
        then have "p \<in> dom (page_heap s1)" using wf_pagesD(3)[OF I(3), of u "pages a"] by auto
        then show "page_bytes ?s p = page_bytes s1 p" using s2(5)[of p] by auto
      qed
      then show ?thesis using False s1(4) by simp
    qed
    then have "abs_tls ?s = (abs_tls s)(t \<mapsto> replicate (unat sz) 0)" by (rule ext)
    moreover have "tls_create k t sz s = Inr (0, ?s)"
      unfolding tls_create_def s1(1) using new s2(1) by (simp add: Let_def word_le_nat_alt unat_eq_zero)
    ultimately show ?thesis using inv' False by auto
  qed
qed

section \<open>Cloning\<close>

lemma share_pages_spec:
  assumes "wf_pages U A s" "A t = Some qs" "distinct (qs @ ps)" "set ps \<subseteq> dom (page_heap s)"
    and "\<And>p pg. p \<in> set ps \<Longrightarrow> page_heap s p = Some pg \<Longrightarrow> ref_count pg < 2 ^ 31 - 1"
  shows "\<exists>s'. for_pages share_page ps s = Inr s' \<and> wf_pages U (A(t \<mapsto> qs @ ps)) s' \<and> frame s' = frame s \<and>
    s' = s\<lparr>page_heap := page_heap s'\<rparr>"
  using assms
proof (induction ps arbitrary: s A qs)
  case Nil
  then have "A(t \<mapsto> qs) = A" by (simp add: fun_upd_idem)
  then show ?case using Nil(1) by simp
next
  case (Cons p ps)
  obtain pg where pg: "page_heap s p = Some pg" using Cons.prems(4) by auto
  show ?case
  proof (rule share_page_spec[OF Cons.prems(1,2) pg _ Cons.prems(5)[OF _ pg]])
    show "p \<notin> set qs" using Cons.prems(3) by auto
    show "p \<in> set (p # ps)" by simp
    fix s1 assume s1: "share_page p s = Inr s1" "wf_pages U (A(t \<mapsto> qs @ [p])) s1" "frame s1 = frame s"
      "s1 = s\<lparr>page_heap := page_heap s1\<rparr>" "dom (page_heap s1) = dom (page_heap s)"
      "\<And>q. q \<noteq> p \<Longrightarrow> page_heap s1 q = page_heap s q"
    have "\<exists>s'. for_pages share_page ps s1 = Inr s' \<and> wf_pages U ((A(t \<mapsto> qs @ [p]))(t \<mapsto> (qs @ [p]) @ ps)) s' \<and>
      frame s' = frame s1 \<and> s' = s1\<lparr>page_heap := page_heap s'\<rparr>"
    proof (rule Cons.IH[OF s1(2)])
      show "ref_count pg' < 2 ^ 31 - 1" if "q \<in> set ps" "page_heap s1 q = Some pg'" for q pg'
      proof (rule Cons.prems(5))
        show "q \<in> set (p # ps)" using that(1) by simp
        have "q \<noteq> p" using that(1) Cons.prems(3) by auto
        then show "page_heap s q = Some pg'" using s1(6) that(2) by simp
      qed
    qed (use Cons.prems(3,4) s1(5) in auto)
    then obtain s' where s': "for_pages share_page ps s1 = Inr s'" "wf_pages U (A(t \<mapsto> qs @ p # ps)) s'"
      "frame s' = frame s1" "s' = s1\<lparr>page_heap := page_heap s'\<rparr>"
      by (auto simp: append_assoc)
    have "s' = s\<lparr>page_heap := page_heap s'\<rparr>" by (subst s'(4), subst s1(4)) simp
    moreover have "for_pages share_page (p # ps) s = Inr s'" using s1(1) s'(1) by simp
    moreover have "frame s' = frame s" using s'(3) s1(3) by simp
    ultimately show ?thesis using s'(2) by blast
  qed
qed

lemma tls_clone_spec:
  assumes inv: "tls_inv k U s" and few: "card (dom (abs_tls s)) < 2 ^ 31 - 1"
  shows "\<exists>r s'. tls_clone self t s = Inr (r, s') \<and> tls_inv k U s' \<and>
    (case (abs_tls s t, abs_tls s self) of
       (Some bs, None) \<Rightarrow> r = 0 \<and> abs_tls s' = (abs_tls s)(self \<mapsto> bs)
     | _ \<Rightarrow> r = -1 \<and> s' = s)"
proof (cases "area s t = None \<or> area s self \<noteq> None")
  case True
  then have "tls_clone self t s = Inr (-1, s)" by (auto simp: tls_clone_def split: option.splits)
  then show ?thesis using True inv by (auto simp: abs_tls_None_iff split: option.splits)
next
  case False
  then obtain a where a: "area s t = Some a" and new: "area s self = None" by auto
  have init: "initialized s" using tls_inv_start(1)[OF inv] a by (cases "initialized s") auto
  note I = tls_inv_initialized[OF inv init]
  have A: "page_lists s t = Some (pages a)" "page_lists s self = None" using a new by (simp_all add: page_lists_def)
  note wf0 = wf_empty_area[OF I(3) A(2)]
  have cnt: "ref_count pg < 2 ^ 31 - 1" if "page_heap s p = Some pg" for p pg
  proof -
    have "users (page_lists s) p \<subseteq> dom (abs_tls s)"
      by (auto simp: users_def page_lists_def dom_abs_tls)
    then have "card (users (page_lists s) p) \<le> card (dom (abs_tls s))" by (intro card_mono) (auto intro: finite)
    then show ?thesis using page_okD(2)[OF wf_pagesD(4)[OF I(3) that]] few by simp
  qed
  obtain s1 where s1: "for_pages share_page (pages a) s = Inr s1"
    "wf_pages U ((page_lists s)(self \<mapsto> pages a)) s1" "frame s1 = frame s" "s1 = s\<lparr>page_heap := page_heap s1\<rparr>"
    using share_pages_spec[OF wf0, of self "[]" "pages a"] wf_pagesD(2,3)[OF I(3) A(1)] cnt by auto
  have keep: "hash_table s1 = hash_table s" "page_size s1 = page_size s" "initialized s1"
    using init by (subst s1(4), simp)+
  let ?a = "\<lparr>tls_tid = self, tsize = tsize a, page_num = page_num a, pages = pages a\<rparr>"
  let ?h = "push_elem self ?a (hash_table s1)" let ?s = "s1\<lparr>hash_table := ?h\<rparr>"
  have h: "find_tls ?h = (area s)(self \<mapsto> ?a)" "table_ok ?h"
    using tls_table.find_insert[OF I(1) new] tls_table.invar_insert[OF I(1) new] keep(1) by simp_all
  have ok: "area_ok s self ?a" using I(2)[OF a] unfolding area_ok_def tls.select_convs by blast
  have inv': "tls_inv k U ?s"
    by (rule tls_inv_area[OF inv init _ _ ok h(2,1)])
      (use s1(2,3) keep(2,3) I(4) in \<open>simp_all add: sealed_none\<close>)
  have b: "page_bytes s1 = page_bytes s" using s1(3) by (simp add: page_bytes_def fun_eq_iff)
  have "abs_tls ?s u = ((abs_tls s)(self \<mapsto> take (unat (tsize a)) (area_bytes s (pages a)))) u" for u
  proof (cases "u = self")
    case True
    then show ?thesis by (simp add: abs_tls_def h(1) area_bytes_def b)
  next
    case False
    then have "abs_tls ?s u = abs_tls s u" by (intro abs_tls_cong) (simp_all add: h(1) b)
    then show ?thesis using False by simp
  qed
  then have "abs_tls ?s = (abs_tls s)(self \<mapsto> take (unat (tsize a)) (area_bytes s (pages a)))" by (rule ext)
  moreover have "abs_tls s t = Some (take (unat (tsize a)) (area_bytes s (pages a)))" "abs_tls s self = None"
    using a new by (simp_all add: abs_tls_def)
  moreover have "tls_clone self t s = Inr (0, ?s)" using a new s1(1) by (simp add: tls_clone_def)
  ultimately show ?thesis using inv' by auto
qed

section \<open>Destroying\<close>

lemma release_pages_spec:
  assumes "wf_pages U A s" "A t = Some ps"
  shows "\<exists>s'. for_pages release_page ps s = Inr s' \<and> wf_pages U (A(t \<mapsto> [])) s' \<and>
    (\<forall>q v. frame s' q = Some v \<longrightarrow> frame s q = Some v) \<and>
    (\<forall>q u. u \<noteq> t \<and> u \<in> users A q \<longrightarrow> frame s' q = frame s q) \<and>
    hash_table s' = hash_table s \<and> page_size s' = page_size s \<and> initialized s' = initialized s"
  using assms
proof (induction ps arbitrary: s A)
  case Nil
  then have "A(t \<mapsto> []) = A" by (simp add: fun_upd_idem)
  then show ?case using Nil by (intro exI[of _ s]) simp
next
  case (Cons p ps)
  show ?case
  proof (rule release_page_spec[OF Cons.prems])
    fix s1 assume s1: "release_page p s = Inr s1" "wf_pages U (A(t \<mapsto> ps)) s1"
      "\<And>q v. frame s1 q = Some v \<Longrightarrow> frame s q = Some v"
      "\<And>q. frame s q \<noteq> None \<Longrightarrow> q \<noteq> p \<Longrightarrow> frame s1 q = frame s q"
      "users A p \<noteq> {t} \<Longrightarrow> frame s1 p = frame s p"
      "hash_table s1 = hash_table s" "page_size s1 = page_size s" "initialized s1 = initialized s"
    have "\<exists>s'. for_pages release_page ps s1 = Inr s' \<and> wf_pages U ((A(t \<mapsto> ps))(t \<mapsto> [])) s' \<and>
      (\<forall>q v. frame s' q = Some v \<longrightarrow> frame s1 q = Some v) \<and>
      (\<forall>q u. u \<noteq> t \<and> u \<in> users (A(t \<mapsto> ps)) q \<longrightarrow> frame s' q = frame s1 q) \<and>
      hash_table s' = hash_table s1 \<and> page_size s' = page_size s1 \<and> initialized s' = initialized s1"
      by (rule Cons.IH[OF s1(2)]) simp
    then obtain s' where s': "for_pages release_page ps s1 = Inr s'"
      "wf_pages U (A(t \<mapsto> [])) s'" "\<And>q v. frame s' q = Some v \<Longrightarrow> frame s1 q = Some v"
      "\<And>q u. u \<noteq> t \<Longrightarrow> u \<in> users (A(t \<mapsto> ps)) q \<Longrightarrow> frame s' q = frame s1 q"
      "hash_table s' = hash_table s1" "page_size s' = page_size s1" "initialized s' = initialized s1"
      unfolding fun_upd_upd by blast
    have "frame s' q = frame s q" if u: "u \<noteq> t" "u \<in> users A q" for q u
    proof -
      have "frame s' q = frame s1 q" using u by (intro s'(4)[of u]) (auto simp: users_upd)
      moreover have "frame s1 q = frame s q"
      proof (cases "q = p")
        case True
        then show ?thesis using s1(5) u by blast
      next
        case False
        obtain qs where "A u = Some qs" "q \<in> set qs" using u(2) by (auto simp: users_def)
        then obtain pg where "page_heap s q = Some pg" using wf_pagesD(3)[OF Cons.prems(1)] by blast
        then have "frame s q \<noteq> None" by (rule core_frame[OF Cons.prems(1)]) simp
        then show ?thesis using s1(4) False by blast
      qed
      ultimately show ?thesis by simp
    qed
    moreover have "for_pages release_page (p # ps) s = Inr s'" using s1(1) s'(1) by simp
    moreover have "hash_table s' = hash_table s" "page_size s' = page_size s" "initialized s' = initialized s"
      using s1(6-8) s'(5-7) by simp_all
    ultimately show ?thesis using s1(3) s'(2,3) by blast
  qed
qed

lemma tls_destroy_spec:
  assumes inv: "tls_inv k U s"
  shows "\<exists>r s'. tls_destroy t s = Inr (r, s') \<and> tls_inv k U s' \<and>
    (if abs_tls s t = None then r = -1 \<and> s' = s else r = 0 \<and> abs_tls s' = (abs_tls s)(t := None))"
proof (cases "area s t")
  case None
  then show ?thesis using inv by (simp add: tls_destroy_def abs_tls_None_iff)
next
  case (Some a)
  have init: "initialized s" using tls_inv_start(1)[OF inv] Some by (cases "initialized s") auto
  note I = tls_inv_initialized[OF inv init]
  have A: "page_lists s t = Some (pages a)" using Some by simp
  obtain s1 where s1: "for_pages release_page (pages a) s = Inr s1" "wf_pages U ((page_lists s)(t \<mapsto> [])) s1"
    "\<And>q v. frame s1 q = Some v \<Longrightarrow> frame s q = Some v"
    "\<And>q u. u \<noteq> t \<Longrightarrow> u \<in> users (page_lists s) q \<Longrightarrow> frame s1 q = frame s q"
    "hash_table s1 = hash_table s" "page_size s1 = page_size s" "initialized s1 = initialized s"
    using release_pages_spec[OF I(3) A] by blast
  let ?h = "remove_elem t (hash_table s1)" let ?s = "s1\<lparr>hash_table := ?h\<rparr>"
  have h: "find_tls ?h = (area s)(t := None)" "table_ok ?h"
    using tls_table.find_remove[OF I(1)] tls_table.invar_remove[OF I(1)] s1(5) by simp_all
  have pl: "page_lists ?s = (page_lists s)(t := None)" by (auto simp: page_lists_def h(1))
  have "sealed {} (page_lists ?s) ?s" using I(4) s1(3) unfolding sealed_none frame_table by blast
  moreover have "area_ok ?s u a'" if "area ?s u = Some a'" for u a'
    using that I(2) area_ok_cong[of ?s s] s1(6) by (auto simp: h(1) split: if_splits)
  moreover have "wf_pages U (page_lists ?s) ?s" using wf_drop_empty[OF s1(2)] by (simp add: pl)
  ultimately have inv': "tls_inv k U ?s"
    using init s1(6,7) I(5) h(2) by (simp add: tls_inv_def table_inv_def)
  have "abs_tls ?s u = ((abs_tls s)(t := None)) u" for u
  proof (cases "u = t")
    case True
    then show ?thesis by (simp add: abs_tls_def h(1))
  next
    case False
    have "abs_tls ?s u = abs_tls s u"
    proof (rule abs_tls_cong)
      show "area ?s u = area s u" using False by (simp add: h(1))
      fix a' p assume "area s u = Some a'" "p \<in> set (pages a')"
      then have "u \<in> users (page_lists s) p" by (auto simp: users_def)
      then show "page_bytes ?s p = page_bytes s p" using s1(4)[OF False] by (simp add: page_bytes_def)
    qed
    then show ?thesis using False by simp
  qed
  then have "abs_tls ?s = (abs_tls s)(t := None)" by (rule ext)
  moreover have "tls_destroy t s = Inr (0, ?s)" using Some s1(1) by (simp add: tls_destroy_def)
  ultimately show ?thesis using inv' Some by (auto simp: abs_tls_None_iff)
qed

end
