(* ===== verification/TlsWrite.thy ===== *)
theory TlsWrite
  imports TlsRead
begin

text \<open>
  Writing, with copy on write: while a call of \<open>tls_write\<close> runs, the area of the writer is open and
  its page pointers change one at a time; every other area keeps its pages and their bytes.
\<close>

section \<open>The state during a write\<close>

definition writing :: "kernel \<Rightarrow> u64 set \<Rightarrow> u64 \<Rightarrow> tls \<Rightarrow> nat list \<Rightarrow> process \<Rightarrow> bool" where
  "writing k U t a ps s \<longleftrightarrow> table_ok (hash_table s) \<and> area s t = Some (a\<lparr>pages := ps\<rparr>) \<and>
     wf_pages U (page_lists s) s \<and> sealed (set ps) (page_lists s) s \<and>
     page_size s = getpagesize k \<and> initialized s"

text \<open>How many pages of the area are shared: an upper bound of the copies the call still makes.\<close>

definition shared :: "process \<Rightarrow> nat list \<Rightarrow> nat" where
  "shared s ps = card {i. i < length ps \<and> 1 < card (users (page_lists s) (ps ! i))}"

lemma writingD:
  assumes "writing k U t a ps s"
  shows "table_ok (hash_table s)" "area s t = Some (a\<lparr>pages := ps\<rparr>)" "wf_pages U (page_lists s) s"
    "sealed (set ps) (page_lists s) s" "page_size s = getpagesize k" "initialized s"
    "page_lists s t = Some ps" "distinct ps" "set ps \<subseteq> dom (page_heap s)"
proof -
  show *: "table_ok (hash_table s)" "area s t = Some (a\<lparr>pages := ps\<rparr>)" "wf_pages U (page_lists s) s"
    "sealed (set ps) (page_lists s) s" "page_size s = getpagesize k" "initialized s"
    using assms by (simp_all add: writing_def)
  show pl: "page_lists s t = Some ps" using *(2) by simp
  show "distinct ps" "set ps \<subseteq> dom (page_heap s)" using wf_pagesD(2,3)[OF *(3) pl] by simp_all
qed

text \<open>What a round of the loop leaves alone: the areas of the other threads.\<close>

definition others :: "u64 \<Rightarrow> process \<Rightarrow> process \<Rightarrow> bool" where
  "others t s s' \<longleftrightarrow> (\<forall>u. u \<noteq> t \<longrightarrow> area s' u = area s u \<and> abs_tls s' u = abs_tls s u)"

lemma others_refl [simp]: "others t s s"
  by (simp add: others_def)

lemma others_trans: "others t s s' \<Longrightarrow> others t s' s'' \<Longrightarrow> others t s s''"
  by (simp add: others_def)

lemma othersI:
  assumes wf: "wf_pages U (page_lists s) s" and ar: "\<And>u. u \<noteq> t \<Longrightarrow> area s' u = area s u"
    and bytes: "\<And>p u. u \<noteq> t \<Longrightarrow> u \<in> users (page_lists s) p \<Longrightarrow> page_bytes s' p = page_bytes s p"
  shows "others t s s'"
  unfolding others_def
proof (intro allI impI conjI)
  fix u assume u: "u \<noteq> t"
  show "area s' u = area s u" by (rule ar[OF u])
  show "abs_tls s' u = abs_tls s u"
    by (rule abs_tls_cong[OF ar[OF u] bytes[OF u]]) (auto simp: users_def)
qed

section \<open>Copy on write\<close>

lemma area_bytes_replace:
  assumes "i < length ps" "c \<notin> set ps" "distinct ps"
    and "\<And>q. q \<noteq> c \<Longrightarrow> page_bytes s' q = page_bytes s q" "page_bytes s' c = page_bytes s (ps ! i)"
  shows "area_bytes s' (ps[i := c]) = area_bytes s ps"
proof -
  have "map (page_bytes s') (ps[i := c]) = map (page_bytes s) ps"
  proof (rule nth_equalityI)
    fix j assume "j < length (map (page_bytes s') (ps[i := c]))"
    then have j: "j < length ps" by simp
    have "ps ! j \<noteq> c" using nth_mem[OF j] assms(2) by auto
    then show "map (page_bytes s') (ps[i := c]) ! j = map (page_bytes s) ps ! j"
      using j assms(4)[of "ps ! j"] assms(5) by (cases "j = i") (simp_all add: nth_list_update)
  qed simp
  then show ?thesis by (simp add: area_bytes_def)
qed

text \<open>The state after the copy was made and entered in the area, before the old page is protected.\<close>

lemma copied_page:
  assumes W: "writing k U t a ps s" and i: "i < length ps" and pg: "page_heap s (ps ! i) = Some pg"
    and rc: "1 < ref_count pg" and x: "vm s x = None" "page_of s x = x"
    and v: "frame s (ps ! i) = Some v"
  defines "c \<equiv> next_ptr s"
  defines "w \<equiv> \<lparr>readable = False, writable = True, contents = contents v\<rparr>"
  defines "s2 \<equiv> add_page x w (set_count (ps ! i) pg (ref_count pg - 1) s)"
  defines "s3 \<equiv> s2\<lparr>hash_table := set_tls t (a\<lparr>pages := ps[i := c]\<rparr>) (hash_table s)\<rparr>"
  shows "wf_pages U (page_lists s3) s3" "page_lists s3 = (page_lists s)(t \<mapsto> ps[i := c])"
    "area s3 = (area s)(t \<mapsto> a\<lparr>pages := ps[i := c]\<rparr>)" "table_ok (hash_table s3)"
    "\<And>q. frame s3 q = (if q = c then Some w else frame s q)"
    "c \<notin> set ps" "page_heap s3 (ps ! i) = Some (pg\<lparr>ref_count := ref_count pg - 1\<rparr>)"
    "page_heap s3 c = Some \<lparr>address = x, ref_count = 1\<rparr>"
proof -
  note D = writingD[OF W]
  let ?p = "ps ! i" let ?s1 = "set_count ?p pg (ref_count pg - 1) s" let ?qs = "take i ps @ drop (Suc i) ps"
  show c: "c \<notin> set ps" using fresh_ptr[OF D(3)] D(9) by (auto simp: c_def)
  have ps: "ps = take i ps @ ?p # drop (Suc i) ps" by (rule id_take_nth_drop[OF i])
  have "distinct (take i ps @ ?p # drop (Suc i) ps)" using D(8) ps by simp
  then have dq: "distinct ?qs" "set ?qs = set (take i ps @ ?p # drop (Suc i) ps) - {?p}" by auto
  then have q: "distinct ?qs" "set ?qs = set ps - {?p}" using ps by simp_all
  have wf1: "wf_pages U ((page_lists s)(t \<mapsto> ?qs)) ?s1"
    by (rule leave_page[OF D(3,7) pg nth_mem[OF i] rc q])
  have fr1: "frame ?s1 = frame s" by (rule set_count_frame[OF pg])
  have len: "length (contents w) = psz ?s1"
    by (rule core_frame[OF D(3) pg]) (use v in \<open>simp add: w_def\<close>)
  have po: "page_of ?s1 x = x" using x(2) by (simp add: page_of_def)
  have up: "ps[i := c] = take i ps @ c # drop (Suc i) ps" by (rule upd_conv_take_nth_drop[OF i])
  have "wf_pages U (((page_lists s)(t \<mapsto> ?qs))(t \<mapsto> ps[i := c])) s2"
    unfolding s2_def
    by (rule add_page_wf[OF wf1 _ _ po len])
      (use x(1) q(1) c up in \<open>auto simp: c_def dest: in_set_takeD in_set_dropD\<close>)
  then have wf2: "wf_pages U ((page_lists s)(t \<mapsto> ps[i := c])) s2" by simp
  have h: "find_tls (hash_table s3) = (area s)(t \<mapsto> a\<lparr>pages := ps[i := c]\<rparr>)"
    using tls_table.find_replace[OF D(1), of t] D(2) by (simp add: s3_def)
  then show "area s3 = (area s)(t \<mapsto> a\<lparr>pages := ps[i := c]\<rparr>)" .
  show pl: "page_lists s3 = (page_lists s)(t \<mapsto> ps[i := c])"
    by (auto simp: page_lists_def h)
  show "wf_pages U (page_lists s3) s3" unfolding pl unfolding s3_def using wf2 by simp
  show "table_ok (hash_table s3)" using tls_table.invar_replace[OF D(1)] by (simp add: s3_def)
  show "frame s3 q = (if q = c then Some w else frame s q)" for q
    using add_page_frame[OF wf1, of x w q] x(1) by (simp add: s3_def s2_def c_def fr1)
  have "?p \<noteq> c" using c nth_mem[OF i] by auto
  then show "page_heap s3 ?p = Some (pg\<lparr>ref_count := ref_count pg - 1\<rparr>)"
    "page_heap s3 c = Some \<lparr>address = x, ref_count = 1\<rparr>"
    by (simp_all add: s3_def s2_def c_def)
qed

lemma own_page_copies:
  assumes k: "kernel_ok k" and W: "writing k U t a ps s" and x: "unat x < psz s * length ps"
    and pa: "page_at ps x s = Inr (ps ! i, pg)" "i = unat (x div page_size s)" "i < length ps"
      "page_heap s (ps ! i) = Some pg"
    and rc: "1 < ref_count pg" and room: "room k s (Suc n)"
  shows "\<exists>pg' ps' s'. own_page k t a ps x s = Inr (pg', ps', s') \<and> writing k U t a ps' s' \<and>
    ps' = ps[i := next_ptr s] \<and> next_ptr s \<notin> set ps \<and> page_heap s' (ps' ! i) = Some pg' \<and>
    page_lists s' = (page_lists s)(t \<mapsto> ps') \<and> area_bytes s' ps' = area_bytes s ps \<and> others t s s' \<and> room k s' n"
proof (rule mmap_spec[OF k writingD(5)[OF W] room, of False True])
  note D = writingD[OF W] note wf = D(3)
  let ?p = "ps ! i" let ?c = "next_ptr s" let ?z = "replicate (psz s) 0"
  fix y assume y: "vm s y = None" "page_of s y = y" "y \<noteq> MAP_FAILED"
    and mm: "mmap k False True s =
      (y, s\<lparr>vm := (vm s)(y \<mapsto> \<lparr>readable = False, writable = True, contents = ?z\<rparr>)\<rparr>)"
  obtain v where v: "frame s ?p = Some v" "vm s (address pg) = Some v"
    using core_frame[OF wf pa(4)] by blast
  have cnt: "1 < card (users (page_lists s) ?p)"
    using rc page_okD(2)[OF wf_pagesD(4)[OF wf pa(4)]] by simp
  have rd: "readable v" using D(4) v(1) nth_mem[OF pa(3)] cnt unfolding sealed_def by fastforce
  let ?w = "\<lparr>readable = False, writable = True, contents = contents v\<rparr>"
  let ?s2 = "add_page y ?w (set_count ?p pg (ref_count pg - 1) s)"
  let ?s3 = "?s2\<lparr>hash_table := set_tls t (a\<lparr>pages := ps[i := ?c]\<rparr>) (hash_table s)\<rparr>"
  note C = copied_page[OF W pa(3,4) rc y(1,2) v(1)]
  have ne: "?p \<noteq> ?c" using C(6) nth_mem[OF pa(3)] by auto
  have cp: "copy_page y (address pg) (s\<lparr>vm := (vm s)(y \<mapsto> \<lparr>readable = False, writable = True, contents = ?z\<rparr>)\<rparr>) =
    Inr (s\<lparr>vm := (vm s)(y \<mapsto> ?w)\<rparr>)"
    using y(1) v(2) rd by (auto simp: copy_page_def)
  have s3: "s\<lparr>vm := (vm s)(y \<mapsto> ?w),
      page_heap := (page_heap s)(?c \<mapsto> \<lparr>address = y, ref_count = 1\<rparr>, ?p \<mapsto> pg\<lparr>ref_count := ref_count pg - 1\<rparr>),
      next_ptr := ?c + 1, hash_table := set_tls t (a\<lparr>pages := ps[i := ?c]\<rparr>) (hash_table s)\<rparr> = ?s3"
    using ne by (simp add: add_page_def set_count_def fun_upd_twist)
  obtain m where m: "set_protection False ?p ?s3 = Inr (?s3\<lparr>vm := m\<rparr>)"
    "wf_pages U (page_lists ?s3) (?s3\<lparr>vm := m\<rparr>)" "dom m = dom (vm ?s3)"
    and f: "\<And>q. frame (?s3\<lparr>vm := m\<rparr>) q = (if q = ?p then map_option (protect False) (frame ?s3 q) else frame ?s3 q)"
    using set_protection_spec[OF C(1,7), of False] by blast
  have f3: "frame ?s2 q = (if q = ?c then Some ?w else frame s q)" for q using C(5)[of q] by simp
  let ?s4 = "?s3\<lparr>vm := m\<rparr>"
  have f4: "frame ?s4 q = (if q = ?p then map_option (protect False) (frame s q)
      else if q = ?c then Some ?w else frame s q)" for q
    using f[of q] ne by (simp add: f3)
  have run: "own_page k t a ps x s = Inr (\<lparr>address = y, ref_count = 1\<rparr>, ps[i := ?c], ?s4)"
    unfolding own_page_def
    by (simp add: pa(1) rc mm Let_def cp pa(2)[symmetric] tls_protect_def s3[simplified] m(1)[simplified])
  have pl: "page_lists ?s4 = (page_lists s)(t \<mapsto> ps[i := ?c])"
    using page_lists_cong[of ?s4 ?s3] C(2) by simp
  have d': "?p \<notin> set (ps[i := ?c])" "set (ps[i := ?c]) = insert ?c (set ps - {?p})"
    using set_update_distinct[OF D(8) pa(3)] ne by simp_all
  have uc: "users (page_lists s) ?c = {}"
    using fresh_ptr[OF wf] wf_pagesD(3)[OF wf] by (auto simp: users_def)
  have us: "users ((page_lists s)(t \<mapsto> ps[i := ?c])) q =
      (if q = ?c then {t} else if q = ?p then users (page_lists s) q - {t} else users (page_lists s) q)" for q
    using d'(2) uc users_member[of "page_lists s" t ps q, OF D(7)] ne by (auto simp: users_upd)
  have by4: "page_bytes ?s4 q = (if q = ?c then contents v else page_bytes s q)" for q
    using v(1) ne unfolding page_bytes_def f4 by (auto split: option.splits)
  have "sealed (set (ps[i := ?c])) (page_lists ?s4) ?s4"
    unfolding sealed_def
  proof (intro allI impI)
    fix q u assume u: "frame ?s4 q = Some u"
    consider (c) "q = ?c" | (p) "q = ?p" | (o) "q \<noteq> ?c" "q \<noteq> ?p" by blast
    then show "if q \<in> set (ps[i := ?c])
      then writable u \<and> (1 < card (users (page_lists ?s4) q) \<longrightarrow> readable u) else \<not> readable u \<and> \<not> writable u"
    proof cases
      case c
      then have "u = ?w" using u ne f4[of q] by simp
      moreover have "q \<in> set (ps[i := ?c])" using c d'(2) by simp
      moreover have "card (users (page_lists ?s4) q) = 1" using c us[of q] unfolding pl by simp
      ultimately show ?thesis by simp
    next
      case p
      then have "u = protect False v" using u v(1) f4[of q] by simp
      moreover have "q \<notin> set (ps[i := ?c])" using p d'(1) by simp
      ultimately show ?thesis by simp
    next
      case o
      then have "frame s q = Some u" using u f4[of q] by simp
      moreover have "q \<in> set (ps[i := ?c]) \<longleftrightarrow> q \<in> set ps" using o d'(2) by blast
      moreover have "users (page_lists ?s4) q = users (page_lists s) q" using o us[of q] unfolding pl by simp
      ultimately show ?thesis using D(4) unfolding sealed_def by simp
    qed
  qed
  then have W': "writing k U t a (ps[i := ?c]) ?s4"
    using C(3,4) m(2) page_lists_cong[of ?s4 ?s3] D(5,6) by (simp add: writing_def)
  have ab: "area_bytes ?s4 (ps[i := ?c]) = area_bytes s ps"
    by (rule area_bytes_replace[OF pa(3) C(6) D(8)]) (simp_all add: by4 page_bytes_def[of s ?p] v(1))
  have "others t s ?s4"
  proof (rule othersI[OF wf])
    show "area ?s4 u = area s u" if "u \<noteq> t" for u using that C(3) by simp
    show "page_bytes ?s4 p = page_bytes s p" if "u \<in> users (page_lists s) p" for p u
      using that uc by (auto simp: by4)
  qed
  moreover have "room k ?s4 n"
  proof -
    have "room k ?s3 n" by (rule room_map[OF room y(1)]) simp
    then show ?thesis by (rule room_same) (use m(3) in simp_all)
  qed
  moreover have "page_heap ?s4 (ps[i := ?c] ! i) = Some \<lparr>address = y, ref_count = 1\<rparr>"
    using C(8) pa(3) by simp
  ultimately show ?thesis using run W' C(6) pl ab by blast
qed simp

text \<open>Either way the page to write to belongs to the writer alone, and the area reads as before.\<close>

lemma shared_copy:
  assumes D: "distinct ps" "i < length ps" "c \<notin> set ps" and A: "page_lists s t = Some ps"
    and B: "page_lists s' = (page_lists s)(t \<mapsto> ps[i := c])" and c: "users (page_lists s) c = {}"
    and sh: "1 < card (users (page_lists s) (ps ! i))"
  shows "shared s' (ps[i := c]) < shared s ps"
  unfolding shared_def
proof (rule psubset_card_mono)
  let ?S = "{j. j < length ps \<and> 1 < card (users (page_lists s) (ps ! j))}"
  let ?T = "{j. j < length (ps[i := c]) \<and> 1 < card (users (page_lists s') (ps[i := c] ! j))}"
  show "finite ?S" by simp
  have "j \<in> ?S \<and> j \<noteq> i" if j: "j \<in> ?T" for j
  proof (cases "j = i")
    case True
    then show ?thesis using j D(2) c by (simp add: B users_upd set_update_distinct[OF D(1,2)])
  next
    case False
    have jl: "j < length ps" using j by simp
    have "ps ! j \<in> set (ps[i := c])" using jl False by (metis length_list_update nth_list_update_neq nth_mem)
    moreover have "t \<in> users (page_lists s) (ps ! j)" using A nth_mem[OF jl] by (auto simp: users_def)
    ultimately show ?thesis using j False jl by (simp add: B users_upd insert_absorb)
  qed
  moreover have "i \<in> ?S" using sh D(2) by simp
  ultimately show "?T \<subset> ?S" by blast
qed

lemma own_page_spec:
  assumes k: "kernel_ok k" and W: "writing k U t a ps s" and x: "unat x < psz s * length ps"
    and room: "room k s (shared s ps)"
  shows "\<exists>pg ps' s'. own_page k t a ps x s = Inr (pg, ps', s') \<and> writing k U t a ps' s' \<and>
    length ps' = length ps \<and> page_heap s' (ps' ! (unat x div psz s)) = Some pg \<and>
    users (page_lists s') (ps' ! (unat x div psz s)) = {t} \<and>
    area_bytes s' ps' = area_bytes s ps \<and> others t s s' \<and> room k s' (shared s' ps')"
proof (rule page_at_spec[OF writingD(3,9)[OF W] x])
  note D = writingD[OF W]
  fix i pg assume p: "i = unat x div psz s" "i < length ps" "page_heap s (ps ! i) = Some pg"
    "page_at ps x s = Inr (ps ! i, pg)" "unat (x div page_size s) = i"
  note ok = page_okD(2,3)[OF wf_pagesD(4)[OF D(3) p(3)]]
  have tu: "t \<in> users (page_lists s) (ps ! i)" using D(7) nth_mem[OF p(2)] by (auto simp: users_def)
  show ?thesis
  proof (cases "1 < ref_count pg")
    case True
    then have sh: "1 < card (users (page_lists s) (ps ! i))" using ok by simp
    have "shared s ps \<noteq> 0" using sh p(2) by (auto simp: shared_def card_eq_0_iff)
    then obtain n where n: "shared s ps = Suc n" by (cases "shared s ps") auto
    let ?c = "next_ptr s"
    obtain pg' s' where s': "own_page k t a ps x s = Inr (pg', ps[i := ?c], s')"
      "writing k U t a (ps[i := ?c]) s'" "?c \<notin> set ps" "page_heap s' (ps[i := ?c] ! i) = Some pg'"
      "page_lists s' = (page_lists s)(t \<mapsto> ps[i := ?c])" "area_bytes s' (ps[i := ?c]) = area_bytes s ps"
      "others t s s'" "room k s' n"
      using own_page_copies[OF k W x p(4) p(5)[symmetric] p(2,3) True room[unfolded n]] by blast
    have uc: "users (page_lists s) ?c = {}"
      using fresh_ptr[OF D(3)] wf_pagesD(3)[OF D(3)] by (auto simp: users_def)
    have "shared s' (ps[i := ?c]) \<le> n"
      using shared_copy[OF D(8) p(2) s'(3) D(7) s'(5) uc sh] n by simp
    then have r: "room k s' (shared s' (ps[i := ?c]))" by (intro room_same[OF s'(8)]) simp_all
    have "users (page_lists s') (ps[i := ?c] ! i) = {t}"
      using uc p(2) by (simp add: s'(5) users_upd set_update_distinct[OF D(8) p(2)])
    then show ?thesis
      using s'(1,2,4,6,7) r p(1) by (intro exI[of _ pg'] exI[of _ "ps[i := ?c]"] exI[of _ s']) simp
  next
    case False
    have "card (users (page_lists s) (ps ! i)) = 1"
      using False ok tu by (metis Suc_leI card_gt_0_iff finite_users le_antisym not_less of_nat_1 of_nat_le_iff One_nat_def)
    then have "users (page_lists s) (ps ! i) = {t}" using tu by (auto simp: card_1_singleton_iff)
    moreover have "own_page k t a ps x s = Inr (pg, ps, s)" using False p(4) by (simp add: own_page_def)
    ultimately show ?thesis using W room p(1,3) by (intro exI[of _ pg] exI[of _ ps] exI[of _ s]) simp
  qed
qed

section \<open>Storing a byte\<close>

lemma update_byte:
  assumes wf: "wf_pages U A s" "wf_pages U A s'" and ps: "set ps \<subseteq> dom (page_heap s)" "distinct ps"
    and same: "page_heap s' = page_heap s" "page_size s' = page_size s" and x: "x < psz s * length ps"
    and b: "\<And>q. page_bytes s' q =
      (if q = ps ! (x div psz s) then (page_bytes s q)[x mod psz s := b] else page_bytes s q)"
  shows "area_bytes s' ps = (area_bytes s ps)[x := b]"
proof (rule nth_equalityI)
  let ?k = "psz s"
  have k: "0 < ?k" by (rule psize_pos[OF wf_pagesD(1)[OF wf(1)]])
  have l: "length (area_bytes s' ps) = ?k * length ps" "length (area_bytes s ps) = ?k * length ps"
    using length_area_bytes[OF wf(2)] length_area_bytes[OF wf(1)] ps(1) same by simp_all
  then show "length (area_bytes s' ps) = length ((area_bytes s ps)[x := b])" by simp
  fix j assume "j < length (area_bytes s' ps)"
  then have j: "j < ?k * length ps" using l by simp
  have d: "j div ?k < length ps" "x div ?k < length ps"
    using j x k by (simp_all add: div_less_iff_less_mult mult.commute)
  have e: "area_bytes s' ps ! j = page_bytes s' (ps ! (j div ?k)) ! (j mod ?k)"
    "area_bytes s ps ! j = page_bytes s (ps ! (j div ?k)) ! (j mod ?k)"
    using area_byte[OF wf(2), of ps j] area_byte[OF wf(1) ps(1) j] ps(1) same j by simp_all
  obtain pg where pg: "page_heap s (ps ! (x div ?k)) = Some pg" using ps(1) nth_mem[OF d(2)] by blast
  have lb: "length (page_bytes s (ps ! (x div ?k))) = ?k" by (rule page_bytes_length[OF wf(1) pg])
  show "area_bytes s' ps ! j = (area_bytes s ps)[x := b] ! j"
  proof (cases "j div ?k = x div ?k")
    case True
    have "j = x \<longleftrightarrow> j mod ?k = x mod ?k" using True by (metis mult_div_mod_eq)
    then show ?thesis using True lb k x l(2) e by (auto simp: b nth_list_update)
  next
    case False
    then have "ps ! (j div ?k) \<noteq> ps ! (x div ?k)" "j \<noteq> x" using ps(2) d by (auto simp: nth_eq_iff_index_eq)
    then show ?thesis using e by (simp add: b nth_list_update)
  qed
qed

lemma tls_store_spec:
  assumes W: "writing k U t a ps s" and x: "unat x < psz s * length ps"
    and pg: "page_heap s (ps ! (unat x div psz s)) = Some pg"
    and u: "users (page_lists s) (ps ! (unat x div psz s)) = {t}"
  shows "\<exists>s'. store (address pg + ucast (x mod page_size s)) b s = Inr s' \<and> writing k U t a ps s' \<and>
    area_bytes s' ps = (area_bytes s ps)[unat x := b] \<and> others t s s' \<and>
    (room k s (shared s ps) \<longrightarrow> room k s' (shared s' ps))"
proof (rule page_at_spec[OF writingD(3,9)[OF W] x])
  note D = writingD[OF W]
  fix i pg' assume p: "i = unat x div psz s" "i < length ps" "page_heap s (ps ! i) = Some pg'"
    "page_of s (address pg' + ucast (x mod page_size s)) = address pg'"
    "unat (address pg' + ucast (x mod page_size s) - address pg') = unat x mod psz s"
    "unat x mod psz s < psz s"
  have pgi: "page_heap s (ps ! i) = Some pg" "pg' = pg" using pg p(1,3) by simp_all
  obtain v where v: "frame s (ps ! i) = Some v" "vm s (address pg) = Some v" "length (contents v) = psz s"
    by (rule core_frame[OF D(3) pgi(1)])
  have wr: "writable v" using D(4) v(1) nth_mem[OF p(2)] unfolding sealed_def by fastforce
  let ?v = "v\<lparr>contents := (contents v)[unat x mod psz s := b]\<rparr>"
  let ?s = "s\<lparr>vm := (vm s)(address pg \<mapsto> ?v)\<rparr>"
  have run: "store (address pg + ucast (x mod page_size s)) b s = Inr ?s"
    using p(4,5) pgi(2) v(2) wr by (simp add: store_def)
  have pl: "page_lists ?s = page_lists s" by (rule page_lists_cong) simp
  have wf: "wf_pages U (page_lists s) ?s" by (rule core_set[OF D(3) pgi(1)]) (simp add: v(3))
  have fr: "frame ?s q = (if q = ps ! i then Some ?v else frame s q)" for q by (rule frame_set[OF D(3) pgi(1)])
  have pb: "page_bytes ?s q = (if q = ps ! i then (page_bytes s q)[unat x mod psz s := b] else page_bytes s q)" for q
    using v(1) unfolding page_bytes_def fr by simp
  have "sealed (set ps) (page_lists s) ?s"
    unfolding sealed_def fr
  proof (intro allI impI)
    fix q w assume w: "(if q = ps ! i then Some ?v else frame s q) = Some w"
    then obtain w' where "frame s q = Some w'" "readable w' = readable w" "writable w' = writable w"
      using v(1) by (cases "q = ps ! i") auto
    then show "if q \<in> set ps then writable w \<and> (1 < card (users (page_lists s) q) \<longrightarrow> readable w)
      else \<not> readable w \<and> \<not> writable w"
      using D(4) unfolding sealed_def by metis
  qed
  then have W': "writing k U t a ps ?s" unfolding writing_def pl using D(1,2,5,6) wf by simp
  have ab: "area_bytes ?s ps = (area_bytes s ps)[unat x := b]"
    by (rule update_byte[OF D(3) wf D(9,8) _ _ x]) (simp_all add: pb p(1))
  have "others t s ?s"
  proof (rule othersI[OF D(3)])
    show "page_bytes ?s q = page_bytes s q" if "z \<noteq> t" "z \<in> users (page_lists s) q" for q z
      using that u p(1) by (auto simp: pb)
  qed simp
  moreover have "room k ?s (shared ?s ps)" if "room k s (shared s ps)"
    by (rule room_same[OF that]) (use v(2) in \<open>auto simp: shared_def pl\<close>)
  ultimately show ?thesis using run W' ab by blast
qed

section \<open>The call\<close>

lemma write_bytes_spec:
  assumes k: "kernel_ok k"
  shows "writing k U t a ps s \<Longrightarrow> unat offset + unat i + n \<le> psz s * length ps \<Longrightarrow>
    unat offset + unat i + n < 2 ^ 32 \<Longrightarrow> unat i + n \<le> length buf \<Longrightarrow> room k s (shared s ps) \<Longrightarrow>
    \<exists>ps' s'. write_bytes k t a offset buf n i ps s = Inr (ps', s') \<and> writing k U t a ps' s' \<and>
      area_bytes s' ps' = patch (area_bytes s ps) (unat offset + unat i) (take n (drop (unat i) buf)) \<and>
      others t s s'"
proof (induction n arbitrary: i ps s)
  case (Suc n)
  let ?x = "offset + i"
  have x: "unat ?x = unat offset + unat i" using Suc.prems(3) by (intro unat_rules) simp
  have i1: "unat (i + 1) = Suc (unat i)" using Suc.prems(3) by (subst unat_rules) simp_all
  have lt: "unat ?x < psz s * length ps" using Suc.prems(2) x by simp
  obtain pg ps1 s1 where s1: "own_page k t a ps ?x s = Inr (pg, ps1, s1)" "writing k U t a ps1 s1"
    "length ps1 = length ps" "page_heap s1 (ps1 ! (unat ?x div psz s)) = Some pg"
    "users (page_lists s1) (ps1 ! (unat ?x div psz s)) = {t}" "area_bytes s1 ps1 = area_bytes s ps"
    "others t s s1" "room k s1 (shared s1 ps1)"
    using own_page_spec[OF k Suc.prems(1) lt Suc.prems(5)] by blast
  have ps1: "page_size s1 = page_size s" using writingD(5)[OF s1(2)] writingD(5)[OF Suc.prems(1)] by simp
  obtain s2 where s2: "store (address pg + ucast (?x mod page_size s1)) (buf ! unat i) s1 = Inr s2"
    "writing k U t a ps1 s2" "area_bytes s2 ps1 = (area_bytes s ps)[unat ?x := buf ! unat i]" "others t s1 s2"
    "room k s2 (shared s2 ps1)"
    using tls_store_spec[OF s1(2), of ?x pg "buf ! unat i"] s1(3-6,8) lt ps1 by auto
  have ps2: "page_size s2 = page_size s" using writingD(5)[OF s2(2)] writingD(5)[OF Suc.prems(1)] by simp
  have "\<exists>ps' s'. write_bytes k t a offset buf n (i + 1) ps1 s2 = Inr (ps', s') \<and> writing k U t a ps' s' \<and>
      area_bytes s' ps' = patch (area_bytes s2 ps1) (unat offset + unat (i + 1)) (take n (drop (unat (i + 1)) buf)) \<and>
      others t s2 s'"
    by (rule Suc.IH[OF s2(2)]) (use Suc.prems(2-4) i1 s1(3) ps2 s2(5) in simp_all)
  then obtain ps' s' where s': "write_bytes k t a offset buf n (i + 1) ps1 s2 = Inr (ps', s')"
    "writing k U t a ps' s'" "others t s2 s'"
    "area_bytes s' ps' = patch (area_bytes s2 ps1) (Suc (unat ?x)) (take n (drop (Suc (unat i)) buf))"
    using i1 x by auto
  have len: "unat ?x < length (area_bytes s ps)"
    using lt length_area_bytes[OF writingD(3,9)[OF Suc.prems(1)]] by simp
  have "area_bytes s' ps' = patch (area_bytes s ps) (unat ?x) (take (Suc n) (drop (unat i) buf))"
    using Suc.prems(4) by (simp add: s'(4) s2(3) patch_Cons[OF len] take_Suc_drop)
  moreover have "write_bytes k t a offset buf (Suc n) i ps s = Inr (ps', s')"
    using s1(1) s2(1) s'(1) Suc.prems(4) by simp
  ultimately show ?case
    using s'(2) others_trans[OF s1(7) others_trans[OF s2(4) s'(3)]] unfolding x by blast
qed auto

lemma take_patch_inside:
  "p + length ys \<le> n \<Longrightarrow> n \<le> length xs \<Longrightarrow> take n (patch xs p ys) = patch (take n xs) p ys"
  by (metis append_take_drop_id length_patch length_take min_absorb2 patch_append_left append_eq_conv_conj)

lemma tls_write_spec:
  assumes k: "kernel_ok k" and inv: "tls_inv k U s" and bs: "abs_tls s t = Some bs"
    and fit: "unat offset + unat len \<le> length bs" "unat len \<le> length buf"
    and room: "\<And>a. area s t = Some a \<Longrightarrow> room k s (shared s (pages a))"
  shows "\<exists>s'. tls_write k t offset len buf s = Inr (0, s') \<and> tls_inv k U s' \<and>
    abs_tls s' = (abs_tls s)(t \<mapsto> patch bs (unat offset) (take (unat len) buf))"
proof -
  obtain a where ar: "area s t = Some a" and b: "bs = take (unat (tsize a)) (area_bytes s (pages a))"
    using bs by (auto simp: abs_tls_def)
  have init: "initialized s" using tls_inv_start(1)[OF inv] ar by (cases "initialized s") auto
  note I = tls_inv_initialized[OF inv init]
  have A: "page_lists s t = Some (pages a)" using ar by simp
  have sz: "unat (tsize a) \<le> psz s * length (pages a)"
    and tight: "psz s * length (pages a) < unat (tsize a) + psz s"
    using I(2)[OF ar] unfolding area_ok_def by blast+
  have lb: "length bs = unat (tsize a)"
    using sz length_area_bytes[OF I(3) wf_pagesD(3)[OF I(3) A]] by (simp add: b)
  have u: "unat (tsize a) < 2 ^ 32" using unsigned_less[of "tsize a", where 'a = nat] by simp
  then have "unat (offset + len) = unat offset + unat len" using fit(1) lb by (intro unat_rules) simp
  then have nf: "\<not> tsize a < offset + len" using fit(1) lb by (simp add: word_less_nat_alt)
  obtain m where m: "for_pages tls_unprotect (pages a) s = Inr (s\<lparr>vm := m\<rparr>)"
    "wf_pages U (page_lists s) (s\<lparr>vm := m\<rparr>)" "dom m = dom (vm s)"
    and f: "\<And>q. frame (s\<lparr>vm := m\<rparr>) q =
      (if q \<in> set (pages a) then map_option (protect True) (frame s q) else frame s q)"
    and pb: "\<And>q. page_bytes (s\<lparr>vm := m\<rparr>) q = page_bytes s q"
    using open_area[OF I(3) A] by blast
  let ?s = "s\<lparr>vm := m\<rparr>"
  have pl: "page_lists ?s = page_lists s" by (rule page_lists_cong) simp
  have W: "writing k U t a (pages a) ?s"
    using I(1,5) init ar m(2) sealed_open[OF I(4) f] by (simp add: writing_def pl)
  have ab: "area_bytes ?s ps = area_bytes s ps" for ps
    using ext[of "page_bytes ?s", OF pb] by (simp add: area_bytes_def)
  have "room k ?s (shared ?s (pages a))"
    by (rule room_same[OF room[OF ar]]) (simp_all add: m(3) shared_def pl)
  then obtain ps' s1 where s1: "write_bytes k t a offset buf (unat len) 0 (pages a) ?s = Inr (ps', s1)"
    "writing k U t a ps' s1"
    "area_bytes s1 ps' = patch (area_bytes s (pages a)) (unat offset) (take (unat len) buf)" "others t ?s s1"
    using write_bytes_spec[OF k W, of offset 0 "unat len" buf] fit sz u lb by (auto simp: ab)
  note D = writingD[OF s1(2)]
  obtain m' where m': "for_pages tls_protect ps' s1 = Inr (s1\<lparr>vm := m'\<rparr>)"
    "wf_pages U (page_lists s1) (s1\<lparr>vm := m'\<rparr>)" "sealed {} (page_lists s1) (s1\<lparr>vm := m'\<rparr>)"
    and pb': "\<And>q. page_bytes (s1\<lparr>vm := m'\<rparr>) q = page_bytes s1 q"
    using close_area[OF D(3,7,4)] by blast
  let ?t = "s1\<lparr>vm := m'\<rparr>"
  have run: "tls_write k t offset len buf s = Inr (0, ?t)"
    using ar nf m(1) s1(1) m'(1) by (simp add: tls_write_def)
  have o: "area s1 u = area s u" "abs_tls s1 u = abs_tls s u" if "u \<noteq> t" for u
  proof -
    have "abs_tls ?s u = abs_tls s u" by (rule abs_tls_cong) (simp_all add: pb)
    then show "area s1 u = area s u" "abs_tls s1 u = abs_tls s u"
      using s1(4) that by (simp_all add: others_def)
  qed
  have "area_ok ?t u a'" if a': "area s1 u = Some a'" for u a'
  proof (cases "u = t")
    case True
    have e: "a' = a\<lparr>pages := ps'\<rparr>" using a' D(2) True by simp
    have "length (area_bytes s1 ps') = length (area_bytes s (pages a))"
      using fit lb sz length_area_bytes[OF I(3) wf_pagesD(3)[OF I(3) A]] by (simp add: s1(3))
    then have "psz s1 * length ps' = psz s * length (pages a)"
      using length_area_bytes[OF D(3,9)] length_area_bytes[OF I(3) wf_pagesD(3)[OF I(3) A]] by simp
    moreover have ps: "page_size s1 = page_size s" using D(5) I(5) by simp
    moreover have "0 < psz s" by (rule psize_pos[OF wf_pagesD(1)[OF I(3)]])
    ultimately have "length ps' = length (pages a)" by simp
    then show ?thesis using I(2)[OF ar] sz tight True unfolding area_ok_def e by (simp add: ps)
  next
    case False
    then show ?thesis using I(2)[of u a'] o(1) a' area_ok_cong[of ?t s] D(5) I(5) by simp
  qed
  then have inv': "tls_inv k U ?t"
    using D(1,5,6) m'(2,3) page_lists_cong[of ?t s1] by (simp add: tls_inv_def table_inv_def)
  have "abs_tls ?t u = ((abs_tls s)(t \<mapsto> patch bs (unat offset) (take (unat len) buf))) u" for u
  proof -
    have t1: "abs_tls ?t u = abs_tls s1 u" by (rule abs_tls_cong) (simp_all add: pb')
    show ?thesis
    proof (cases "u = t")
      case True
      have "take (unat (tsize a)) (patch (area_bytes s (pages a)) (unat offset) (take (unat len) buf)) =
          patch bs (unat offset) (take (unat len) buf)"
        unfolding b by (rule take_patch_inside) (use fit lb b in \<open>auto simp: min_def split: if_splits\<close>)
      then show ?thesis using True t1 D(2) s1(3) by (simp add: abs_tls_def)
    qed (simp add: t1 o(2))
  qed
  then have "abs_tls ?t = (abs_tls s)(t \<mapsto> patch bs (unat offset) (take (unat len) buf))" by (rule ext)
  then show ?thesis using run inv' by blast
qed

end
