(* ===== verification/TlsSystem.thy ===== *)
theory TlsSystem
  imports TlsCalls TlsWrite
begin

text \<open>
  The calls of all threads together, in any order: the specification is a map from threads to byte
  sequences, and the library is shown to implement it.  The properties of the library follow.
\<close>

section \<open>Calls\<close>

datatype tls_call = Create_area u32 | Destroy_area | Read_area u32 u32 "byte list"
  | Write_area u32 u32 "byte list" | Clone_area u64

datatype tls_reply = Code int | Bytes int "byte list"

fun returned :: "(int \<Rightarrow> tls_reply) \<Rightarrow> stop + (int \<times> process) \<Rightarrow> (tls_reply \<times> process) option" where
  "returned f (Inl e) = None"
| "returned f (Inr (r, s)) = Some (f r, s)"

text \<open>A call of a thread.\<close>

fun tls_exec :: "kernel \<Rightarrow> u64 \<times> tls_call \<Rightarrow> process \<Rightarrow> (tls_reply \<times> process) option" where
  "tls_exec k (t, Create_area sz) s = returned Code (tls_create k t sz s)"
| "tls_exec k (t, Destroy_area) s = returned Code (tls_destroy t s)"
| "tls_exec k (t, Read_area off len buf) s =
     (case tls_read t off len buf s of Inl e \<Rightarrow> None | Inr (r, buf', s') \<Rightarrow> Some (Bytes r buf', s'))"
| "tls_exec k (t, Write_area off len buf) s = returned Code (tls_write k t off len buf s)"
| "tls_exec k (t, Clone_area u) s = returned Code (tls_clone t u s)"

text \<open>
  What a caller has to respect: sizes and ends of ranges that fit 32 bits, buffers as long as the
  count says; and the kernel has to have room for the pages the call maps.
\<close>

fun tls_allowed :: "kernel \<Rightarrow> u64 \<times> tls_call \<Rightarrow> process \<Rightarrow> bool" where
  "tls_allowed k (t, Create_area sz) s \<longleftrightarrow>
     unat sz + unat (getpagesize k) \<le> 2 ^ 32 \<and> room k s (pages_for k sz)"
| "tls_allowed k (t, Destroy_area) s \<longleftrightarrow> True"
| "tls_allowed k (t, Read_area off len buf) s \<longleftrightarrow> unat off + unat len < 2 ^ 32 \<and> unat len \<le> length buf"
| "tls_allowed k (t, Write_area off len buf) s \<longleftrightarrow> unat off + unat len < 2 ^ 32 \<and> unat len \<le> length buf \<and>
     (\<forall>a. area s t = Some a \<longrightarrow> room k s (shared s (pages a)))"
| "tls_allowed k (t, Clone_area u) s \<longleftrightarrow> card (dom (abs_tls s)) < 2 ^ 31 - 1"

text \<open>The specification.\<close>

type_synonym storage = "u64 \<Rightarrow> byte list option"

fun tls_spec :: "u64 \<times> tls_call \<Rightarrow> storage \<Rightarrow> tls_reply \<Rightarrow> storage \<Rightarrow> bool" where
  "tls_spec (t, Create_area sz) m r m' \<longleftrightarrow>
     (if sz = 0 \<or> m t \<noteq> None then r = Code (-1) \<and> m' = m
      else r = Code 0 \<and> m' = m(t \<mapsto> replicate (unat sz) 0))"
| "tls_spec (t, Destroy_area) m r m' \<longleftrightarrow>
     (if m t = None then r = Code (-1) \<and> m' = m else r = Code 0 \<and> m' = m(t := None))"
| "tls_spec (t, Read_area off len buf) m r m' \<longleftrightarrow> m' = m \<and>
     (case m t of None \<Rightarrow> r = Bytes (-1) buf
      | Some bs \<Rightarrow> if length bs < unat off + unat len then r = Bytes (-1) buf
          else r = Bytes 0 (patch buf 0 (take (unat len) (drop (unat off) bs))))"
| "tls_spec (t, Write_area off len buf) m r m' \<longleftrightarrow>
     (case m t of None \<Rightarrow> r = Code (-1) \<and> m' = m
      | Some bs \<Rightarrow> if length bs < unat off + unat len then r = Code (-1) \<and> m' = m
          else r = Code 0 \<and> m' = m(t \<mapsto> patch bs (unat off) (take (unat len) buf)))"
| "tls_spec (t, Clone_area u) m r m' \<longleftrightarrow>
     (case (m u, m t) of (Some bs, None) \<Rightarrow> r = Code 0 \<and> m' = m(t \<mapsto> bs)
      | _ \<Rightarrow> r = Code (-1) \<and> m' = m)"

section \<open>The library implements it\<close>

lemma range_rejected:
  assumes inv: "tls_inv k U s" and ar: "area s t = Some a" and bs: "abs_tls s t = Some bs"
    and fit: "unat off + unat len < 2 ^ 32" "length bs < unat off + unat len"
  shows "tsize a < off + len"
proof -
  have init: "initialized s" using tls_inv_start(1)[OF inv] ar by (cases "initialized s") auto
  note I = tls_inv_initialized[OF inv init]
  have "unat (tsize a) \<le> psz s * length (pages a)" using I(2)[OF ar] unfolding area_ok_def by blast
  then have "length bs = unat (tsize a)"
    using bs ar length_area_bytes[OF I(3) wf_pagesD(3)[OF I(3) page_lists_Some[OF ar]]]
    by (auto simp: abs_tls_def)
  moreover have "unat (off + len) = unat off + unat len" using fit(1) by (intro unat_rules)
  ultimately show ?thesis using fit(2) by (simp add: word_less_nat_alt)
qed

lemma tls_step:
  assumes k: "kernel_ok k" and inv: "tls_inv k U s" and al: "tls_allowed k c s"
  shows "\<exists>r s'. tls_exec k c s = Some (r, s') \<and> tls_inv k U s' \<and> tls_spec c (abs_tls s) r (abs_tls s')"
proof (cases c)
  case (Pair t d)
  show ?thesis
  proof (cases d)
    case (Create_area sz)
    from tls_create_spec[OF k inv, of sz t] al obtain r s' where
      r: "tls_create k t sz s = Inr (r, s')" "tls_inv k U s'"
      "if sz = 0 \<or> abs_tls s t \<noteq> None then r = -1 \<and> abs_tls s' = abs_tls s
       else r = 0 \<and> abs_tls s' = (abs_tls s)(t \<mapsto> replicate (unat sz) 0)"
      by (auto simp: Pair Create_area simp del: not_None_eq)
    then show ?thesis
      by (intro exI[of _ "Code r"] exI[of _ s']) (simp add: Pair Create_area split: if_splits)
  next
    case Destroy_area
    from tls_destroy_spec[OF inv, of t] obtain r s' where
      "tls_destroy t s = Inr (r, s')" "tls_inv k U s'"
      "if abs_tls s t = None then r = -1 \<and> s' = s else r = 0 \<and> abs_tls s' = (abs_tls s)(t := None)" by blast
    then show ?thesis
      by (intro exI[of _ "Code r"] exI[of _ s']) (auto simp: Pair Destroy_area split: if_splits)
  next
    case (Read_area off len buf)
    show ?thesis
    proof (cases "abs_tls s t")
      case None
      then have "area s t = None" by (simp add: abs_tls_None_iff)
      then show ?thesis using inv None by (simp add: Pair Read_area tls_read_def)
    next
      case (Some bs)
      then obtain a where ar: "area s t = Some a" by (auto simp: abs_tls_def)
      show ?thesis
      proof (cases "length bs < unat off + unat len")
        case True
        then have "tsize a < off + len" using range_rejected[OF inv ar Some] al by (simp add: Pair Read_area)
        then show ?thesis using inv ar True Some by (simp add: Pair Read_area tls_read_def)
      next
        case False
        show ?thesis
          by (rule tls_read_spec[OF inv Some, of off len buf])
            (use al False Some in \<open>auto simp: Pair Read_area\<close>)
      qed
    qed
  next
    case (Write_area off len buf)
    show ?thesis
    proof (cases "abs_tls s t")
      case None
      then have "area s t = None" by (simp add: abs_tls_None_iff)
      then show ?thesis using inv None by (simp add: Pair Write_area tls_write_def)
    next
      case (Some bs)
      then obtain a where ar: "area s t = Some a" by (auto simp: abs_tls_def)
      show ?thesis
      proof (cases "length bs < unat off + unat len")
        case True
        then have "tsize a < off + len" using range_rejected[OF inv ar Some] al by (simp add: Pair Write_area)
        then show ?thesis using inv ar True Some by (simp add: Pair Write_area tls_write_def)
      next
        case False
        then show ?thesis
          using tls_write_spec[OF k inv Some, of off len buf] al Some by (auto simp: Pair Write_area)
      qed
    qed
  next
    case (Clone_area u)
    from tls_clone_spec[OF inv, of t u] al obtain r s' where
      "tls_clone t u s = Inr (r, s')" "tls_inv k U s'"
      "case (abs_tls s u, abs_tls s t) of
         (Some bs, None) \<Rightarrow> r = 0 \<and> abs_tls s' = (abs_tls s)(t \<mapsto> bs) | _ \<Rightarrow> r = -1 \<and> s' = s"
      by (auto simp: Pair Clone_area)
    then show ?thesis
      by (intro exI[of _ "Code r"] exI[of _ s']) (auto simp: Pair Clone_area split: option.splits)
  qed
qed

text \<open>A kernel with four free pages, and the process before the first call.\<close>

definition demo_pages :: "u64 list" where
  "demo_pages = [0x10000, 0x11000, 0x12000, 0x13000]"

definition demo_kernel :: kernel where
  "demo_kernel = \<lparr>getpagesize = 4096, sigaction_ok = True, mmap_at = (\<lambda>m. find (\<lambda>a. m a = None) demo_pages)\<rparr>"

definition fresh_process :: "(u64 \<Rightarrow> vpage option) \<Rightarrow> process" where
  "fresh_process m = \<lparr>hash_table = empty_table, page_size = 0, initialized = False,
     page_heap = (\<lambda>_. None), next_ptr = 0, vm = m\<rparr>"

lemma fresh_process_inv: "tls_inv k (dom m) (fresh_process m)"
  by (simp add: tls_inv_def fresh_process_def)

lemma demo_kernel_ok: "kernel_ok demo_kernel"
proof -
  have "\<exists>n. 1 \<le> n \<and> n \<le> 30 \<and> (4096 :: u32) = 2 ^ n" by (rule exI[of _ 12]) simp
  moreover have "m a = None \<and> a AND scast (NOT (4096 - 1 :: u32)) = a"
    if "find (\<lambda>a. m a = None) demo_pages = Some a" for m :: "u64 \<Rightarrow> vpage option" and a
    using that by (auto simp: demo_pages_def split: if_splits)
  ultimately show ?thesis by (simp add: kernel_ok_def psize_ok_def demo_kernel_def)
qed

lemma demo_room: "card (dom (vm s)) + n \<le> 4 \<Longrightarrow> room demo_kernel s n"
  unfolding room_def
proof (intro allI impI notI)
  fix m :: "u64 \<Rightarrow> vpage option"
  assume n: "card (dom (vm s)) + n \<le> 4" "card (dom m) < card (dom (vm s)) + n" "mmap_at demo_kernel m = None"
  then have "set demo_pages \<subseteq> dom m" by (auto simp: demo_kernel_def find_None_iff)
  then have "card (set demo_pages) \<le> card (dom m)" by (intro card_mono) (auto intro: finite)
  then show False using n by (simp add: demo_pages_def)
qed

interpretation tls_lib: guarded_simulation "\<lambda>s. kernel_ok k \<and> tls_inv k U s" abs_tls "tls_allowed k" "tls_exec k" tls_spec
  for k U
proof unfold_locales
  fix s c assume "kernel_ok k \<and> tls_inv k U s" "tls_allowed k c s"
  then show "\<exists>r s'. tls_exec k c s = Some (r, s') \<and> (kernel_ok k \<and> tls_inv k U s') \<and>
      tls_spec c (abs_tls s) r (abs_tls s')"
    using tls_step[of k U s c] by auto
qed

section \<open>Properties\<close>

text \<open>C3: the library implements a map from threads to byte sequences: every sequence of allowed calls of
  any threads in any order runs without undefined behaviour, exit or fault, keeps the invariant (page
  reference counts, protection, the hash table), and replies and ends as the specification says.\<close>

theorem tls_implements_spec:
  assumes "kernel_ok k" "tls_inv k U s" "may_run (tls_allowed k) (tls_exec k) cs s"
  shows "\<exists>rs s'. run (tls_exec k) cs s = Some (rs, s') \<and> tls_inv k U s' \<and>
    allows tls_spec cs (abs_tls s) rs (abs_tls s')"
  using tls_lib.guarded_run[of k U s cs] assms by blast

definition demo_script :: "(u64 \<times> tls_call) list" where
  "demo_script = [(1, Create_area 10), (1, Read_area 8 2 [5, 5]), (1, Destroy_area), (1, Read_area 0 1 [5])]"

lemma demo_script_may_run: "may_run (tls_allowed demo_kernel) (tls_exec demo_kernel) demo_script (fresh_process (\<lambda>_. None))"
proof -
  have "room demo_kernel (fresh_process (\<lambda>_. None)) (pages_for demo_kernel 10)"
    by (rule demo_room) (simp add: fresh_process_def pages_for_def demo_kernel_def)
  then show ?thesis
    by (auto simp: demo_script_def demo_kernel_def simp del: tls_exec.simps split: option.splits)
qed

lemma tls_implements_spec_witness:
  "\<exists>s'. run (tls_exec demo_kernel) demo_script (fresh_process (\<lambda>_. None)) =
      Some ([Code 0, Bytes 0 [0, 0], Code 0, Bytes (-1) [5]], s') \<and> abs_tls s' = (\<lambda>_. None)"
proof -
  have a: "abs_tls (fresh_process (\<lambda>_. None)) = (\<lambda>_. None)"
    using tls_inv_start(1)[OF fresh_process_inv] by (simp add: abs_tls_def fresh_process_def fun_eq_iff)
  from tls_implements_spec[OF demo_kernel_ok fresh_process_inv demo_script_may_run] obtain rs s' where
    r: "run (tls_exec demo_kernel) demo_script (fresh_process (\<lambda>_. None)) = Some (rs, s')"
    "allows tls_spec demo_script (\<lambda>_. None) rs (abs_tls s')" unfolding a by blast
  from r(2) have "rs = [Code 0, Bytes 0 [0, 0], Code 0, Bytes (-1) [5]] \<and> abs_tls s' = (\<lambda>_. None)"
    by (auto simp: demo_script_def allows_simps patch_def fun_upd_idem) (simp add: numeral_2_eq_2)
  with r(1) show ?thesis by blast
qed

text \<open>C17: areas are isolated: a call changes what is stored of no thread but the caller, also when pages are
  shared after a clone.\<close>

theorem tls_isolation:
  assumes "kernel_ok k" "tls_inv k U s" "tls_allowed k (t, c) s" "tls_exec k (t, c) s = Some (r, s')" "u \<noteq> t"
  shows "abs_tls s' u = abs_tls s u"
proof -
  have "tls_spec (t, c) (abs_tls s) r (abs_tls s')" using tls_step[OF assms(1-3)] assms(4) by auto
  then show ?thesis using assms(5) by (cases c) (auto split: if_splits option.splits)
qed

lemma tls_isolation_witness:
  "\<exists>r s'. tls_exec demo_kernel (1, Create_area 10) (fresh_process (\<lambda>_. None)) = Some (r, s') \<and>
    abs_tls s' 2 = abs_tls (fresh_process (\<lambda>_. None)) 2"
proof -
  have al: "tls_allowed demo_kernel (1, Create_area 10) (fresh_process (\<lambda>_. None))"
    using demo_script_may_run by (simp add: demo_script_def del: tls_exec.simps)
  from tls_step[OF demo_kernel_ok fresh_process_inv al] obtain r s' where
    r: "tls_exec demo_kernel (1, Create_area 10) (fresh_process (\<lambda>_. None)) = Some (r, s')" by blast
  from tls_isolation[OF demo_kernel_ok fresh_process_inv al r, of 2] r show ?thesis by auto
qed

lemma find_elem_in: "find_elem t es = Some v \<Longrightarrow> \<exists>e \<in> set es. elem_tls e = v"
  by (induction es) (auto split: if_splits)

lemma handler_finds_page:
  assumes inv: "tls_inv k U s" "initialized s" and pg: "page_heap s p = Some pg"
  shows "handler_finds s (address pg)"
proof -
  note I = tls_inv_initialized[OF inv]
  obtain t where "t \<in> users (page_lists s) p" using page_okD(3)[OF wf_pagesD(4)[OF I(3) pg]] by blast
  then obtain a where a: "area s t = Some a" "p \<in> set (pages a)"
    by (auto simp: users_def page_lists_def)
  obtain e where e: "e \<in> set (hash_table s ! hash_func t)" "elem_tls e = a"
    using find_elem_in[OF a(1)[unfolded find_tls_def]] by blast
  have "hash_table s ! hash_func t \<in> set (hash_table s)" using I(1) by (simp add: table_ok_def)
  then show ?thesis using a(2) e pg by (auto simp: handler_finds_def list_ex_iff)
qed

lemma handler_misses: "pa \<notin> addresses s \<Longrightarrow> \<not> handler_finds s pa"
  by (auto simp: handler_finds_def list_ex_iff addresses_def)

text \<open>C18: stored data is protected: between calls, an access of any thread to any byte of a page of the
  library ends that thread and changes nothing, and an access to memory that is neither mapped nor the
  library's ends the process.\<close>

theorem tls_access_ends_thread:
  assumes "tls_inv k U s" "initialized s" "unat (off :: u32) < psz s"
  shows "(page_heap s p = Some pg \<longrightarrow> load (address pg + ucast off) s = Inl (Exit_thread s) \<and>
      store (address pg + ucast off) b s = Inl (Exit_thread s)) \<and>
    (vm s (page_of s x) = None \<longrightarrow> load x s = Inl Killed \<and> store x b s = Inl Killed)"
proof (intro conjI impI)
  note I = tls_inv_initialized[OF assms(1,2)]
  { assume pg: "page_heap s p = Some pg"
    obtain v where v: "frame s p = Some v" "vm s (address pg) = Some v" using core_frame[OF I(3) pg] by blast
    have "page_of s (address pg + ucast off) = address pg"
      by (rule page_of_inside[OF wf_pagesD(1)[OF I(3)] page_okD(4)[OF wf_pagesD(4)[OF I(3) pg]] assms(3)])
    then show "load (address pg + ucast off) s = Inl (Exit_thread s)"
      "store (address pg + ucast off) b s = Inl (Exit_thread s)"
      using v I(4) handler_finds_page[OF assms(1,2) pg]
      by (auto simp: load_def store_def tls_handle_page_fault_def sealed_none) }
  { assume n: "vm s (page_of s x) = None"
    then have "page_of s x \<notin> addresses s" using wf_pagesD(6)[OF I(3)] by auto
    then show "load x s = Inl Killed" "store x b s = Inl Killed"
      using n handler_misses by (simp_all add: load_def store_def tls_handle_page_fault_def) }
qed

lemma demo_area:
  obtains s a where "tls_exec demo_kernel (1, Create_area 10) (fresh_process (\<lambda>_. None)) = Some (Code 0, s)"
    "tls_inv demo_kernel {} s" "initialized s" "area s 1 = Some a" "tsize a = 10" "page_size s = 4096"
    "length (pages a) = 1"
proof -
  let ?s = "fresh_process (\<lambda>_. None)"
  have al: "tls_allowed demo_kernel (1, Create_area 10) ?s"
    using demo_script_may_run by (simp add: demo_script_def del: tls_exec.simps)
  have n: "abs_tls ?s = (\<lambda>_. None)"
    using tls_inv_start(1)[OF fresh_process_inv] by (simp add: abs_tls_def fresh_process_def fun_eq_iff)
  from tls_step[OF demo_kernel_ok fresh_process_inv al] obtain r s' where
    r: "tls_exec demo_kernel (1, Create_area 10) ?s = Some (r, s')" "tls_inv demo_kernel {} s'"
    "tls_spec (1, Create_area 10) (\<lambda>_. None) r (abs_tls s')" unfolding n by auto
  then have bs: "r = Code 0" "abs_tls s' 1 = Some (replicate 10 0)" by (auto split: if_splits)
  then obtain a where a: "area s' 1 = Some a" by (auto simp: abs_tls_def)
  have init: "initialized s'" using tls_inv_start(1)[OF r(2)] a by (cases "initialized s'") auto
  note I = tls_inv_initialized[OF r(2) init]
  have ps: "page_size s' = 4096" using I(5) by (simp add: demo_kernel_def)
  have ok: "unat (tsize a) \<le> 4096 * length (pages a)" "4096 * length (pages a) < unat (tsize a) + 4096"
    using I(2)[OF a] ps unfolding area_ok_def by simp_all
  have "length (area_bytes s' (pages a)) = 4096 * length (pages a)"
    using length_area_bytes[OF I(3) wf_pagesD(3)[OF I(3) page_lists_Some[OF a]]] ps by simp
  then have "length (take (unat (tsize a)) (area_bytes s' (pages a))) = unat (tsize a)" using ok(1) by simp
  moreover have "take (unat (tsize a)) (area_bytes s' (pages a)) = replicate 10 0"
    using bs(2) a by (simp add: abs_tls_def)
  ultimately have "unat (tsize a) = 10" by simp
  moreover from this ok have "length (pages a) = 1" by linarith
  moreover have "tsize a = 10" using calculation(1) by (simp add: word_unat_eq_iff)
  ultimately show thesis using that[of s' a] r(1,2) bs(1) init a ps by simp
qed

lemma tls_access_ends_thread_witness:
  "\<exists>s p pg. page_heap s p = Some pg \<and> load (address pg + ucast (5 :: u32)) s = Inl (Exit_thread s) \<and>
    store (address pg + ucast (5 :: u32)) 1 s = Inl (Exit_thread s)"
proof (rule demo_area)
  fix s a assume s: "tls_inv demo_kernel {} s" "initialized s" "area s 1 = Some a" "page_size s = 4096"
    "length (pages a) = 1"
  note I = tls_inv_initialized[OF s(1,2)]
  obtain p where "p \<in> set (pages a)" using s(5) by (cases "pages a") auto
  then obtain pg where "page_heap s p = Some pg"
    using wf_pagesD(3)[OF I(3) page_lists_Some[OF s(3)]] by blast
  with tls_access_ends_thread[OF s(1,2), of 5 p pg 1] s(4) show ?thesis
    by (intro exI[of _ s] exI[of _ p] exI[of _ pg]) simp
qed

text \<open>C19: no page leaks and none is freed too early: after any allowed calls from program start, the
  reference count of every page is the number of areas that contain it, every page of an area is mapped,
  and when no area is left the library holds no memory and the mappings are those before the first call.\<close>

theorem tls_no_leak:
  assumes "kernel_ok k" "may_run (tls_allowed k) (tls_exec k) cs (fresh_process m)"
    and "run (tls_exec k) cs (fresh_process m) = Some (rs, s)"
  shows "(\<forall>p pg. page_heap s p = Some pg \<longrightarrow> 0 < ref_count pg \<and>
      ref_count pg = int (card {t. \<exists>a. area s t = Some a \<and> p \<in> set (pages a)})) \<and>
    (\<forall>t a p. area s t = Some a \<and> p \<in> set (pages a) \<longrightarrow>
      (\<exists>pg v. page_heap s p = Some pg \<and> vm s (address pg) = Some v)) \<and>
    (abs_tls s = (\<lambda>_. None) \<longrightarrow> page_heap s = (\<lambda>_. None) \<and> dom (vm s) = dom m)"
proof -
  have inv: "tls_inv k (dom m) s"
    using tls_lib.guarded_run[of k "dom m" "fresh_process m" cs] assms fresh_process_inv by auto
  show ?thesis
  proof (cases "initialized s")
    case False
    then show ?thesis using tls_inv_start[OF inv False] by simp
  next
    case True
    note I = tls_inv_initialized[OF inv True]
    have u: "users (page_lists s) p = {t. \<exists>a. area s t = Some a \<and> p \<in> set (pages a)}" for p
      by (auto simp: users_def page_lists_def)
    have c: "0 < ref_count pg \<and> ref_count pg = int (card (users (page_lists s) p))"
      if "page_heap s p = Some pg" for p pg
      using page_okD(2,3)[OF wf_pagesD(4)[OF I(3) that]] by (simp add: card_gt_0_iff)
    have "page_heap s = (\<lambda>_. None) \<and> dom (vm s) = dom m" if e: "abs_tls s = (\<lambda>_. None)"
    proof -
      have "area s t = None" for t using e abs_tls_None_iff[of s t] by simp
      then have "page_heap s p = None" for p
        using page_okD(3)[OF wf_pagesD(4)[OF I(3)], of p] u[of p] by (cases "page_heap s p") auto
      then have "page_heap s = (\<lambda>_. None)" by (simp add: fun_eq_iff)
      then show ?thesis using wf_pagesD(6)[OF I(3)] by (simp add: addresses_def)
    qed
    moreover have "\<exists>pg v. page_heap s p = Some pg \<and> vm s (address pg) = Some v"
      if ar: "area s t = Some a" and p: "p \<in> set (pages a)" for t a p
    proof -
      obtain pg where "page_heap s p = Some pg"
        using wf_pagesD(3)[OF I(3) page_lists_Some[OF ar]] p by blast
      then show ?thesis using core_frame[OF I(3)] by blast
    qed
    ultimately show ?thesis using c unfolding u by blast
  qed
qed

lemma tls_no_leak_witness:
  "\<exists>rs s. run (tls_exec demo_kernel) demo_script (fresh_process (\<lambda>_. None)) = Some (rs, s) \<and>
    page_heap s = (\<lambda>_. None) \<and> vm s = (\<lambda>_. None)"
proof -
  have a: "abs_tls (fresh_process (\<lambda>_. None)) = (\<lambda>_. None)"
    using tls_inv_start(1)[OF fresh_process_inv] by (simp add: abs_tls_def fresh_process_def fun_eq_iff)
  obtain rs s where r: "run (tls_exec demo_kernel) demo_script (fresh_process (\<lambda>_. None)) = Some (rs, s)"
    "allows tls_spec demo_script (\<lambda>_. None) rs (abs_tls s)"
    using tls_lib.guarded_run[of demo_kernel "{}" "fresh_process (\<lambda>_. None)" demo_script] demo_kernel_ok
      fresh_process_inv[of demo_kernel "\<lambda>_. None"] demo_script_may_run unfolding a by auto
  have "abs_tls s = (\<lambda>_. None)" using r(2) by (auto simp: demo_script_def allows_simps fun_upd_idem)
  with tls_no_leak[OF demo_kernel_ok demo_script_may_run r(1)] have "page_heap s = (\<lambda>_. None) \<and> dom (vm s) = {}"
    by simp
  then show ?thesis using r(1) by auto
qed

text \<open>C38: lengths wrap around at 32 bits.  An area of a size within a page of 4 GiB is created with no page at
  all, and a read of one byte of it leaves the page array; and a read whose offset plus length wraps passes
  the check against the size and leaves the page array too, where -1 is documented.\<close>

theorem tls_lengths_wrap:
  assumes "kernel_ok k" "tls_inv k U s"
  shows "(area s t = None \<and> 2 ^ 32 < unat sz + unat (getpagesize k) \<longrightarrow>
      (\<exists>s'. tls_create k t sz s = Inr (0, s') \<and> tls_read t 0 1 buf s' = Inl Undefined)) \<and>
    (area s t = Some a \<and> unat (tsize a) + unat (getpagesize k) \<le> unat off \<and> 0 < len \<and>
      2 ^ 32 \<le> unat off + unat len \<and> unat off + unat len \<le> 2 ^ 32 + unat (tsize a) \<longrightarrow>
      tls_read t off len buf s = Inl Undefined)"
proof (intro conjI impI)
  assume a: "area s t = None \<and> 2 ^ 32 < unat sz + unat (getpagesize k)"
  obtain s1 where s1: "(if \<not> initialized s then tls_init k s else Inr s) = Inr s1" "initialized s1"
    "tls_inv k U s1" "area s1 = area s"
    using tls_start_spec[OF assms] by metis
  note I = tls_inv_initialized[OF s1(3,2)]
  let ?p = "getpagesize k" let ?n = "(sz + page_size s1 - 1) div page_size s1"
  have p: "0 < unat ?p" using psize_pos[OF wf_pagesD(1)[OF I(3)]] I(5) by simp
  have lt: "unat sz < 2 ^ 32" "unat ?p < 2 ^ 32"
    using unsigned_less[of sz, where 'a = nat] unsigned_less[of ?p, where 'a = nat] by simp_all
  have e: "sz + ?p - 1 = (?p - 1) + sz" by simp
  have p1: "unat (?p - 1) = unat ?p - 1" using p by (subst unat_rules) auto
  have "unat (sz + ?p - 1) = (unat ?p - 1 + unat sz) mod 2 ^ 32"
    unfolding e by (subst unat_word_ariths) (simp add: p1)
  also have "\<dots> = unat ?p - 1 + unat sz - 2 ^ 32" using a lt by (subst mod_if) auto
  finally have "unat ?n = 0" using lt p I(5) by (simp add: unat_div)
  then have n: "?n = 0" by (simp add: unat_eq_zero)
  have sz: "\<not> sz \<le> 0" using a lt by (auto simp: word_le_nat_alt)
  let ?a = "\<lparr>tls_tid = t, tsize = sz, page_num = ?n, pages = []\<rparr>"
  let ?s = "s1\<lparr>hash_table := push_elem t ?a (hash_table s1)\<rparr>"
  have new: "area s1 t = None" using a s1(4) by simp
  have "tls_create k t sz s = Inr (0, ?s)"
    unfolding tls_create_def s1(1) using new sz n by (simp add: Let_def)
  moreover have "tls_read t 0 1 buf ?s = Inl Undefined"
    using tls_table.find_insert[OF I(1) new] sz by (simp add: tls_read_def page_at_def arr_get_def word_le_nat_alt word_less_nat_alt)
  ultimately show "\<exists>s'. tls_create k t sz s = Inr (0, s') \<and> tls_read t 0 1 buf s' = Inl Undefined" by blast
next
  assume a: "area s t = Some a \<and> unat (tsize a) + unat (getpagesize k) \<le> unat off \<and> 0 < len \<and>
      2 ^ 32 \<le> unat off + unat len \<and> unat off + unat len \<le> 2 ^ 32 + unat (tsize a)"
  then have ar: "area s t = Some a" by simp
  have init: "initialized s" using tls_inv_start(1)[OF assms(2)] ar by (cases "initialized s") auto
  note I = tls_inv_initialized[OF assms(2) init]
  have ok: "psz s * length (pages a) < unat (tsize a) + psz s" using I(2)[OF ar] unfolding area_ok_def by blast
  have p: "0 < psz s" by (rule psize_pos[OF wf_pagesD(1)[OF I(3)]])
  have "length (pages a) \<le> unat off div psz s"
    using a ok I(5) p by (subst less_eq_div_iff_mult_less_eq) (simp_all add: mult.commute)
  then have out: "page_at (pages a) off s' = Inl Undefined" if "page_size s' = page_size s" for s'
    using that by (simp add: page_at_def arr_get_def unat_div)
  have l: "unat len < 2 ^ 32" "unat off < 2 ^ 32"
    using unsigned_less[of len, where 'a = nat] unsigned_less[of off, where 'a = nat] by simp_all
  have "unat (off + len) = (unat off + unat len) mod 2 ^ 32" by (simp add: unat_word_ariths)
  also have "\<dots> = unat off + unat len - 2 ^ 32" using a l by (subst mod_if) auto
  finally have nf: "\<not> tsize a < off + len" using a unfolding word_less_nat_alt by linarith
  obtain n where n: "unat len = Suc n" using a by (cases "unat len") (auto simp: word_less_nat_alt)
  show "tls_read t off len buf s = Inl Undefined"
  proof (rule open_area[OF I(3) page_lists_Some[OF ar]])
    fix m assume "for_pages tls_unprotect (pages a) s = Inr (s\<lparr>vm := m\<rparr>)"
    then show ?thesis using ar nf n out[of "s\<lparr>vm := m\<rparr>"] by (simp add: tls_read_def)
  qed
qed

lemma tls_lengths_wrap_witness:
  "(\<exists>s. tls_create demo_kernel 1 (-1) (fresh_process (\<lambda>_. None)) = Inr (0, s) \<and> tls_read 1 0 1 [7] s = Inl Undefined) \<and>
   (\<exists>s a. area s 1 = Some a \<and> tsize a = 10 \<and> tls_read 1 (-1) 1 [7] s = Inl Undefined)"
proof (rule conjI)
  have u: "unat (-1 :: u32) = 2 ^ 32 - 1" by (simp add: unsigned_minus_1_eq_mask mask_eq_exp_minus_1)
  have a: "area (fresh_process (\<lambda>_. None)) 1 = None"
    using tls_inv_start(1)[OF fresh_process_inv] by (simp add: fresh_process_def)
  show "\<exists>s. tls_create demo_kernel 1 (-1) (fresh_process (\<lambda>_. None)) = Inr (0, s) \<and> tls_read 1 0 1 [7] s = Inl Undefined"
    by (rule mp[OF conjunct1[OF tls_lengths_wrap[OF demo_kernel_ok fresh_process_inv]]])
      (simp add: a u demo_kernel_def)
  show "\<exists>s a. area s 1 = Some a \<and> tsize a = 10 \<and> tls_read 1 (-1) 1 [7] s = Inl Undefined"
  proof (rule demo_area)
    fix s b assume s: "tls_inv demo_kernel {} s" "area s 1 = Some b" "tsize b = 10"
    from mp[OF conjunct2[OF tls_lengths_wrap[OF demo_kernel_ok s(1)]], of 1 b "-1" 1 "[7]"] s(2,3) show ?thesis
      by (auto simp: u demo_kernel_def)
  qed
qed

end
