(* ===== verification/ShellText.thy ===== *)
theory ShellText
  imports Prelude
begin

text \<open>
  Strings in memory as \<^verbatim>\<open>EC440_HW1/myshell.c\<close> uses them: a buffer of characters, pointers into it as
  indices, and the string functions of the C library that write into it.  Next to the code stand the
  functions on lists it is meant to compute, and the contract \<open>token_loop\<close> of a loop over the tokens
  that \<^verbatim>\<open>strtok\<close> finds, which both loops of the shell fulfil.
\<close>

type_synonym buffer = "char list"

definition NUL :: char where "NUL = CHR 0x00"

section \<open>Strings in a buffer\<close>

definition str_at :: "buffer \<Rightarrow> nat \<Rightarrow> string" where
  "str_at b p = takeWhile (\<lambda>c. c \<noteq> NUL) (drop p b)"

text \<open>At \<open>p\<close> stands the string \<open>s\<close> with its terminator.\<close>

definition holds :: "buffer \<Rightarrow> nat \<Rightarrow> string \<Rightarrow> bool" where
  "holds b p s \<longleftrightarrow> p + length s < length b \<and> (\<forall>i < length s. b ! (p + i) = s ! i) \<and>
     b ! (p + length s) = NUL \<and> NUL \<notin> set s"

lemma holdsD:
  assumes "holds b p s"
  shows "p + length s < length b" "i < length s \<Longrightarrow> b ! (p + i) = s ! i" "b ! (p + length s) = NUL" "NUL \<notin> set s"
  using assms by (auto simp: holds_def)

lemma holds_drop: "holds b p s \<Longrightarrow> drop p b = s @ NUL # drop (Suc (p + length s)) b"
proof -
  assume h: "holds b p s"
  note d = holdsD[OF h]
  have "take (length s) (drop p b) = s"
    by (rule nth_equalityI) (use d in auto)
  moreover have "drop (length s) (drop p b) = NUL # drop (Suc (p + length s)) b"
    using Cons_nth_drop_Suc[OF d(1)] d(3) by (simp add: add.commute)
  ultimately show ?thesis by (metis append_take_drop_id)
qed

lemma holds_str [simp]:
  assumes "holds b p s"
  shows "str_at b p = s"
proof -
  have "takeWhile (\<lambda>c. c \<noteq> NUL) (s @ NUL # r) = s" for r
    using holdsD(4)[OF assms] by (subst takeWhile_append2) auto
  then show ?thesis by (simp add: str_at_def holds_drop[OF assms])
qed

lemma holds_change:
  assumes "holds b p s" "length b' = length b" "\<And>j. p \<le> j \<Longrightarrow> j \<le> p + length s \<Longrightarrow> b' ! j = b ! j"
  shows "holds b' p s"
  using assms by (auto simp: holds_def)

lemma holds_suffix: "holds b p (xs @ ys) \<Longrightarrow> holds b (p + length xs) ys"
  unfolding holds_def by (auto simp: nth_append add.assoc dest: spec[of _ "length xs + _"])

text \<open>Writing a terminator into a string.\<close>

lemma holds_cut:
  assumes "holds b p s" "n \<le> length s"
  shows "holds (b[p + n := NUL]) p (take n s)"
  using assms holdsD(4)[OF assms(1)] by (auto simp: holds_def nth_list_update dest: in_set_takeD)

section \<open>strtok\<close>

text \<open>
  \<^verbatim>\<open>strtok\<close> with one delimiter, started at \<open>start\<close> (the argument, or the position saved by the call
  before).  Result: the token, the buffer, the saved position; \<open>None\<close> if no terminator is found in the buffer.
\<close>

definition strtok :: "nat \<Rightarrow> char \<Rightarrow> buffer \<Rightarrow> (nat option \<times> buffer \<times> nat) option" where
  "strtok start d b =
     (let s = str_at b start; w = dropWhile (\<lambda>c. c = d) s; q = start + (length s - length w);
          n = length (takeWhile (\<lambda>c. c \<noteq> d) w) in
      if length b \<le> start + length s then None
      else if w = [] then Some (None, b, q)
      else if n = length w then Some (Some q, b, q + n)
      else Some (Some q, b[q + n := NUL], q + n + 1))"

text \<open>The tokens of a string.\<close>

function tokens :: "char \<Rightarrow> string \<Rightarrow> string list" where
  "tokens d s =
     (let s' = dropWhile (\<lambda>c. c = d) s in
      if s' = [] then [] else takeWhile (\<lambda>c. c \<noteq> d) s' # tokens d (dropWhile (\<lambda>c. c \<noteq> d) s'))"
  by pat_completeness auto
termination
proof (relation "measure (\<lambda>(d, s). length s)")
  fix d :: char and s s' :: string
  assume a: "s' = dropWhile (\<lambda>c. c = d) s" "s' \<noteq> []"
  then have "hd s' \<noteq> d" using hd_dropWhile[of "\<lambda>c. c = d" s] by simp
  then have "length (dropWhile (\<lambda>c. c \<noteq> d) s') < length s'"
    using a(2) by (cases s') (auto intro: le_less_trans[OF length_dropWhile_le])
  also have "length s' \<le> length s" using a(1) by (simp add: length_dropWhile_le)
  finally show "((d, dropWhile (\<lambda>c. c \<noteq> d) s'), d, s) \<in> measure (\<lambda>(d, s). length s)" by simp
qed simp

declare tokens.simps [simp del]

lemma tokens_delim [simp]: "tokens d (d # s) = tokens d s"
  by (simp add: tokens.simps[of d "d # s"] tokens.simps[of d s])

lemma tokens_Nil [simp]: "tokens d [] = []"
  by (simp add: tokens.simps)

lemma token_pos:
  assumes "w = dropWhile (\<lambda>c. c = d) s" "w \<noteq> []"
  shows "takeWhile (\<lambda>c. c \<noteq> d) w \<noteq> []"
proof -
  have "hd w \<noteq> d" using hd_dropWhile[of "\<lambda>c. c = d" s] assms by simp
  then show ?thesis using assms(2) by (cases w) auto
qed

lemma strtok_progress:
  "strtok start d b = Some (Some q, b', save) \<Longrightarrow> start < length b \<and> start < save \<and> length b' = length b"
  using token_pos[OF refl, of d "str_at b start"] by (auto simp: strtok_def Let_def split: if_splits)

text \<open>What \<^verbatim>\<open>strtok\<close> does to a string.\<close>

lemma strtok_spec:
  assumes h: "holds b p s"
  obtains (none) q where "strtok p d b = Some (None, b, q)" "tokens d s = []"
  | (token) q w b' save r where "strtok p d b = Some (Some q, b', save)" "tokens d s = w # tokens d r"
      "length r < length s" "w \<noteq> []" "d \<notin> set w" "set w \<subseteq> set s" "p \<le> q" "q + length w \<le> save" "holds b' q w" "holds b' save r" "length b' = length b"
      "\<And>j. j \<le> p \<Longrightarrow> b' ! j = b ! j"
proof -
  note D = holdsD[OF h]
  define w where "w = dropWhile (\<lambda>c. c = d) s"
  define q where "q = p + (length s - length w)"
  define t where "t = takeWhile (\<lambda>c. c \<noteq> d) w"
  define r where "r = dropWhile (\<lambda>c. c \<noteq> d) w"
  have s: "s = takeWhile (\<lambda>c. c = d) s @ w" by (simp add: w_def)
  have lw: "length w \<le> length s" by (simp add: w_def length_dropWhile_le)
  have l: "length (takeWhile (\<lambda>c. c = d) s) = length s - length w"
    using arg_cong[OF s, of length] unfolding length_append by linarith
  have hw: "holds b q w" using holds_suffix[of b p "takeWhile (\<lambda>c. c = d) s" w] h s l by (simp add: q_def)
  have len: "\<not> length b \<le> p + length s" using D(1) by simp
  have run: "strtok p d b = (if w = [] then Some (None, b, q)
      else if length t = length w then Some (Some q, b, q + length t) else Some (Some q, b[q + length t := NUL], q + length t + 1))"
    using len unfolding strtok_def holds_str[OF h] Let_def w_def[symmetric] t_def[symmetric] q_def[symmetric] by simp
  have tk: "tokens d s = (if w = [] then [] else t # tokens d r)"
    by (subst tokens.simps) (simp only: Let_def w_def t_def r_def)
  show thesis
  proof (cases "w = []")
    case True
    then show thesis using none run tk by simp
  next
    case False
    have s0: "s \<noteq> []" using False by (auto simp: w_def)
    have pos: "t \<noteq> []" using token_pos[OF w_def False] by (simp add: t_def)
    have ws: "w = t @ r" by (simp add: t_def r_def)
    have sub: "set t \<subseteq> set s" unfolding t_def w_def by (meson set_dropWhileD set_takeWhileD subsetI)
    have dt: "d \<notin> set t" unfolding t_def by (auto dest: set_takeWhileD)
    show thesis
    proof (cases r)
      case Nil
      then have e: "w = t" using ws by simp
      moreover have "holds b (q + length t) []" using holds_suffix[of b q t "[]"] hw e by simp
      ultimately show thesis
        by (intro token[of q b "q + length t" t "[]"]) (use False s0 run tk pos dt sub hw Nil in \<open>simp_all add: q_def\<close>)
    next
      case (Cons c r')
      have cd: "c = d" using Cons hd_dropWhile[of "\<lambda>c. c \<noteq> d" w] by (simp add: r_def)
      let ?b = "b[q + length t := NUL]"
      have "holds ?b q (take (length t) w)" by (rule holds_cut[OF hw]) (simp add: ws)
      then have h1: "holds ?b q t" by (simp add: ws)
      have "holds b (q + length t + 1) r'"
        using holds_suffix[of b q "t @ [c]" r'] hw by (simp add: ws Cons)
      then have h2: "holds ?b (q + length t + 1) r'" by (rule holds_change) simp_all
      have "p < q + length t" using pos by (cases t) (simp_all add: q_def)
      then have fr: "?b ! j = b ! j" if "j \<le> p" for j using that by simp
      show thesis
        by (rule token[of q ?b "q + length t + 1" t r'])
          (use False lw run tk pos dt sub h1 h2 fr in \<open>simp_all add: ws Cons cd q_def\<close>)
    qed
  qed
qed

section \<open>Loops over tokens\<close>

text \<open>
  A loop that calls \<^verbatim>\<open>strtok\<close> until there is no token and handles each token with \<open>step\<close>, collecting
  items.  An item is read back from the buffer by \<open>read\<close>; \<open>settled b n x\<close> says that what it reads lies
  below position \<open>n\<close> or at its terminator there.  The lemma: the collected items read as the list \<open>part\<close>
  computes from each token.
\<close>

locale token_loop =
  fixes d :: char
    and step :: "nat \<Rightarrow> buffer \<Rightarrow> 'a list \<Rightarrow> ('a list \<times> buffer) option"
    and loop :: "nat \<Rightarrow> buffer \<Rightarrow> 'a list \<Rightarrow> ('a list \<times> buffer) option"
    and room_left :: "'a list \<Rightarrow> bool"
    and read :: "buffer \<Rightarrow> 'a \<Rightarrow> string"
    and part :: "string \<Rightarrow> string list"
    and settled :: "buffer \<Rightarrow> nat \<Rightarrow> 'a \<Rightarrow> bool"
    and cap :: nat
  assumes loop_eq: "loop start b acc =
      (case strtok start d b of None \<Rightarrow> None
       | Some (None, b', save) \<Rightarrow> if room_left acc then Some (acc, b') else None
       | Some (Some q, b', save) \<Rightarrow>
           (case step q b' acc of None \<Rightarrow> None | Some (acc', b'') \<Rightarrow> loop save b'' acc'))"
    and step_spec: "holds b q w \<Longrightarrow> w \<noteq> [] \<Longrightarrow> d \<notin> set w \<Longrightarrow> length acc + length (part w) \<le> cap \<Longrightarrow>
      \<exists>new b'. step q b acc = Some (acc @ new, b') \<and> map (read b') new = part w \<and>
        (\<forall>x \<in> set new. settled b' (q + length w) x) \<and> length b' = length b \<and>
        (\<forall>j. j \<le> q \<or> q + length w \<le> j \<longrightarrow> b' ! j = b ! j)"
    and cap_room: "length acc \<le> cap \<Longrightarrow> room_left acc"
    and settled_frame: "settled b n x \<Longrightarrow> length b' = length b \<Longrightarrow> (\<And>j. j \<le> n \<Longrightarrow> b' ! j = b ! j) \<Longrightarrow>
      read b' x = read b x \<and> settled b' n x"
    and settled_mono: "settled b n x \<Longrightarrow> n \<le> m \<Longrightarrow> settled b m x"
begin

lemma loop_tokens:
  assumes "holds b start s" "\<forall>x \<in> set acc. settled b start x"
    "length acc + length (concat (map part (tokens d s))) \<le> cap"
  shows "\<exists>new b'. loop start b acc = Some (acc @ new, b') \<and>
    map (read b') (acc @ new) = map (read b) acc @ concat (map part (tokens d s)) \<and>
    (\<forall>x \<in> set (acc @ new). \<exists>n. settled b' n x) \<and>
    length b' = length b \<and> (\<forall>j \<le> start. b' ! j = b ! j)"
  using assms
proof (induction "length s" arbitrary: s b start acc rule: less_induct)
  case less
  show ?case
  proof (rule strtok_spec[OF less.prems(1), of d])
    fix q assume "strtok start d b = Some (None, b, q)" "tokens d s = []"
    then show ?thesis
      using cap_room[of acc] less.prems(2,3) by (intro exI[of _ "[]"] exI[of _ b]) (auto simp: loop_eq)
  next
    fix q w b1 save r
    assume t: "strtok start d b = Some (Some q, b1, save)" "tokens d s = w # tokens d r"
      "length r < length s" "w \<noteq> []" "d \<notin> set w"
      "set w \<subseteq> set s" "start \<le> q" "q + length w \<le> save" "holds b1 q w" "holds b1 save r" "length b1 = length b"
      "\<And>j. j \<le> start \<Longrightarrow> b1 ! j = b ! j"
    obtain new b2 where n: "step q b1 acc = Some (acc @ new, b2)" "map (read b2) new = part w"
      "\<And>x. x \<in> set new \<Longrightarrow> settled b2 (q + length w) x" "length b2 = length b1"
      "\<And>j. j \<le> q \<or> q + length w \<le> j \<Longrightarrow> b2 ! j = b1 ! j"
      using step_spec[OF t(9,4,5), of acc] less.prems(3) t(2) by auto
    have fr: "b2 ! j = b ! j" if "j \<le> start" for j using that t(7,12) n(5)[of j] by simp
    have old: "read b2 x = read b x" "settled b2 start x" if "x \<in> set acc" for x
      using settled_frame[of b start x b2] less.prems(2) that fr n(4) t(11) by auto
    have ln: "length new = length (part w)" using arg_cong[OF n(2), of length] by simp
    have "holds b2 save r" by (rule holds_change[OF t(10)]) (use n(4,5) t(8) in auto)
    moreover have "\<forall>x \<in> set (acc @ new). settled b2 save x"
      using old(2) n(3) settled_mono t(7,8) by (fastforce simp: le_trans)
    moreover have "length r < length s" by (rule t(3))
    ultimately have "\<exists>new' b'. loop save b2 (acc @ new) = Some ((acc @ new) @ new', b') \<and>
        map (read b') ((acc @ new) @ new') = map (read b2) (acc @ new) @ concat (map part (tokens d r)) \<and>
        (\<forall>x \<in> set ((acc @ new) @ new'). \<exists>n. settled b' n x) \<and>
        length b' = length b2 \<and> (\<forall>j \<le> save. b' ! j = b2 ! j)"
      by (intro less.hyps) (use less.prems(3) t(2) ln in auto)
    then obtain new' b' where "loop save b2 (acc @ new) = Some ((acc @ new) @ new', b')"
        "map (read b') ((acc @ new) @ new') = map (read b2) (acc @ new) @ concat (map part (tokens d r))"
        "\<forall>x \<in> set ((acc @ new) @ new'). \<exists>n. settled b' n x"
        "length b' = length b2" "\<forall>j \<le> save. b' ! j = b2 ! j" by blast
    moreover have "map (read b2) acc = map (read b) acc" using old(1) by simp
    ultimately show ?thesis
      using t(1,2,7,8,11) n(1,2,4) fr by (intro exI[of _ "new @ new'"] exI[of _ b']) (simp add: loop_eq[of start])
  qed
qed

end

end
