(* ===== verification/ShellParse.thy ===== *)
theory ShellParse
  imports ShellText
begin

text \<open>
  The parser of \<^verbatim>\<open>EC440_HW1/myshell.c\<close>, in place on the line buffer as the code does it: trimming,
  splitting at pipes, splitting a command into arguments and redirection symbols; and the treatment of
  redirections before \<^verbatim>\<open>execvp\<close>.  Each has a list function beside it, and the buffer code is shown to
  compute it.
\<close>

section \<open>The code\<close>

text \<open>
  \<open>trim_len b p n\<close> is the number of characters that stay: with \<^verbatim>\<open>end\<close> at the last of \<open>n\<close> characters,
  spaces are dropped while \<^verbatim>\<open>end > str\<close>.  For an empty string \<^verbatim>\<open>end\<close> is \<^verbatim>\<open>str - 1\<close>, which is not
  dereferenced: the loop does not run and \<^verbatim>\<open>end + 1\<close> is \<^verbatim>\<open>str\<close> again, as on every flat address space.
  The C standard leaves the pointer before the start of the line (an empty line) undefined; the
  model does not.
\<close>

fun trim_len :: "buffer \<Rightarrow> nat \<Rightarrow> nat \<Rightarrow> nat" where
  "trim_len b p 0 = 0"
| "trim_len b p (Suc n) = (if 0 < n \<and> b ! (p + n) = CHR '' '' then trim_len b p n else Suc n)"

definition trim_spaces :: "nat \<Rightarrow> buffer \<Rightarrow> buffer" where
  "trim_spaces p b = b[p + trim_len b p (length (str_at b p)) := NUL]"

text \<open>An entry of \<^verbatim>\<open>args\<close>: a pointer into the line or to a symbol constant.\<close>

datatype arg = Token nat | Symbol string

fun arg_str :: "buffer \<Rightarrow> arg \<Rightarrow> string" where
  "arg_str b (Token p) = str_at b p"
| "arg_str b (Symbol s) = s"

definition redir_symbols :: "string list" where
  "redir_symbols = [''<'', ''>'', ''>>'', ''<<'']"

fun strstr :: "string \<Rightarrow> string \<Rightarrow> nat option" where
  "strstr [] n = (if n = [] then Some 0 else None)"
| "strstr (c # cs) n = (if take (length n) (c # cs) = n then Some 0 else map_option Suc (strstr cs n))"

text \<open>\<^verbatim>\<open>args\<close> has 32 entries.\<close>

definition push_args :: "arg list \<Rightarrow> arg list \<Rightarrow> arg list option" where
  "push_args new args = (if length args + length new \<le> 32 then Some (args @ new) else None)"

text \<open>The loop over the symbols for one token.\<close>

fun split_token :: "string list \<Rightarrow> nat \<Rightarrow> buffer \<Rightarrow> arg list \<Rightarrow> (arg list \<times> buffer) option" where
  "split_token [] q b args = map_option (\<lambda>a. (a, b)) (push_args [Token q] args)"
| "split_token (symb # symbs) q b args =
     (case strstr (str_at b q) symb of
        Some 0 \<Rightarrow> map_option (\<lambda>a. (a, b)) (push_args
          (Symbol symb # (if length symb < length (str_at b q) then [Token (q + length symb)] else [])) args)
      | Some i \<Rightarrow> map_option (\<lambda>a. (a, b[q + i := NUL])) (push_args
          [Token q, Symbol symb, Token (q + i + length symb)] args)
      | None \<Rightarrow> split_token symbs q b args)"

lemma split_token_length: "split_token symbs q b args = Some (args', b') \<Longrightarrow> length b' = length b"
  by (induction symbs q b args rule: split_token.induct) (auto split: option.splits nat.splits if_splits)

function split_loop :: "nat \<Rightarrow> buffer \<Rightarrow> arg list \<Rightarrow> (arg list \<times> buffer) option" where
  "split_loop start b args =
     (case strtok start CHR '' '' b of None \<Rightarrow> None
      | Some (None, b', save) \<Rightarrow> Some (args, b')
      | Some (Some q, b', save) \<Rightarrow>
          (case split_token redir_symbols q b' args of None \<Rightarrow> None
           | Some (args', b'') \<Rightarrow> split_loop save b'' args'))"
  by pat_completeness auto
termination
  by (relation "measure (\<lambda>(start, b, args). length b - start)")
    (auto dest!: strtok_progress split_token_length)

declare split_loop.simps [simp del]

definition split_redirection_symbols :: "nat \<Rightarrow> buffer \<Rightarrow> (arg list \<times> buffer) option" where
  "split_redirection_symbols command b = split_loop command b []"

text \<open>The arguments of a command with the final null pointer, as strings, and the buffer.\<close>

definition command_args :: "nat \<Rightarrow> buffer \<Rightarrow> (string list \<times> buffer) option" where
  "command_args command b = do {
     (args, b') \<leftarrow> split_redirection_symbols command b;
     if length args < 32 then Some (map (arg_str b') args, b') else None
   }"

text \<open>\<^verbatim>\<open>commands\<close> has 10 entries, the last of them the null pointer.\<close>

definition command_step :: "nat \<Rightarrow> buffer \<Rightarrow> nat list \<Rightarrow> (nat list \<times> buffer) option" where
  "command_step q b cmds = (if length cmds < 10 then Some (cmds @ [q], trim_spaces q b) else None)"

function command_loop :: "nat \<Rightarrow> buffer \<Rightarrow> nat list \<Rightarrow> (nat list \<times> buffer) option" where
  "command_loop start b cmds =
     (case strtok start CHR ''|'' b of None \<Rightarrow> None
      | Some (None, b', save) \<Rightarrow> if length cmds < 10 then Some (cmds, b') else None
      | Some (Some q, b', save) \<Rightarrow>
          (case command_step q b' cmds of None \<Rightarrow> None
           | Some (cmds', b'') \<Rightarrow> command_loop save b'' cmds'))"
  by pat_completeness auto
termination
  by (relation "measure (\<lambda>(start, b, cmds). length b - start)")
    (auto dest!: strtok_progress simp: command_step_def trim_spaces_def split: if_splits)

declare command_loop.simps [simp del]

text \<open>The first half of \<open>parse_and_execute\<close>: background flag, commands, buffer.\<close>

definition parse_input :: "buffer \<Rightarrow> (bool \<times> nat list \<times> buffer) option" where
  "parse_input input = do {
     let b = trim_spaces 0 input;
     let background = CHR ''&'' \<in> set (str_at b 0);
     let b = (if background then b[length (str_at b 0) - 1 := NUL] else b);
     (cmds, b) \<leftarrow> command_loop 0 b [];
     Some (background, cmds, b)
   }"

datatype stream = Stdin | Stdout
datatype mode = Read_mode | Write_mode | Append_mode

text \<open>
  The calls of \<^verbatim>\<open>freopen\<close> (a file name or the null pointer, mode, stream) and the array that is left,
  with \<open>None\<close> for the null pointers written into it.
\<close>

fun handle_redirection :: "string list \<Rightarrow> (string option \<times> mode \<times> stream) list \<times> string option list" where
  "handle_redirection [] = ([], [])"
| "handle_redirection (a # as) =
     (let (opens, rest) = handle_redirection as; file = (case as of [] \<Rightarrow> None | f # _ \<Rightarrow> Some f) in
      if a = ''>'' then ((file, Write_mode, Stdout) # opens, None # rest)
      else if a = ''>>'' then ((file, Append_mode, Stdout) # opens, None # rest)
      else if a = ''<'' then ((file, Read_mode, Stdin) # opens, None # rest)
      else (opens, Some a # rest))"

text \<open>What \<^verbatim>\<open>execvp\<close> gets: the entries up to the first null pointer.\<close>

definition exec_args :: "string option list \<Rightarrow> string list" where
  "exec_args args = map the (takeWhile (\<lambda>a. a \<noteq> None) args)"

section \<open>What it computes\<close>

definition trim :: "string \<Rightarrow> string" where
  "trim s = (case s of [] \<Rightarrow> [] | c # cs \<Rightarrow> c # rev (dropWhile (\<lambda>c. c = CHR '' '') (rev cs)))"

definition split_at :: "char \<Rightarrow> string \<Rightarrow> string list" where
  "split_at c w = (let x = takeWhile (\<lambda>a. a \<noteq> c) w; y = tl (dropWhile (\<lambda>a. a \<noteq> c) w) in
     if x = [] then [c] # (if y = [] then [] else [y]) else [x, [c], y])"

definition split_word :: "string \<Rightarrow> string list" where
  "split_word w = (if CHR ''<'' \<in> set w then split_at CHR ''<'' w
     else if CHR ''>'' \<in> set w then split_at CHR ''>'' w else [w])"

definition split_args :: "string \<Rightarrow> string list" where
  "split_args s = concat (map split_word (tokens CHR '' '' s))"

definition parse_string :: "string \<Rightarrow> bool \<times> string list" where
  "parse_string s = (let t = trim s; background = CHR ''&'' \<in> set t in
     (background, map trim (tokens CHR ''|'' (if background then butlast t else t))))"

section \<open>Trimming\<close>

lemma trim_snoc: "trim (xs @ [x]) = (if xs \<noteq> [] \<and> x = CHR '' '' then trim xs else xs @ [x])"
  by (cases xs) (simp_all add: trim_def)

lemma trim_len_eq:
  "(\<And>i. i < length s \<Longrightarrow> b ! (p + i) = s ! i) \<Longrightarrow> take (trim_len b p (length s)) s = trim s \<and> trim_len b p (length s) \<le> length s"
proof (induction s rule: rev_induct)
  case (snoc x xs)
  have "b ! (p + i) = xs ! i" if "i < length xs" for i using snoc.prems[of i] that by (simp add: nth_append)
  then have "take (trim_len b p (length xs)) xs = trim xs \<and> trim_len b p (length xs) \<le> length xs" by (rule snoc.IH)
  moreover have "b ! (p + length xs) = x" using snoc.prems[of "length xs"] by simp
  ultimately show ?case by (auto simp: trim_snoc)
qed (simp add: trim_def)

lemma trim_spaces_holds:
  assumes h: "holds b p s"
  shows "holds (trim_spaces p b) p (trim s)" "length (trim_spaces p b) = length b"
    "s \<noteq> [] \<and> j \<le> p \<or> p + length s \<le> j \<Longrightarrow> trim_spaces p b ! j = b ! j"
proof -
  let ?n = "trim_len b p (length s)"
  have n: "take ?n s = trim s" "?n \<le> length s" using trim_len_eq[of s b p] holdsD(2)[OF h] by auto
  show "holds (trim_spaces p b) p (trim s)"
    using holds_cut[OF h n(2)] n(1) h by (simp add: trim_spaces_def)
  show "length (trim_spaces p b) = length b" by (simp add: trim_spaces_def)
  assume j: "s \<noteq> [] \<and> j \<le> p \<or> p + length s \<le> j"
  have "0 < ?n" if "s \<noteq> []"
  proof -
    have "trim s \<noteq> []" using that by (cases s) (simp_all add: trim_def)
    then show ?thesis using n(1) by (cases ?n) auto
  qed
  then show "trim_spaces p b ! j = b ! j"
    using j n(2) holdsD(1,3)[OF h] h by (cases "j = p + ?n") (auto simp: trim_spaces_def)
qed

lemma trim_sub: "set (trim s) \<subseteq> set s"
  by (cases s) (auto simp: trim_def dest: set_dropWhileD)

lemma length_trim: "length (trim s) \<le> length s"
  by (cases s) (auto simp: trim_def intro: order_trans[OF length_dropWhile_le])

section \<open>Splitting a token\<close>

lemma strstr_char: "strstr w [c] = (if c \<in> set w then Some (length (takeWhile (\<lambda>a. a \<noteq> c) w)) else None)"
  by (induction w) auto

lemma strstr_sub: "strstr h n = Some i \<Longrightarrow> set n \<subseteq> set h"
proof (induction h arbitrary: i)
  case (Cons c cs)
  show ?case
  proof (cases "take (length n) (c # cs) = n")
    case True
    then show ?thesis by (metis set_take_subset)
  next
    case False
    then show ?thesis using Cons by fastforce
  qed
qed (auto split: if_splits)

lemma strstr_none: "c \<in> set n \<Longrightarrow> c \<notin> set h \<Longrightarrow> strstr h n = None"
  using strstr_sub[of h n] by (cases "strstr h n") auto

fun settled :: "buffer \<Rightarrow> nat \<Rightarrow> arg \<Rightarrow> bool" where
  "settled b n (Token p) = (\<exists>s. holds b p s \<and> p + length s \<le> n)"
| "settled b n (Symbol s) = True"

lemma settledI: "holds b p s \<Longrightarrow> p + length s \<le> n \<Longrightarrow> settled b n (Token p)"
  by (simp, blast)

lemma split_at_spec:
  assumes h: "holds b q w" and c: "c \<in> set w" and room: "length args + length (split_at c w) \<le> 32"
  shows "\<exists>new b'. split_token ([c] # symbs) q b args = Some (args @ new, b') \<and> map (arg_str b') new = split_at c w \<and>
    (\<forall>x \<in> set new. settled b' (q + length w) x) \<and> length b' = length b \<and>
    (\<forall>j. j \<le> q \<or> q + length w \<le> j \<longrightarrow> b' ! j = b ! j)"
proof -
  define x where "x = takeWhile (\<lambda>a. a \<noteq> c) w"
  define y where "y = tl (dropWhile (\<lambda>a. a \<noteq> c) w)"
  have dw: "dropWhile (\<lambda>a. a \<noteq> c) w = c # y"
    using c hd_dropWhile[of "\<lambda>a. a \<noteq> c" w] unfolding y_def by (cases "dropWhile (\<lambda>a. a \<noteq> c) w") auto
  have w: "w = x @ c # y" unfolding x_def dw[symmetric] by simp
  have sp: "split_at c w = (if x = [] then [c] # (if y = [] then [] else [y]) else [x, [c], y])"
    by (simp add: split_at_def Let_def x_def y_def)
  have st: "strstr (str_at b q) [c] = Some (length x)" using c h by (simp add: strstr_char x_def)
  show ?thesis
  proof (cases "x = []")
    case True
    have hy: "holds b (Suc q) y" using holds_suffix[of b q "[c]" y] h w True by simp
    have parts: "split_at c w = [c] # (if y = [] then [] else [y])" using True sp by simp
    have lw: "length w = Suc (length y)" using True by (simp add: w)
    let ?new = "Symbol [c] # (if y = [] then [] else [Token (q + 1)])"
    show ?thesis
    proof (intro exI[of _ ?new] exI[of _ b] conjI)
      show "split_token ([c] # symbs) q b args = Some (args @ ?new, b)"
        using st True room h unfolding parts by (cases "y = []") (simp_all add: push_args_def lw)
      show "map (arg_str b) ?new = split_at c w" using hy by (simp add: parts)
      show "\<forall>a \<in> set ?new. settled b (q + length w) a" using hy by (auto simp: lw intro!: exI[of _ y])
    qed simp_all
  next
    case False
    let ?b = "b[q + length x := NUL]"
    have "take (length x) w = x" using w by (metis append_eq_conv_conj)
    then have hx: "holds ?b q x" using holds_cut[OF h, of "length x"] arg_cong[OF w, of length] by simp
    have "holds b (q + length (x @ [c])) y" by (rule holds_suffix) (use h in \<open>simp add: w\<close>)
    then have "holds b (q + length x + 1) y" by (simp add: add.assoc)
    then have hy: "holds ?b (q + length x + 1) y" by (rule holds_change) simp_all
    obtain k where k: "length x = Suc k" using False by (cases x) auto
    have lw: "length w = length x + Suc (length y)" by (simp add: w)
    show ?thesis
    proof (intro exI[of _ "[Token q, Symbol [c], Token (q + length x + 1)]"] exI[of _ ?b] conjI)
      show "split_token ([c] # symbs) q b args = Some (args @ [Token q, Symbol [c], Token (q + length x + 1)], ?b)"
        using st room False k by (simp add: push_args_def sp)
      show "map (arg_str ?b) [Token q, Symbol [c], Token (q + length x + 1)] = split_at c w"
        using False hx hy by (simp add: sp)
      show "\<forall>a \<in> set [Token q, Symbol [c], Token (q + length x + 1)]. settled ?b (q + length w) a"
        using settledI[OF hx, of "q + length w"] settledI[OF hy, of "q + length w"] by (simp add: lw)
      show "length ?b = length b" by simp
      show "\<forall>j. j \<le> q \<or> q + length w \<le> j \<longrightarrow> ?b ! j = b ! j" using k by (auto simp: lw nth_list_update)
    qed
  qed
qed

lemma split_token_spec:
  assumes h: "holds b q w" and room: "length args + length (split_word w) \<le> 32"
  shows "\<exists>new b'. split_token redir_symbols q b args = Some (args @ new, b') \<and> map (arg_str b') new = split_word w \<and>
    (\<forall>x \<in> set new. settled b' (q + length w) x) \<and> length b' = length b \<and>
    (\<forall>j. j \<le> q \<or> q + length w \<le> j \<longrightarrow> b' ! j = b ! j)"
proof (cases "CHR ''<'' \<in> set w")
  case True
  then show ?thesis
    using split_at_spec[OF h True, of args "[''>'', ''>>'', ''<<'']"] room
    unfolding redir_symbols_def split_word_def by simp
next
  case False
  have lt: "split_token redir_symbols q b args = split_token [''>'', ''>>'', ''<<''] q b args"
    using h False by (simp add: redir_symbols_def strstr_char)
  show ?thesis
  proof (cases "CHR ''>'' \<in> set w")
    case True
    then show ?thesis
      using split_at_spec[OF h True, of args "[''>>'', ''<<'']"] room False unfolding lt split_word_def by simp
  next
    case F: False
    have "split_token redir_symbols q b args = Some (args @ [Token q], b)"
      using h False F room strstr_none[of "CHR ''<''" "''<<''" w] strstr_none[of "CHR ''>''" "''>>''" w]
      by (simp add: lt strstr_char push_args_def split_word_def del: strstr.simps)
    then show ?thesis
      using h F False by (intro exI[of _ "[Token q]"] exI[of _ b]) (auto simp: split_word_def)
  qed
qed

lemma settled_frame:
  assumes "settled b n x" "length b' = length b" "\<And>j. j \<le> n \<Longrightarrow> b' ! j = b ! j"
  shows "arg_str b' x = arg_str b x \<and> settled b' n x"
proof (cases x)
  case (Token p)
  then obtain s where s: "holds b p s" "p + length s \<le> n" using assms(1) by auto
  have "holds b' p s" by (rule holds_change[OF s(1) assms(2)]) (use assms(3) s(2) in auto)
  then show ?thesis using s Token by auto
qed simp

lemma settled_mono: "settled b n x \<Longrightarrow> n \<le> m \<Longrightarrow> settled b m x"
  by (cases x) auto

interpretation args_loop: token_loop "CHR '' ''" "split_token redir_symbols" split_loop "\<lambda>_. True" arg_str split_word settled 32
proof unfold_locales
  show "split_loop start b acc = (case strtok start CHR '' '' b of None \<Rightarrow> None
       | Some (None, b', save) \<Rightarrow> if True then Some (acc, b') else None
       | Some (Some q, b', save) \<Rightarrow>
           (case split_token redir_symbols q b' acc of None \<Rightarrow> None | Some (acc', b'') \<Rightarrow> split_loop save b'' acc'))"
    for start b acc unfolding if_True by (rule split_loop.simps)
  show "\<exists>new b'. split_token redir_symbols q b acc = Some (acc @ new, b') \<and> map (arg_str b') new = split_word w \<and>
      (\<forall>x \<in> set new. settled b' (q + length w) x) \<and> length b' = length b \<and>
      (\<forall>j. j \<le> q \<or> q + length w \<le> j \<longrightarrow> b' ! j = b ! j)"
    if "holds b q w" "length acc + length (split_word w) \<le> 32" for b q w acc
    using that by (rule split_token_spec)
  show "arg_str b' x = arg_str b x \<and> settled b' n x"
    if "settled b n x" "length b' = length b" "\<And>j. j \<le> n \<Longrightarrow> b' ! j = b ! j" for b b' n x
    using that by (rule settled_frame)
qed (auto intro: settled_mono)

section \<open>The commands of a line\<close>

lemma command_step_spec:
  assumes "holds b q w" "w \<noteq> []" "length cmds + length [trim w] \<le> 9"
  shows "\<exists>new b'. command_step q b cmds = Some (cmds @ new, b') \<and> map (str_at b') new = [trim w] \<and>
    (\<forall>p \<in> set new. settled b' (q + length w) (Token p)) \<and> length b' = length b \<and>
    (\<forall>j. j \<le> q \<or> q + length w \<le> j \<longrightarrow> b' ! j = b ! j)"
  using assms trim_spaces_holds[OF assms(1)] length_trim[of w]
  by (intro exI[of _ "[q]"] exI[of _ "trim_spaces q b"]) (auto simp: command_step_def intro!: exI[of _ "trim w"])

interpretation commands_loop: token_loop "CHR ''|''" command_step command_loop "\<lambda>cmds. length cmds < 10" str_at
    "\<lambda>w. [trim w]" "\<lambda>b n p. settled b n (Token p)" 9
proof unfold_locales
  show "command_loop start b acc = (case strtok start CHR ''|'' b of None \<Rightarrow> None
       | Some (None, b', save) \<Rightarrow> if length acc < 10 then Some (acc, b') else None
       | Some (Some q, b', save) \<Rightarrow>
           (case command_step q b' acc of None \<Rightarrow> None | Some (acc', b'') \<Rightarrow> command_loop save b'' acc'))"
    for start b acc by (subst command_loop.simps) simp
  show "str_at b' p = str_at b p \<and> settled b' n (Token p)"
    if "settled b n (Token p)" "length b' = length b" "\<And>j. j \<le> n \<Longrightarrow> b' ! j = b ! j" for b b' n p
    using settled_frame[OF that] by simp
  show "settled b m (Token p)" if "settled b n (Token p)" "n \<le> m" for b n m p
    using settled_mono[OF that] .
qed (use command_step_spec in auto)

lemma command_args_spec:
  assumes "holds b p s" "length (split_args s) < 32"
  shows "\<exists>b'. command_args p b = Some (split_args s, b') \<and> length b' = length b"
proof -
  from args_loop.loop_tokens[OF assms(1), of "[]"] assms(2) obtain new b' where
    "split_loop p b [] = Some (new, b')" "map (arg_str b') new = split_args s"
    "length b' = length b"
    by (auto simp: split_args_def)
  moreover from this(2) have "length new < 32" using assms(2) by (metis length_map)
  ultimately show ?thesis by (simp add: command_args_def split_redirection_symbols_def)
qed

lemma parse_input_spec:
  assumes h: "holds b 0 s" and r: "parse_string s = (bg, cs)" and n: "length cs \<le> 9"
  shows "\<exists>ps b'. parse_input b = Some (bg, ps, b') \<and> map (str_at b') ps = cs \<and>
    (\<forall>p \<in> set ps. holds b' p (str_at b' p)) \<and> length b' = length b"
proof -
  define t where "t = trim s"
  let ?b = "trim_spaces 0 b" let ?u = "if bg then butlast t else t"
  let ?c = "if bg then ?b[length t - 1 := NUL] else ?b"
  have bg: "bg \<longleftrightarrow> CHR ''&'' \<in> set t" and cs: "cs = map trim (tokens CHR ''|'' ?u)"
    using r by (auto simp: parse_string_def t_def Let_def)
  have h1: "holds ?b 0 t" using trim_spaces_holds(1)[OF h] by (simp add: t_def)
  have h2: "holds ?c 0 ?u"
  proof (cases bg)
    case True
    then show ?thesis using holds_cut[OF h1, of "length t - 1"] by (simp add: butlast_conv_take)
  qed (use h1 in simp)
  have "length (concat (map (\<lambda>w. [trim w]) (tokens CHR ''|'' ?u))) \<le> 9" using n by (simp add: cs comp_def)
  with commands_loop.loop_tokens[OF h2, of "[]"] obtain ps b' where
    l: "command_loop 0 ?c [] = Some (ps, b')" "map (str_at b') ps = cs" "\<forall>p \<in> set ps. \<exists>n. settled b' n (Token p)"
    "length b' = length ?c"
    by (auto simp: cs comp_def)
  have "length b' = length b" using l(4) trim_spaces_holds(2)[OF h] by simp
  have held: "\<forall>p \<in> set ps. holds b' p (str_at b' p)" using l(3) by auto
  have run: "parse_input b = Some (bg, ps, b')"
    using l(1) h1 bg by (auto simp: parse_input_def Let_def)
  show ?thesis using run l(2) held \<open>length b' = length b\<close> by blast
qed

end
