(* ===== verification/ShellRun.thy ===== *)
theory ShellRun
  imports ShellParse
begin

text \<open>
  Running the commands of \<^verbatim>\<open>EC440_HW1/myshell.c\<close>: redirection, foreground and background commands,
  pipelines, and the loop of \<open>main\<close> over its input.

  The kernel the shell runs on is the parameter \<open>os\<close>: which forks succeed, which files open, which
  programs exist, which children end while the shell waits, and which of the ended children \<^verbatim>\<open>wait\<close>
  returns.  Descriptor tables, pipes, \<^verbatim>\<open>dup2\<close> and \<^verbatim>\<open>close\<close> are modelled: the table of the shell is
  copied by \<^verbatim>\<open>fork\<close>, and a child is recorded with the table and the program it has after
  \<^verbatim>\<open>execvp\<close>.
\<close>

section \<open>Descriptors, children, the shell\<close>

datatype obj = Inherited nat | Read_end nat | Write_end nat | Opened string mode

text \<open>The table is as long as the limit on descriptors; \<open>None\<close> is a free entry.\<close>

type_synonym desc_table = "obj option list"

text \<open>What a child becomes: a program with its arguments, \<^verbatim>\<open>exit(1)\<close> after a failed \<^verbatim>\<open>execvp\<close>, or undefined behaviour.\<close>

datatype program = Runs "string list" | Exit_1 | Crash

record child =
  pid :: nat
  table :: desc_table
  program :: program

datatype event = Prompt | Started child | Reaped nat

record shell =
  descs :: desc_table
  pipes :: nat
  forks :: nat
  alive :: "child list"
  trace :: "event list"

record os =
  fork_ok :: "nat \<Rightarrow> bool"
  file_opens :: "string option \<Rightarrow> mode \<Rightarrow> bool"
  found :: "string \<Rightarrow> bool"
  ends :: "child \<Rightarrow> bool"
  first_ended :: "child list \<Rightarrow> child"

text \<open>A step of the shell: it goes on, leaves with a status, waits for ever, or its behaviour is undefined.\<close>

datatype 'a run = Done 'a | Exited nat shell | Blocked shell | Undefined

fun run_then :: "'a run \<Rightarrow> ('a \<Rightarrow> 'b run) \<Rightarrow> 'b run" where
  "run_then (Done a) f = f a"
| "run_then (Exited n s) f = Exited n s"
| "run_then (Blocked s) f = Blocked s"
| "run_then Undefined f = Undefined"

section \<open>System calls\<close>

text \<open>The lowest free descriptor.\<close>

fun alloc :: "obj \<Rightarrow> desc_table \<Rightarrow> (nat \<times> desc_table) option" where
  "alloc x [] = None"
| "alloc x (None # t) = Some (0, Some x # t)"
| "alloc x (Some y # t) = map_option (\<lambda>(n, t'). (Suc n, Some y # t')) (alloc x t)"

definition dup2 :: "nat \<Rightarrow> nat \<Rightarrow> desc_table \<Rightarrow> desc_table" where
  "dup2 old new t = (if old < length t \<and> t ! old \<noteq> None then t[new := t ! old] else t)"

definition close_desc :: "nat \<Rightarrow> desc_table \<Rightarrow> desc_table" where
  "close_desc n t = t[n := None]"

text \<open>\<^verbatim>\<open>pipe(pipefds)\<close>, whose result the shell does not look at: a failed call leaves \<^verbatim>\<open>pipefds\<close> as it was.\<close>

definition pipe_call :: "(nat \<times> nat) option \<Rightarrow> shell \<Rightarrow> (nat \<times> nat) option \<times> shell" where
  "pipe_call pipefds s =
     (case alloc (Read_end (pipes s)) (descs s) of None \<Rightarrow> (pipefds, s)
      | Some (r, t) \<Rightarrow>
          (case alloc (Write_end (pipes s)) t of None \<Rightarrow> (pipefds, s)
           | Some (w, t') \<Rightarrow> (Some (r, w), s\<lparr>descs := t', pipes := Suc (pipes s)\<rparr>)))"

text \<open>\<^verbatim>\<open>fork\<close>, with the child it gives; no child without it.\<close>

definition fork_child :: "os \<Rightarrow> child \<Rightarrow> shell \<Rightarrow> shell option" where
  "fork_child os c s =
     (if fork_ok os (forks s)
      then Some (s\<lparr>forks := Suc (forks s), alive := alive s @ [c], trace := trace s @ [Started c]\<rparr>)
      else None)"

text \<open>\<^verbatim>\<open>wait(NULL)\<close>: any child that has ended is reaped; without a child it returns at once.\<close>

definition wait_child :: "os \<Rightarrow> shell \<Rightarrow> shell run" where
  "wait_child os s =
     (let ended = filter (ends os) (alive s); c = first_ended os ended in
      if alive s = [] then Done s
      else if ended = [] then Blocked s
      else Done (s\<lparr>alive := remove1 c (alive s), trace := trace s @ [Reaped (pid c)]\<rparr>))"

definition fd_of :: "stream \<Rightarrow> nat" where
  "fd_of st = (case st of Stdin \<Rightarrow> 0 | Stdout \<Rightarrow> 1)"

text \<open>\<^verbatim>\<open>freopen\<close>: on failure the stream is closed; the null pointer as name keeps the file.\<close>

definition freopen :: "os \<Rightarrow> string option \<times> mode \<times> stream \<Rightarrow> desc_table \<Rightarrow> desc_table" where
  "freopen os req t = (case req of (file, m, st) \<Rightarrow>
     if file_opens os file m
     then (case file of Some f \<Rightarrow> t[fd_of st := Some (Opened f m)] | None \<Rightarrow> t)
     else t[fd_of st := None])"

section \<open>Commands\<close>

text \<open>
  The branch of a child from \<open>handle_redirection\<close> to \<^verbatim>\<open>execvp\<close>; \<open>None\<close> as arguments when splitting the
  command in the child was undefined.
\<close>

definition make_child :: "os \<Rightarrow> nat \<Rightarrow> desc_table \<Rightarrow> string list option \<Rightarrow> child" where
  "make_child os p t args = (case args of
     None \<Rightarrow> \<lparr>pid = p, table = t, program = Crash\<rparr>
   | Some args \<Rightarrow>
       (let (opens, rest) = handle_redirection args; argv = exec_args rest in
        \<lparr>pid = p, table = fold (freopen os) opens t,
         program = (case argv of [] \<Rightarrow> Crash | f # _ \<Rightarrow> if found os f then Runs argv else Exit_1)\<rparr>))"

definition execute_command :: "os \<Rightarrow> string list \<Rightarrow> bool \<Rightarrow> shell \<Rightarrow> shell run" where
  "execute_command os args background s =
     (case fork_child os (make_child os (forks s) (descs s) (Some args)) s of
        None \<Rightarrow> Exited 1 s
      | Some s \<Rightarrow> if background then Done s else wait_child os s)"

text \<open>
  The loop of \<open>execute_piped_commands\<close>, on the arguments each child splits from its copy of the line.
  \<open>input_fd\<close> and \<open>pipefds\<close> are the variables of the code.
\<close>

fun pipe_loop :: "os \<Rightarrow> string list option list \<Rightarrow> (nat \<times> nat) option \<Rightarrow> nat \<Rightarrow> shell \<Rightarrow> shell run" where
  "pipe_loop os [] pipefds input_fd s = Done s"
| "pipe_loop os (args # rest) pipefds input_fd s =
     (case pipe_call pipefds s of
        (None, s) \<Rightarrow> Undefined
      | (Some (r, w), s) \<Rightarrow>
          (let t = dup2 input_fd 0 (descs s);
               t = (if rest \<noteq> [] then dup2 w 1 t else t);
               t = close_desc r t in
           case fork_child os (make_child os (forks s) t args) s of
             None \<Rightarrow> Exited 1 s
           | Some s \<Rightarrow> run_then (wait_child os s) (\<lambda>s.
               pipe_loop os rest (Some (r, w)) r (s\<lparr>descs := close_desc w (descs s)\<rparr>))))"

definition execute_piped_commands :: "os \<Rightarrow> nat list \<Rightarrow> buffer \<Rightarrow> shell \<Rightarrow> shell run" where
  "execute_piped_commands os commands b s =
     pipe_loop os (map (\<lambda>p. map_option fst (command_args p b)) commands) None 0 s"

definition parse_and_execute :: "os \<Rightarrow> buffer \<Rightarrow> shell \<Rightarrow> (buffer \<times> shell) run" where
  "parse_and_execute os input s =
     (case parse_input input of None \<Rightarrow> Undefined
      | Some (background, commands, b) \<Rightarrow>
          if length commands = 1
          then (case command_args (commands ! 0) b of None \<Rightarrow> Undefined
                | Some (args, b') \<Rightarrow> run_then (execute_command os args background s) (\<lambda>s. Done (b', s)))
          else run_then (execute_piped_commands os commands b s) (\<lambda>s. Done (b, s)))"

section \<open>main\<close>

definition newline :: char where "newline = CHR 0x0A"

text \<open>What \<^verbatim>\<open>fgets\<close> takes: at most \<open>n\<close> characters, up to a newline.\<close>

fun get_line :: "nat \<Rightarrow> string \<Rightarrow> string" where
  "get_line 0 inp = []"
| "get_line n [] = []"
| "get_line (Suc n) (c # cs) = c # (if c = newline then [] else get_line n cs)"

definition fgets :: "nat \<Rightarrow> string \<Rightarrow> buffer \<Rightarrow> (buffer \<times> string) option" where
  "fgets size_n inp b = (let l = get_line (size_n - 1) inp in
     if inp = [] then None else Some (l @ NUL # drop (Suc (length l)) b, drop (length l) inp))"

lemma get_line_pos: "inp \<noteq> [] \<Longrightarrow> 0 < n \<Longrightarrow> get_line n inp \<noteq> []"
  by (cases n; cases inp) simp_all

lemma fgets_consumes: "fgets (Suc (Suc n)) inp b = Some (b', inp') \<Longrightarrow> length inp' < length inp"
  using get_line_pos[of inp "Suc n"] by (auto simp: fgets_def Let_def split: if_splits)

lemma and_then_cong [fundef_cong]:
  "m = m' \<Longrightarrow> (\<And>a. m' = Done a \<Longrightarrow> f a = g a) \<Longrightarrow> run_then m f = run_then m' g"
  by (cases m') auto

function main_loop :: "os \<Rightarrow> bool \<Rightarrow> buffer \<Rightarrow> string \<Rightarrow> shell \<Rightarrow> shell run" where
  "main_loop os suppress_prompt b inp s =
     (let s = (if suppress_prompt then s else s\<lparr>trace := trace s @ [Prompt]\<rparr>) in
      case fgets 512 inp b of None \<Rightarrow> Done s
      | Some (b, inp') \<Rightarrow>
          if str_at b 0 = ''exit'' @ [newline] then Done s
          else run_then (parse_and_execute os (b[length (takeWhile (\<lambda>c. c \<noteq> newline) (str_at b 0)) := NUL]) s)
            (\<lambda>(b, s). main_loop os suppress_prompt b inp' s))"
  by pat_completeness auto
termination
  by (relation "measure (\<lambda>(os, q, b, inp, s). length inp)")
    (auto dest: fgets_consumes[of 510, simplified])

declare main_loop.simps [simp del]

definition main :: "os \<Rightarrow> string list \<Rightarrow> buffer \<Rightarrow> string \<Rightarrow> shell \<Rightarrow> shell run" where
  "main os argv input inp s =
     main_loop os (1 < length argv \<and> argv ! 1 = ''-n'') input inp s"

end
