(* ===== verification/ShellPipes.thy ===== *)
theory ShellPipes
  imports ShellRun
begin

text \<open>
  The children of \<^verbatim>\<open>EC440_HW1/myshell.c\<close>: which descriptors the children of a pipeline are given and
  in which order they run, what the shell keeps open afterwards, which files a redirected command
  gets, and which child the shell waits for.
\<close>

definition demo_os :: os where
  "demo_os = \<lparr>fork_ok = (\<lambda>_. True), file_opens = (\<lambda>_ _. True), found = (\<lambda>_. True), ends = (\<lambda>_. True), first_ended = hd\<rparr>"

definition demo_shell :: shell where
  "demo_shell = \<lparr>descs = map (\<lambda>n. Some (Inherited n)) [0..<3] @ replicate 5 None, pipes = 0, forks = 0, alive = [], trace = []\<rparr>"

text \<open>Forks succeed, children end, and \<^verbatim>\<open>wait\<close> returns one of those that have.\<close>

definition calm :: "os \<Rightarrow> bool" where
  "calm os \<longleftrightarrow> (\<forall>p. fork_ok os p) \<and> (\<forall>c. ends os c) \<and> (\<forall>cs. cs \<noteq> [] \<longrightarrow> first_ended os cs \<in> set cs)"

lemma calm_demo: "calm demo_os"
  by (simp add: calm_def demo_os_def)

section \<open>Descriptor tables\<close>

definition free :: "desc_table \<Rightarrow> nat" where
  "free t = length (filter (\<lambda>e. e = None) t)"

definition no_writer :: "desc_table \<Rightarrow> bool" where
  "no_writer t \<longleftrightarrow> (\<forall>k. Some (Write_end k) \<notin> set t)"

lemma free_Cons [simp]: "free (e # t) = (if e = None then Suc (free t) else free t)"
  by (simp add: free_def)

lemma free_replicate [simp]: "free (replicate n None) = n"
  by (simp add: free_def)

lemma alloc_some: "0 < free t \<Longrightarrow> alloc x t \<noteq> None"
  by (induction x t rule: alloc.induct) (auto simp: free_def)

lemma alloc_spec:
  "alloc x t = Some (n, t') \<Longrightarrow> n < length t \<and> t ! n = None \<and> t' = t[n := Some x] \<and> Suc (free t') = free t"
  by (induction x t arbitrary: n t' rule: alloc.induct) auto

lemma pipe_call_spec:
  assumes "1 < free (descs s)"
  obtains r w t where "pipe_call p s = (Some (r, w), s\<lparr>descs := t[w := Some (Write_end (pipes s))], pipes := Suc (pipes s)\<rparr>)"
    "t = (descs s)[r := Some (Read_end (pipes s))]" "r < length (descs s)" "descs s ! r = None"
    "w < length t" "t ! w = None" "Suc (free t) = free (descs s)"
proof -
  obtain r t where a: "alloc (Read_end (pipes s)) (descs s) = Some (r, t)"
    using alloc_some[of "descs s" "Read_end (pipes s)"] assms by auto
  note r = alloc_spec[OF a]
  obtain w t' where b: "alloc (Write_end (pipes s)) t = Some (w, t')"
    using alloc_some[of t "Write_end (pipes s)"] assms r by auto
  note w = alloc_spec[OF b]
  show thesis by (rule that[of r w t]) (use a b r w in \<open>auto simp: pipe_call_def\<close>)
qed

section \<open>Waiting\<close>

lemma wait_only:
  assumes "calm os" "alive s = [c]"
  shows "wait_child os s = Done (s\<lparr>alive := [], trace := trace s @ [Reaped (pid c)]\<rparr>)"
proof -
  have "first_ended os [c] \<in> set [c]" using assms(1) unfolding calm_def by blast
  then show ?thesis using assms by (simp add: wait_child_def calm_def Let_def)
qed

text \<open>
  The shell starts the command, and waits if it is not a background command; the \<^verbatim>\<open>wait\<close> may return
  another child than the one just started.
\<close>

text \<open>C23: A foreground command without other children is started and reaped before the shell goes on, and a background command is started and left running; but when a background child of an earlier line has ended, the wait for a foreground command may return that child, and the shell goes on while its foreground command still runs.\<close>

theorem wait_is_for_any_child:
  assumes "calm os" "c = make_child os (forks s) (descs s) (Some args)"
  shows "(alive s = [] \<longrightarrow> execute_command os args False s =
      Done (s\<lparr>forks := Suc (forks s), trace := trace s @ [Started c, Reaped (pid c)]\<rparr>)) \<and>
    execute_command os args True s =
      Done (s\<lparr>forks := Suc (forks s), alive := alive s @ [c], trace := trace s @ [Started c]\<rparr>) \<and>
    (\<forall>d. alive s = [d] \<and> d \<noteq> c \<and> first_ended os [d, c] = d \<longrightarrow> execute_command os args False s =
      Done (s\<lparr>forks := Suc (forks s), alive := [c], trace := trace s @ [Started c, Reaped (pid d)]\<rparr>))"
proof -
  let ?s = "s\<lparr>forks := Suc (forks s), alive := alive s @ [c], trace := trace s @ [Started c]\<rparr>"
  have f: "fork_child os c s = Some ?s" using assms(1) by (simp add: fork_child_def calm_def)
  then have run: "execute_command os args bg s = (if bg then Done ?s else wait_child os ?s)" for bg
    by (simp add: execute_command_def assms(2))
  have "wait_child os ?s = Done (s\<lparr>forks := Suc (forks s), trace := trace s @ [Started c, Reaped (pid c)]\<rparr>)" if "alive s = []"
    using wait_only[OF assms(1), of ?s c] that by simp
  moreover have "wait_child os ?s = Done (s\<lparr>forks := Suc (forks s), alive := [c], trace := trace s @ [Started c, Reaped (pid d)]\<rparr>)"
    if "alive s = [d]" "first_ended os [d, c] = d" for d
    using assms(1) that by (simp add: wait_child_def calm_def)
  ultimately show ?thesis by (simp add: run)
qed

theorem wait_is_for_any_child_witness:
  "\<exists>c d. execute_command demo_os [''ls''] False (demo_shell\<lparr>forks := 1, alive := [d]\<rparr>) =
    Done (demo_shell\<lparr>forks := 2, alive := [c], trace := [Started c, Reaped 0]\<rparr>)"
proof -
  define d where "d = make_child demo_os 0 (descs demo_shell) (Some [''sleep''])"
  define s where "s = demo_shell\<lparr>forks := 1, alive := [d]\<rparr>"
  define c where "c = make_child demo_os (forks s) (descs s) (Some [''ls''])"
  have d: "pid d = 0" "d \<noteq> c" by (simp_all add: d_def c_def s_def make_child_def demo_os_def exec_args_def)
  have "first_ended demo_os [d, c] = d" by (simp add: demo_os_def)
  with wait_is_for_any_child[OF calm_demo c_def] d have "execute_command demo_os [''ls''] False s =
      Done (s\<lparr>forks := Suc (forks s), alive := [c], trace := trace s @ [Started c, Reaped (pid d)]\<rparr>)"
    by (simp add: s_def)
  then have "execute_command demo_os [''ls''] False (demo_shell\<lparr>forks := 1, alive := [d]\<rparr>) =
      Done (demo_shell\<lparr>forks := 2, alive := [c], trace := [Started c, Reaped 0]\<rparr>)"
    using d(1) by (simp add: s_def demo_shell_def numeral_2_eq_2)
  then show ?thesis by blast
qed

section \<open>Pipelines\<close>

text \<open>
  Child \<open>i\<close> of \<open>n\<close>, started from shell \<open>s\<close>: its standard input is the read end of the pipe before (the
  first has \<open>src\<close>), its standard output the write end of its own pipe (the last has that of the shell),
  and it holds no write end of another pipe.
\<close>

definition wired :: "os \<Rightarrow> shell \<Rightarrow> obj option \<Rightarrow> nat \<Rightarrow> nat \<Rightarrow> string list option \<Rightarrow> child \<Rightarrow> bool" where
  "wired os s src n i args c \<longleftrightarrow> (\<exists>t. c = make_child os (forks s + i) t args \<and>
     t ! 0 = (if i = 0 then src else Some (Read_end (pipes s + i - 1))) \<and>
     t ! 1 = (if Suc i = n then descs s ! 1 else Some (Write_end (pipes s + i))) \<and>
     (\<forall>k. Some (Write_end k) \<in> set t \<longrightarrow> k = pipes s + i))"

lemma pid_make_child [simp]: "pid (make_child os p t args) = p"
  by (simp add: make_child_def Let_def split: option.split prod.split)

lemma first_child_wired:
  assumes s: "1 < free (descs s)" "no_writer (descs s)"
    and std: "descs s ! 0 \<noteq> None" "descs s ! 1 \<noteq> None" "1 < length (descs s)"
    and inp: "inp < length (descs s)" "descs s ! inp \<noteq> None"
    and t: "t = (descs s)[r := Some (Read_end (pipes s))]" "r < length (descs s)" "descs s ! r = None"
      "w < length t" "t ! w = None"
    and u: "u = t[w := Some (Write_end (pipes s))]" "u1 = dup2 inp 0 u" "u2 = (if final then u1 else dup2 w 1 u1)" "u3 = close_desc r u2"
  shows "u3 ! 0 = descs s ! inp" "u3 ! 1 = (if final then descs s ! 1 else Some (Write_end (pipes s)))"
    "Some (Write_end k) \<in> set u3 \<Longrightarrow> k = pipes s"
proof -
  have ne: "r \<noteq> 0" "r \<noteq> 1" "r \<noteq> inp" using std inp t by metis+
  have tn: "t ! n = descs s ! n" if "r \<noteq> n" for n using that t(1) by simp
  have "w \<noteq> r" using t(1,2,5) by auto
  moreover have "t ! 0 \<noteq> None" "t ! 1 \<noteq> None" "t ! inp \<noteq> None"
    using tn ne std(1,2) inp(2) by simp_all
  ultimately have nw: "w \<noteq> 0" "w \<noteq> 1" "w \<noteq> inp" "w \<noteq> r" using t(5) by metis+
  have lt: "0 < length (descs s)" "length t = length (descs s)" using std(3) t by auto
  have ui: "u ! inp = descs s ! inp" using ne nw tn[of inp] by (simp add: u(1))
  have lu: "length u = length (descs s)" using lt by (simp add: u(1))
  have uw: "u ! w = Some (Write_end (pipes s))" using t(4) by (simp add: u(1))
  have u1: "u1 = u[0 := descs s ! inp]" using inp lt by (simp add: dup2_def ui u(2) lu)
  have u2: "u2 = (if final then u1 else u1[1 := Some (Write_end (pipes s))])"
    using nw t(4) lt(2) by (simp add: dup2_def u(3) u1 lu uw)
  show "u3 ! 0 = descs s ! inp" using ne lt std(3) by (simp add: u(4) close_desc_def u2 u1 u(1) nth_list_update)
  show "u3 ! 1 = (if final then descs s ! 1 else Some (Write_end (pipes s)))"
    using ne nw lt std(3) by (simp add: u(4) close_desc_def u2 u1 u(1) t(1) nth_list_update)
  have "set u3 \<subseteq> insert None (insert (Some (Write_end (pipes s))) (insert (descs s ! inp) (insert (Some (Read_end (pipes s))) (set (descs s)))))"
    unfolding u(4) close_desc_def u2 u1 u(1) t(1)
    by (auto dest!: subsetD[OF set_update_subset_insert] split: if_splits)
  then have "Some (Write_end k) \<in> insert (Some (Write_end (pipes s))) (insert (descs s ! inp) (set (descs s)))"
    if "Some (Write_end k) \<in> set u3" using that by auto
  moreover have "descs s ! inp \<in> set (descs s)" using inp by simp
  moreover have "Some (Write_end k) \<notin> set (descs s)" using s(2) by (simp add: no_writer_def)
  ultimately show "Some (Write_end k) \<in> set u3 \<Longrightarrow> k = pipes s" by auto
qed

text \<open>
  One round of the loop: the child, and the shell after its end.  The shell has lost one free
  descriptor, to the read end of the new pipe.
\<close>

lemma pipe_round:
  assumes os: "calm os" and s: "alive s = []" "1 < free (descs s)" "no_writer (descs s)"
    and std: "descs s ! 0 \<noteq> None" "descs s ! 1 \<noteq> None" "1 < length (descs s)"
    and inp: "inp < length (descs s)" "descs s ! inp \<noteq> None"
  shows "\<exists>c p r s'. pipe_loop os (args # rest) pipefds inp s = pipe_loop os rest p r s' \<and>
    wired os s (descs s ! inp) (Suc (length rest)) 0 args c \<and> trace s' = trace s @ [Started c, Reaped (pid c)] \<and>
    alive s' = [] \<and> pipes s' = Suc (pipes s) \<and> forks s' = Suc (forks s) \<and>
    descs s' = (descs s)[r := Some (Read_end (pipes s))] \<and> r < length (descs s) \<and> descs s ! r = None \<and>
    Suc (free (descs s')) = free (descs s)"
proof -
  obtain r w t where p: "pipe_call pipefds s = (Some (r, w), s\<lparr>descs := t[w := Some (Write_end (pipes s))], pipes := Suc (pipes s)\<rparr>)"
    and t: "t = (descs s)[r := Some (Read_end (pipes s))]" "r < length (descs s)" "descs s ! r = None"
      "w < length t" "t ! w = None" and fr: "Suc (free t) = free (descs s)"
    by (rule pipe_call_spec[OF s(2)])
  let ?u = "t[w := Some (Write_end (pipes s))]"
  let ?u1 = "dup2 inp 0 ?u"
  let ?u2 = "if rest = [] then ?u1 else dup2 w 1 ?u1"
  let ?u3 = "close_desc r ?u2"
  let ?c = "make_child os (forks s) ?u3 args"
  let ?s = "s\<lparr>pipes := Suc (pipes s), forks := Suc (forks s), alive := [], trace := trace s @ [Started ?c, Reaped (pid ?c)], descs := t\<rparr>"
  note wire = first_child_wired[where final = "rest = []", OF s(2,3) std inp t refl refl refl refl]
  have restored: "close_desc w ?u = t" using t(5) by (simp add: close_desc_def list_update_overwrite[of t] list_update_same_conv t(4))
  have "wired os s (descs s ! inp) (Suc (length rest)) 0 args ?c"
    unfolding wired_def by (intro exI[of _ ?u3]) (use wire in auto)
  moreover have "pipe_loop os (args # rest) pipefds inp s = pipe_loop os rest (Some (r, w)) r ?s"
    using os restored wait_only[OF os] s(1) by (simp add: p fork_child_def calm_def Let_def)
  ultimately show ?thesis
    using t fr s(1) by (intro exI[of _ ?c] exI[of _ "Some (r, w)"] exI[of _ r] exI[of _ ?s]) simp
qed

lemma wired_Suc:
  assumes "wired os s1 (Some (Read_end (pipes s))) n i args c" "pipes s1 = Suc (pipes s)" "forks s1 = Suc (forks s)"
    "descs s1 ! 1 = descs s ! 1"
  shows "wired os s src (Suc n) (Suc i) args c"
  using assms unfolding wired_def by (auto split: if_splits)

lemma all_less_Suc_nth: "(\<forall>i < Suc n. P i) \<longleftrightarrow> P 0 \<and> (\<forall>i < n. P (Suc i))"
  by (metis less_Suc_eq_0_disj)

lemma pipe_loop_runs:
  assumes os: "calm os" and s: "alive s = []" "length argss < free (descs s)" "no_writer (descs s)"
    and std: "descs s ! 0 \<noteq> None" "descs s ! 1 \<noteq> None" "1 < length (descs s)"
    and inp: "inp < length (descs s)" "descs s ! inp \<noteq> None"
  shows "\<exists>cs s'. pipe_loop os argss pipefds inp s = Done s' \<and> length cs = length argss \<and>
    (\<forall>i < length argss. wired os s (descs s ! inp) (length argss) i (argss ! i) (cs ! i)) \<and>
    trace s' = trace s @ concat (map (\<lambda>c. [Started c, Reaped (pid c)]) cs) \<and> alive s' = [] \<and>
    (\<forall>i < length argss. Some (Read_end (pipes s + i)) \<in> set (descs s')) \<and> no_writer (descs s') \<and>
    set (descs s) - {None} \<subseteq> set (descs s') \<and> free (descs s') + length argss = free (descs s)"
  using s std inp
proof (induction argss arbitrary: pipefds inp s)
  case Nil
  then show ?case by (intro exI[of _ "[]"] exI[of _ s]) simp
next
  case (Cons args rest)
  note pre = Cons.prems
  have "1 < free (descs s)" using pre(2) by simp
  then obtain c p r s1 where step: "pipe_loop os (args # rest) pipefds inp s = pipe_loop os rest p r s1"
    and c: "wired os s (descs s ! inp) (Suc (length rest)) 0 args c"
    and s1: "trace s1 = trace s @ [Started c, Reaped (pid c)]" "alive s1 = []" "pipes s1 = Suc (pipes s)"
      "forks s1 = Suc (forks s)" "Suc (free (descs s1)) = free (descs s)"
    and d: "descs s1 = (descs s)[r := Some (Read_end (pipes s))]" "r < length (descs s)" "descs s ! r = None"
    using pipe_round[OF os pre(1) _ pre(3-8), of args rest pipefds] by blast
  have r: "r \<noteq> 0" "r \<noteq> 1" using d(3) pre(4,5) by metis+
  have nth: "descs s1 ! n = (if n = r then Some (Read_end (pipes s)) else descs s ! n)" for n
    using d(1,2) by (simp add: nth_list_update)
  have sub: "set (descs s) - {None} \<subseteq> set (descs s1)"
    using d by (auto simp: in_set_conv_nth nth_list_update) (metis option.distinct(1))
  have "set (descs s1) \<subseteq> insert (Some (Read_end (pipes s))) (set (descs s))"
    unfolding d(1) by (rule set_update_subset_insert)
  then have nw: "no_writer (descs s1)" using pre(3) by (auto simp: no_writer_def)
  have "length rest < free (descs s1)" using s1(5) pre(2) by simp
  moreover have "descs s1 ! 0 \<noteq> None" "descs s1 ! 1 \<noteq> None" "1 < length (descs s1)" "r < length (descs s1)" "descs s1 ! r \<noteq> None"
    using nth r pre(4-6) d(1,2) by simp_all
  ultimately obtain cs s' where IH: "pipe_loop os rest p r s1 = Done s'" "length cs = length rest"
    "\<forall>i < length rest. wired os s1 (descs s1 ! r) (length rest) i (rest ! i) (cs ! i)"
    "trace s' = trace s1 @ concat (map (\<lambda>c. [Started c, Reaped (pid c)]) cs)" "alive s' = []"
    "\<forall>i < length rest. Some (Read_end (pipes s1 + i)) \<in> set (descs s')" "no_writer (descs s')"
    "set (descs s1) - {None} \<subseteq> set (descs s')" "free (descs s') + length rest = free (descs s1)"
    using Cons.IH[OF s1(2) _ nw] by blast
  have src: "descs s1 ! r = Some (Read_end (pipes s))" "descs s1 ! 1 = descs s ! 1" using nth r by simp_all
  have tl_wired: "wired os s (descs s ! inp) (Suc (length rest)) (Suc i) (rest ! i) (cs ! i)" if "i < length rest" for i
    using wired_Suc[OF IH(3)[rule_format, OF that, unfolded src(1)] s1(3,4) src(2)] .
  have "Some (Read_end (pipes s)) \<in> set (descs s1)" using d(1,2) by (simp add: set_update_memI)
  then have rd: "Some (Read_end (pipes s)) \<in> set (descs s')" using IH(8) by blast
  show ?case
    using step c tl_wired IH s1 rd sub
    by (intro exI[of _ "c # cs"] exI[of _ s']) (auto simp: all_less_Suc_nth)
qed

text \<open>C20: A pipeline of n commands in a shell without other children runs to its end with the commands one after another, each started only after the one before was reaped; command i reads the pipe of command i-1 and writes its own pipe, the ends of the line keep the shell's input and output, no child holds a write end of the pipe it reads so it sees end of file, and the shell is left with no write end but with n read ends it never closes.\<close>

theorem pipeline_wiring:
  assumes "calm os" "alive s = []" "length commands < free (descs s)" "no_writer (descs s)"
    "descs s ! 0 \<noteq> None" "descs s ! 1 \<noteq> None" "1 < length (descs s)"
  shows "\<exists>cs s'. execute_piped_commands os commands b s = Done s' \<and> length cs = length commands \<and>
    (\<forall>i < length commands. wired os s (descs s ! 0) (length commands) i
        (map_option fst (command_args (commands ! i) b)) (cs ! i)) \<and>
    trace s' = trace s @ concat (map (\<lambda>c. [Started c, Reaped (pid c)]) cs) \<and> alive s' = [] \<and>
    (\<forall>i < length commands. Some (Read_end (pipes s + i)) \<in> set (descs s')) \<and> no_writer (descs s') \<and>
    free (descs s') + length commands = free (descs s)"
proof -
  let ?as = "map (\<lambda>p. map_option fst (command_args p b)) commands"
  have "0 < length (descs s)" using assms(7) by linarith
  from pipe_loop_runs[OF assms(1,2) _ assms(4-7) this assms(5), of ?as None] assms(3)
  obtain cs s' where r: "pipe_loop os ?as None 0 s = Done s'" "length cs = length ?as"
    "\<forall>i < length ?as. wired os s (descs s ! 0) (length ?as) i (?as ! i) (cs ! i)"
    "trace s' = trace s @ concat (map (\<lambda>c. [Started c, Reaped (pid c)]) cs)" "alive s' = []"
    "\<forall>i < length ?as. Some (Read_end (pipes s + i)) \<in> set (descs s')" "no_writer (descs s')"
    "free (descs s') + length ?as = free (descs s)" by auto
  then show ?thesis unfolding execute_piped_commands_def by (intro exI[of _ cs] exI[of _ s']) simp
qed

theorem pipeline_wiring_witness:
  "\<exists>cs s'. execute_piped_commands demo_os [0, 3] (''ls'' @ [NUL] @ ''wc -l'' @ [NUL]) demo_shell = Done s' \<and> length cs = 2 \<and>
    trace s' = concat (map (\<lambda>c. [Started c, Reaped (pid c)]) cs) \<and>
    wired demo_os demo_shell (Some (Inherited 0)) 2 0 (Some [''ls'']) (cs ! 0) \<and>
    wired demo_os demo_shell (Some (Inherited 0)) 2 1 (Some [''wc'', ''-l'']) (cs ! 1) \<and> free (descs s') = 3"
proof -
  define b where "b = ''ls'' @ [NUL] @ ''wc -l'' @ [NUL]"
  have d: "length [0::nat, 3] < free (descs demo_shell)" "descs demo_shell ! 0 = Some (Inherited 0)" "no_writer (descs demo_shell)"
    "descs demo_shell ! 0 \<noteq> None" "descs demo_shell ! 1 \<noteq> None" "1 < length (descs demo_shell)" "free (descs demo_shell) = 5"
    by (simp_all add: demo_shell_def no_writer_def upt_rec)
  have args: "map_option fst (command_args 0 b) = Some [''ls'']" "map_option fst (command_args 3 b) = Some [''wc'', ''-l'']"
    unfolding b_def by code_simp+
  have idle: "alive demo_shell = []" "trace demo_shell = []" by (simp_all add: demo_shell_def)
  from pipeline_wiring[OF calm_demo idle(1) d(1,3-6), of b] show ?thesis
    unfolding b_def[symmetric] by (elim exE conjE) (auto simp: all_less_Suc_nth numeral_2_eq_2 args d idle)
qed

text \<open>
  The same order is what a pipeline can hang on: the shell waits for a command before the one that would
  read its pipe is started.
\<close>

lemma pipeline_stalls:
  assumes "\<forall>p. fork_ok os p" "\<forall>c. \<not> ends os c" "alive s = []" "1 < free (descs s)" "commands \<noteq> []"
  shows "\<exists>c s'. execute_piped_commands os commands b s = Blocked s' \<and> trace s' = trace s @ [Started c]"
proof -
  obtain cmd rest where "commands = cmd # rest" using assms(5) by (cases commands) auto
  moreover obtain r w t where "pipe_call None s = (Some (r, w), s\<lparr>descs := t[w := Some (Write_end (pipes s))], pipes := Suc (pipes s)\<rparr>)"
    by (rule pipe_call_spec[OF assms(4)])
  ultimately show ?thesis
    using assms(1-3) by (auto simp: execute_piped_commands_def fork_child_def wait_child_def Let_def)
qed

section \<open>Redirection\<close>

fun unwords :: "string list \<Rightarrow> string" where
  "unwords [] = []"
| "unwords [w] = w"
| "unwords (w # ws) = w @ '' '' @ unwords ws"

definition word :: "string \<Rightarrow> bool" where
  "word w \<longleftrightarrow> w \<noteq> [] \<and> CHR '' '' \<notin> set w"

text \<open>A word without a redirection symbol.\<close>

definition plain :: "string \<Rightarrow> bool" where
  "plain w \<longleftrightarrow> word w \<and> CHR ''<'' \<notin> set w \<and> CHR ''>'' \<notin> set w"

lemma tokens_word: "word w \<Longrightarrow> tokens CHR '' '' (w @ CHR '' '' # r) = w # tokens CHR '' '' r"
proof -
  assume "word w"
  then have w: "w \<noteq> []" "\<And>c. c \<in> set w \<Longrightarrow> c \<noteq> CHR '' ''" by (auto simp: word_def)
  then have "dropWhile (\<lambda>c. c = CHR '' '') (w @ CHR '' '' # r) = w @ CHR '' '' # r" by (cases w) auto
  moreover have "takeWhile (\<lambda>c. c \<noteq> CHR '' '') (w @ CHR '' '' # r) = w" "dropWhile (\<lambda>c. c \<noteq> CHR '' '') (w @ CHR '' '' # r) = CHR '' '' # r"
    using w(2) by (simp_all add: takeWhile_append2 dropWhile_append2)
  ultimately show ?thesis by (subst tokens.simps) (simp add: Let_def)
qed

lemma tokens_last: "word w \<Longrightarrow> tokens CHR '' '' w = [w]"
proof -
  assume "word w"
  then have w: "w \<noteq> []" "\<And>c. c \<in> set w \<Longrightarrow> c \<noteq> CHR '' ''" by (auto simp: word_def)
  then have "dropWhile (\<lambda>c. c = CHR '' '') w = w" by (cases w) auto
  moreover have "takeWhile (\<lambda>c. c \<noteq> CHR '' '') w = w" "dropWhile (\<lambda>c. c \<noteq> CHR '' '') w = []"
    using w(2) by (auto simp: takeWhile_eq_all_conv dropWhile_eq_Nil_conv)
  ultimately show ?thesis using w(1) unfolding tokens.simps[of _ w] by (simp only: Let_def tokens_Nil if_False)
qed

lemma split_args_unwords: "\<forall>w \<in> set ws. word w \<Longrightarrow> split_args (unwords ws) = concat (map split_word ws)"
  unfolding split_args_def by (induction ws rule: unwords.induct) (simp_all add: tokens_word tokens_last)

lemma split_word_plain [simp]:
  "plain w \<Longrightarrow> split_word w = [w]"
  "plain f \<Longrightarrow> split_word (CHR ''<'' # f) = [''<'', f]"
  "plain f \<Longrightarrow> split_word (CHR ''>'' # f) = [''>'', f]"
  by (auto simp: plain_def word_def split_word_def split_at_def)

lemma handle_plain:
  assumes "\<forall>w \<in> set ws. plain w"
  shows "handle_redirection (ws @ rest) = (case handle_redirection rest of (opens, r) \<Rightarrow> (opens, map Some ws @ r))"
  using assms by (induction ws) (auto simp: plain_def Let_def split: prod.splits)

lemma exec_args_words: "exec_args (map Some ws @ None # r) = ws"
  unfolding exec_args_def by (induction ws) simp_all

text \<open>A child whose redirections all open.\<close>

lemma make_child_words:
  assumes "\<forall>w \<in> set ws. plain w" "ws \<noteq> []" "found os (hd ws)" "handle_redirection rest = (opens, None # r)"
  shows "make_child os p t (Some (ws @ rest)) = \<lparr>pid = p, table = fold (freopen os) opens t, program = Runs ws\<rparr>"
proof -
  have "handle_redirection (ws @ rest) = (opens, map Some ws @ None # r)" using handle_plain[OF assms(1), of rest] assms(4) by simp
  then show ?thesis using assms(2,3) by (auto simp: make_child_def exec_args_words split: list.split)
qed

lemma plain_word: "plain w \<Longrightarrow> word w" by (simp add: plain_def)

lemma not_symbol: "plain f \<Longrightarrow> f \<noteq> ''>'' \<and> f \<noteq> ''<'' \<and> f \<noteq> ''>>''"
  by (auto simp: plain_def)

lemma handle_in_out:
  "plain f \<Longrightarrow> plain g \<Longrightarrow> handle_redirection [''<'', f, ''>'', g] =
    ([(Some f, Read_mode, Stdin), (Some g, Write_mode, Stdout)], [None, Some f, None, Some g])"
  using not_symbol[of f] not_symbol[of g] by (simp add: Let_def)

text \<open>C21: A command of plain words with an input and an output file, the symbols attached to the file names or standing alone, runs with exactly its words as arguments, its standard input the one file opened for reading and its standard output the other opened for writing, and every other descriptor as it was.\<close>

theorem redirections_apply:
  assumes "\<forall>w \<in> set ws. plain w" "ws \<noteq> []" "found os (hd ws)" "plain f" "plain g"
    "file_opens os (Some f) Read_mode" "file_opens os (Some g) Write_mode"
    "line \<in> {unwords (ws @ [''<'' @ f, ''>'' @ g]), unwords (ws @ [''<'', f, ''>'', g])}"
  shows "make_child os p t (Some (split_args line)) =
    \<lparr>pid = p, table = t[0 := Some (Opened f Read_mode), 1 := Some (Opened g Write_mode)], program = Runs ws\<rparr>"
proof -
  have sym_word: "word ''<''" "word ''>''" "split_word ''<'' = [''<'']" "split_word ''>'' = [''>'']" by code_simp+
  have att: "word (CHR ''<'' # f)" "word (CHR ''>'' # g)" using assms(4,5) by (simp_all add: plain_def word_def)
  have "concat (map split_word ws) = ws" using assms(1) by (induction ws) simp_all
  moreover have "\<forall>w \<in> set ws. word w" using assms(1) plain_word by blast
  ultimately have "split_args line = ws @ [''<'', f, ''>'', g]"
    using assms(4,5,8) att sym_word plain_word[OF assms(4)] plain_word[OF assms(5)]
    by (auto simp: split_args_unwords)
  moreover have "fold (freopen os) [(Some f, Read_mode, Stdin), (Some g, Write_mode, Stdout)] t
      = t[0 := Some (Opened f Read_mode), 1 := Some (Opened g Write_mode)]"
    using assms(6,7) by (simp add: freopen_def fd_of_def)
  ultimately show ?thesis
    using make_child_words[OF assms(1-3) handle_in_out[OF assms(4,5)]] by simp
qed

theorem redirections_apply_witness:
  "make_child demo_os 0 (descs demo_shell) (Some (split_args ''sort -r <in >out'')) =
    \<lparr>pid = 0, table = (descs demo_shell)[0 := Some (Opened ''in'' Read_mode), 1 := Some (Opened ''out'' Write_mode)],
     program = Runs [''sort'', ''-r'']\<rparr>"
  by (rule redirections_apply) (simp_all add: plain_def word_def demo_os_def)




end
