(* ===== verification/ShellSystem.thy ===== *)
theory ShellSystem
  imports ShellPipes
begin

text \<open>
  What \<^verbatim>\<open>EC440_HW1/myshell.c\<close> does, over whole lines: the shell on its buffers runs as a shell on
  strings (\<open>spec_lines\<close>).
\<close>

section \<open>The shell on strings\<close>

definition spec_line :: "os \<Rightarrow> string \<Rightarrow> shell \<Rightarrow> shell run" where
  "spec_line os line s = (let (background, cmds) = parse_string line in
     if length cmds = 1 then execute_command os (split_args (cmds ! 0)) background s
     else pipe_loop os (map (\<lambda>c. Some (split_args c)) cmds) None 0 s)"

fun spec_lines :: "os \<Rightarrow> bool \<Rightarrow> string list \<Rightarrow> shell \<Rightarrow> shell run" where
  "spec_lines os quiet [] s = Done (if quiet then s else s\<lparr>trace := trace s @ [Prompt]\<rparr>)"
| "spec_lines os quiet (l # ls) s =
     (let s = (if quiet then s else s\<lparr>trace := trace s @ [Prompt]\<rparr>) in
      if l = ''exit'' then Done s else run_then (spec_line os l s) (\<lambda>s. spec_lines os quiet ls s))"

text \<open>Lines that fit the arrays of the shell.\<close>

definition line_ok :: "string \<Rightarrow> bool" where
  "line_ok l \<longleftrightarrow> length l \<le> 510 \<and> NUL \<notin> set l \<and> newline \<notin> set l \<and> length (snd (parse_string l)) \<le> 9 \<and>
     (\<forall>c \<in> set (snd (parse_string l)). length (split_args c) < 32)"

lemma parse_and_execute_line:
  assumes h: "holds b 0 l" and ok: "line_ok l"
  shows "\<exists>b'. length b' = length b \<and> parse_and_execute os b s = run_then (spec_line os l s) (\<lambda>s. Done (b', s))"
proof -
  obtain bg cs where p: "parse_string l = (bg, cs)" by (cases "parse_string l")
  have n: "length cs \<le> 9" and fit: "\<And>c. c \<in> set cs \<Longrightarrow> length (split_args c) < 32" using ok by (auto simp: line_ok_def p)
  obtain ps b1 where r: "parse_input b = Some (bg, ps, b1)" "map (str_at b1) ps = cs"
    "\<forall>q \<in> set ps. holds b1 q (str_at b1 q)" "length b1 = length b"
    using parse_input_spec[OF h p n] by blast
  have cmd: "\<exists>b'. command_args q b1 = Some (split_args (str_at b1 q), b') \<and> length b' = length b1" if q: "q \<in> set ps" for q
  proof (rule command_args_spec)
    show "holds b1 q (str_at b1 q)" using r(3) q by blast
    have "str_at b1 q \<in> set cs" unfolding r(2)[symmetric] using q by simp
    then show "length (split_args (str_at b1 q)) < 32" by (rule fit)
  qed
  have ln: "length ps = length cs" using r(2) by auto
  show ?thesis
  proof (cases "length ps = 1")
    case True
    then obtain q where q: "ps = [q]" by (cases ps) auto
    with cmd obtain b2 where "command_args q b1 = Some (split_args (str_at b1 q), b2)" "length b2 = length b1" by auto
    moreover have "cs = [str_at b1 q]" using r(2) q by simp
    ultimately show ?thesis
      using r(1,4) q by (intro exI[of _ b2]) (simp add: parse_and_execute_def spec_line_def p del: holds_str)
  next
    case False
    have "map (\<lambda>q. map_option fst (command_args q b1)) ps = map (\<lambda>c. Some (split_args c)) cs"
      unfolding r(2)[symmetric] using cmd by (auto simp del: holds_str)
    then show ?thesis
      using r(1,4) False ln by (intro exI[of _ b1]) (simp del: holds_str add: parse_and_execute_def spec_line_def p execute_piped_commands_def)
  qed
qed

lemma get_line_newline: "newline \<notin> set l \<Longrightarrow> length l < n \<Longrightarrow> get_line n (l @ newline # r) = l @ [newline]"
  by (induction n "l @ newline # r" arbitrary: l rule: get_line.induct) (auto simp: append_eq_Cons_conv Cons_eq_append_conv)

lemma newline_NUL [simp]: "newline \<noteq> NUL" by (simp add: newline_def NUL_def)

lemma fgets_line:
  assumes "line_ok l" "length b = 512"
  obtains b' where "fgets 512 (l @ newline # r) b = Some (b', r)" "str_at b' 0 = l @ [newline]" "length b' = 512"
    "holds (b'[length l := NUL]) 0 l"
proof -
  let ?b = "(l @ [newline]) @ NUL # drop (Suc (length (l @ [newline]))) b"
  have l: "length l \<le> 510" "NUL \<notin> set l" "newline \<notin> set l" using assms(1) by (auto simp: line_ok_def)
  have f: "fgets 512 (l @ newline # r) b = Some (?b, r)"
    using get_line_newline[of l 511 r] l by (simp add: fgets_def)
  have h: "holds ?b 0 (l @ [newline])"
    unfolding holds_def using l newline_NUL newline_NUL[symmetric] by (auto simp: nth_append simp del: append_assoc)
  have "length ?b = 512" using l assms(2) by simp
  moreover have "holds (?b[length l := NUL]) 0 l" using holds_cut[OF h, of "length l"] by simp
  ultimately show thesis using that[OF f] holds_str[OF h] by blast
qed

lemma main_loop_spec:
  assumes "\<forall>l \<in> set lines. line_ok l" "length b = 512"
  shows "main_loop os quiet b (concat (map (\<lambda>l. l @ [newline]) lines)) s = spec_lines os quiet lines s"
  using assms
proof (induction lines arbitrary: b s)
  case Nil
  then show ?case by (simp add: main_loop.simps fgets_def Let_def)
next
  case (Cons l ls)
  have ok: "line_ok l" using Cons.prems by simp
  let ?rest = "concat (map (\<lambda>l. l @ [newline]) ls)"
  let ?s = "if quiet then s else s\<lparr>trace := trace s @ [Prompt]\<rparr>"
  obtain b1 where f: "fgets 512 (l @ newline # ?rest) b = Some (b1, ?rest)" "str_at b1 0 = l @ [newline]"
    "length b1 = 512" "holds (b1[length l := NUL]) 0 l"
    using fgets_line[OF ok Cons.prems(2)] by metis
  have cut: "takeWhile (\<lambda>c. c \<noteq> newline) (l @ [newline]) = l"
    using ok by (subst takeWhile_append2) (auto simp: line_ok_def)
  obtain b2 where b2: "length b2 = 512" "parse_and_execute os (b1[length l := NUL]) ?s = run_then (spec_line os l ?s) (\<lambda>s. Done (b2, s))"
    using parse_and_execute_line[OF f(4) ok, of os ?s] f(3) by auto
  have IH: "main_loop os quiet b2 ?rest t = spec_lines os quiet ls t" for t
    using Cons.IH Cons.prems(1) b2(1) by simp
  have "run_then (run_then m (\<lambda>s. Done (b2, s))) (\<lambda>(b, s). main_loop os quiet b ?rest s) = run_then m (spec_lines os quiet ls)" for m
    by (cases m) (simp_all add: IH)
  then show ?case
    using f(1,2) cut b2(2) by (subst main_loop.simps) (simp add: Let_def)
qed

text \<open>A line that does not fit: ten commands, whose final null pointer is written behind the array.\<close>

lemma ten_commands_overflow: "parse_input (''a|a|a|a|a|a|a|a|a|a'' @ [NUL]) = None"
  by code_simp

text \<open>C4: The shell on its line buffer, cutting it up in place with strtok, runs every script of lines that fit its arrays as the shell on strings does: prompt, command, pipeline or exit, line by line, with no undefined behaviour of the parser.\<close>

theorem shell_implements_spec:
  assumes "\<forall>l \<in> set lines. line_ok l" "length input = 512"
  shows "main os argv input (concat (map (\<lambda>l. l @ [newline]) lines)) s
    = spec_lines os (1 < length argv \<and> argv ! 1 = ''-n'') lines s"
  unfolding main_def by (rule main_loop_spec[OF assms])

theorem shell_implements_spec_witness:
  "main demo_os [''myshell'', ''-n''] (replicate 512 NUL) (concat (map (\<lambda>l. l @ [newline]) [''ls -l | wc>out'', ''exit''])) demo_shell
    = spec_lines demo_os True [''ls -l | wc>out'', ''exit''] demo_shell"
proof -
  have "\<forall>l \<in> set [''ls -l | wc>out'', ''exit'']. line_ok l" by code_simp
  then show ?thesis
    using shell_implements_spec[of "[''ls -l | wc>out'', ''exit'']" "replicate 512 NUL" demo_os "[''myshell'', ''-n'']" demo_shell]
    by simp
qed

end
