(* ===== verification/Spec2Isabelle.thy ===== *)
theory Spec2Isabelle
  imports FsErrors Threads2 Threads3 TlsSystem ShellSystem
begin

text \<open>
  A verification development for five C programs of a course on operating systems: a shell
  (\<^verbatim>\<open>src/EC440/EC440_HW1\<close>), two thread libraries (\<^verbatim>\<open>EC440_HW2\<close>, \<^verbatim>\<open>EC440_HW3\<close>), thread local storage with
  page protection (\<^verbatim>\<open>EC440_HW4\<close>) and a file system on a virtual disk (\<^verbatim>\<open>EC440_HW5\<close>).  The programs
  share no code; within a program the parts call each other as the imports of the theories show.

  \<^bold>\<open>Conventions\<close> (theory Prelude).  C integers are words of their width, \<^verbatim>\<open>int\<close> results are \<open>int\<close>.  A
  result \<open>None\<close>, or a constructor \<open>Undefined\<close>, stands for undefined behaviour: an index outside an
  array, a dangling pointer, a read of an indeterminate value.  A theorem that a run gives \<open>Some\<close> or
  \<open>Inr\<close> therefore says that the code has none.  Every error return and every early exit of the code is a
  branch of the model.  What is not under \<^verbatim>\<open>src/\<close> (the kernel, \<^verbatim>\<open>malloc\<close>, user code) is a parameter, or a
  step the environment may take at any time.  Functions of the C library and system calls the code uses
  (\<open>strtok\<close>, \<open>setjmp\<close>, \<open>mmap\<close>, \<open>dup2\<close> and others) are modelled from their documentation.  The locales \<open>guarded_simulation\<close> and \<open>simulation\<close> state
  once how the correctness of single calls gives that of every sequence of calls.

  \<^bold>\<open>File system\<close> (\<^verbatim>\<open>disk.c\<close>, \<^verbatim>\<open>fs.c\<close>).  Disk: the five functions of \<^verbatim>\<open>disk.c\<close> over a host file whose
  calls may fail, and the contract \<open>block_device\<close> which the disk is shown to meet; the file system uses
  the disk through it.  FsLayout: constants, structures, their bytes on the disk, names.  Fat: free
  blocks and chains of \<^verbatim>\<open>fat_table\<close>.  FsState, FsRead, FsWrite: one definition for every function of
  \<^verbatim>\<open>fs.c\<close> and for each of its loops; the record \<open>fs\<close> holds the global variables.  FsInv: the invariant
  \<open>fs_inv\<close> and the abstraction \<open>abs_fs\<close> to named byte sequences and handles with offsets (FsSpec).
  FsFiles, FsTruncate, FsRead, FsGrow, FsStore prove that each call keeps the invariant and does to the
  abstraction what FsSpec says; FsMount treats \<open>make_fs\<close>, \<open>mount_fs\<close> and \<open>umount_fs\<close>; FsSystem puts the
  calls together and holds the properties.  The host file may refuse calls (\<open>io_fails\<close>) or move fewer bytes
  than asked for (\<open>moves\<close>); \<open>fs_inv\<close> includes a host that does neither, and FsErrors says what a failing
  call leaves behind on every host: nothing, but for \<open>fs_write\<close> after a failed read or write of the disk.  Loops with a
  bound in the code are functions with a termination proof, \<open>free_block_chain\<close> also ends on cyclic
  tables; the walks \<open>last_block\<close> and \<open>truncate_walk\<close> have no bound in the code and are partial functions,
  where a walk without end is \<open>None\<close>: the invariant says that chains are acyclic, and the theorems on
  the calls give \<open>Some\<close>.  No fuel is used anywhere.

  \<^bold>\<open>Thread libraries\<close> (\<^verbatim>\<open>threads.c\<close>, \<^verbatim>\<open>ec440threads.h\<close>).  Context: pointer mangling, \<^verbatim>\<open>setjmp\<close> and
  \<^verbatim>\<open>longjmp\<close> on the eight saved words, the stack and context \<open>pthread_create\<close> makes by hand, and the
  start thunk.  RoundRobin: the search of \<^verbatim>\<open>schedule\<close> and the contract of a fair scheduler, interpreted
  on both libraries.  Threads2 and Threads3: the record \<open>lib\<close> holds the static variables and the
  processor; each function is a definition, and \<open>resume_at\<close> says where a thread that was switched away
  goes on.  Their step relations let user code compute, call the library, receive the timer signal and
  be resumed, in any order; invariants and safety hold for everything reachable from program start.
  Signals arrive in user code and in the endless loop of \<open>pthread_exit\<close>, not between two statements of a
  library call.  This is a restriction of the model: HW2 never blocks the signal in its calls; HW3 blocks
  it with \<open>lock\<close> in joins, exits and semaphore calls, but not in \<open>pthread_create\<close>, in \<open>sem_init\<close> and
  \<open>sem_destroy\<close>, and not between \<open>unlock\<close> and the switch in \<open>pthread_exit\<close> and \<open>pthread_join\<close>.  Races of
  two calls through a signal at those places are outside the model.

  \<^bold>\<open>Thread local storage\<close> (\<^verbatim>\<open>tls.c\<close>).  HashTable: the table of lists, and the contract \<open>keyed_store\<close>
  it meets.  Tls: a \<open>process\<close> holds the table, the heap of the shared \<open>page\<close> structures and the virtual
  memory, a map from page addresses to protection and contents; loads, stores and the handler of
  \<^verbatim>\<open>SIGSEGV\<close> work on it, so a call that touches a protected page shows.  The kernel chooses page size and
  addresses.  TlsInv: the invariant (reference counts, distinct addresses, every page sealed between
  calls) and the abstraction to a map from threads to byte sequences.  TlsPages, TlsRead, TlsCalls,
  TlsWrite: one specification for each call, the last with the state in the middle of a copy on write.
  TlsSystem: any sequence of calls by any threads, and the properties.  Calls do not interleave: the code
  has no lock, so the model is that of calls one at a time.

  \<^bold>\<open>Shell\<close> (\<^verbatim>\<open>myshell.c\<close>).  ShellText: the line buffer, pointers as indices, \<^verbatim>\<open>strtok\<close>, and the contract
  \<open>token_loop\<close> of a loop over tokens, met by the loop over the commands of a line and by the loop over
  the arguments of a command.  ShellParse: the parser in place on the buffer, with arrays of the sizes of
  the code, shown equal to functions on strings.  ShellRun: descriptor tables, pipes, children, and the
  functions up to \<open>main\<close>; a child is recorded with its descriptors and its program.  ShellPipes: the
  wiring and the order of pipelines, redirections, waiting.  ShellSystem: the shell on buffers equals the
  shell on strings.  All recursion is on the length of the buffer or of the input, without fuel.

  \<^bold>\<open>What the properties show\<close>.  Refinement of an abstract specification (file system, thread local
  storage) and equivalence with one (shell); invariants of every reachable state (threads, semaphores,
  reference counts); isolation of files and of areas; round trips (disk, metadata, contexts, remounting);
  fairness of the schedulers; what fails and that failing changes nothing.  Where the code does something
  else than it means to, the theorem states what it does: metadata lost by a remount, lengths taken modulo
  \<open>2 ^ 32\<close>, joins nobody wakes, a wait that returns for another child.

  \<^bold>\<open>Not modelled\<close>.  The example programs \<^verbatim>\<open>main.c\<close> and \<^verbatim>\<open>test-threads.c\<close> of the thread libraries and the
  file \<^verbatim>\<open>test.c\<close> of the file system are tests.  Texts printed to the terminal and the buffering of
  \<^verbatim>\<open>stdio\<close> (children of the shell inherit unwritten output), the sharing of the position in the input
  between the shell and its children, and exhaustion of \<^verbatim>\<open>calloc\<close> in \<^verbatim>\<open>tls.c\<close> are left out.  Signals inside
  library calls and the pointer \<open>trim_spaces\<close> forms before an empty line are described above and in
  ShellParse.
\<close>

end
